(* ===== verification/Prelude.thy ===== *)
theory Prelude
  imports Main "HOL-Library.Word" "HOL-Library.Code_Target_Nat"
begin

text \<open>
  The shared vocabulary of the development.

  \<^item> Machine integers: \<open>u8\<close>, \<open>u16\<close>, \<open>u32\<close> and \<open>u64\<close> are words of their width.
    \<open>usize\<close> is a natural number; the places where the code checks a \<open>usize\<close> addition
    write the 64-bit bound out (\<open>usize_max\<close>, \<open>checked_add_usize\<close>).
  \<^item> The kernel is built with overflow checks on, so an arithmetic overflow or an index out
    of range halts it. A fallible function returns an \<open>outcome\<close>: \<open>Ok\<close> and \<open>Err\<close> are Rust's
    \<open>Result\<close>, \<open>Panic\<close> is the trap. An operation on \<open>&mut self\<close> returns the outcome together
    with the state it leaves, on the error paths too.
  \<^item> \<open>run_ops\<close> runs a sequence of operations; the locale \<open>guarded_machine\<close> is the contract
    every component's operation table meets (each operation keeps the invariant where its
    documented precondition holds) and lifts it to every run.
\<close>

unbundle bit_operations_syntax

type_synonym u8 = "8 word"
type_synonym u16 = "16 word"
type_synonym u32 = "32 word"
type_synonym u64 = "64 word"
type_synonym usize = nat

definition usize_max :: usize where
  "usize_max = 18446744073709551615"

datatype ('e, 'a) outcome = Ok 'a | Err 'e | Panic

text \<open>The \<open>?\<close> operator, and an option whose \<open>None\<close> is a trap or an error.\<close>

fun obind :: "('e, 'a) outcome \<Rightarrow> ('a \<Rightarrow> ('e, 'b) outcome) \<Rightarrow> ('e, 'b) outcome" where
  "obind (Ok a) f = f a"
| "obind (Err e) f = Err e"
| "obind Panic f = Panic"

fun or_trap :: "'a option \<Rightarrow> ('e, 'a) outcome" where
  "or_trap (Some a) = Ok a"
| "or_trap None = Panic"

fun or_err :: "'e \<Rightarrow> 'a option \<Rightarrow> ('e, 'a) outcome" where
  "or_err e (Some a) = Ok a"
| "or_err e None = Err e"

lemma obind_Ok: "obind x f = Ok y \<longleftrightarrow> (\<exists>a. x = Ok a \<and> f a = Ok y)"
  by (cases x) auto

lemma obind_Panic: "obind x f = Panic \<longleftrightarrow> x = Panic \<or> (\<exists>a. x = Ok a \<and> f a = Panic)"
  by (cases x) auto

lemma or_err_simps [simp]: "or_err e x \<noteq> Panic" "or_err e x = Ok a \<longleftrightarrow> x = Some a"
  by (cases x; simp)+

named_theorems word_ops \<open>the checked and saturating operations on words, read through unat\<close>

section \<open>Rust's checked and saturating arithmetic\<close>

definition checked_add :: "'a::len word \<Rightarrow> 'a word \<Rightarrow> 'a word option" where
  "checked_add x y = (if unat x + unat y < 2 ^ LENGTH('a) then Some (x + y) else None)"

definition checked_sub :: "'a::len word \<Rightarrow> 'a word \<Rightarrow> 'a word option" where
  "checked_sub x y = (if y \<le> x then Some (x - y) else None)"

definition checked_mul :: "'a::len word \<Rightarrow> 'a word \<Rightarrow> 'a word option" where
  "checked_mul x y = (if unat x * unat y < 2 ^ LENGTH('a) then Some (x * y) else None)"

definition saturating_add :: "'a::len word \<Rightarrow> 'a word \<Rightarrow> 'a word" where
  "saturating_add x y = (case checked_add x y of Some z \<Rightarrow> z | None \<Rightarrow> - 1)"

definition saturating_sub :: "'a::len word \<Rightarrow> 'a word \<Rightarrow> 'a word" where
  "saturating_sub x y = (if y \<le> x then x - y else 0)"

definition checked_add_usize :: "usize \<Rightarrow> usize \<Rightarrow> usize option" where
  "checked_add_usize x y = (if x + y \<le> usize_max then Some (x + y) else None)"

definition checked_mul_usize :: "usize \<Rightarrow> usize \<Rightarrow> usize option" where
  "checked_mul_usize x y = (if x * y \<le> usize_max then Some (x * y) else None)"

lemma unat_bound: "unat w < 2 ^ LENGTH('a)" for w :: "'a::len word"
  by (rule unsigned_less)

lemma checked_add_Some [word_ops]:
  "checked_add x y = Some z \<longleftrightarrow> z = x + y \<and> unat z = unat x + unat y"
  for x y z :: "'a::len word"
proof (cases "unat x + unat y < 2 ^ LENGTH('a)")
  case True
  then show ?thesis
    by (auto simp: checked_add_def unat_word_ariths)
next
  case False
  then have "unat (x + y) \<noteq> unat x + unat y"
    by (metis unat_bound)
  then show ?thesis
    using False by (auto simp: checked_add_def)
qed

lemma checked_add_None [word_ops]:
  "checked_add x y = None \<longleftrightarrow> 2 ^ LENGTH('a) \<le> unat x + unat y" for x y :: "'a::len word"
  by (auto simp: checked_add_def)

lemma checked_add_1_None:
  "checked_add x 1 = None \<longleftrightarrow> x = - 1" for x :: "'a::len word"
proof -
  have m: "unat (- 1 :: 'a word) = 2 ^ LENGTH('a) - 1"
    by (simp add: unsigned_minus_1_eq_mask mask_eq_exp_minus_1)
  have "checked_add x 1 = None \<longleftrightarrow> unat x = 2 ^ LENGTH('a) - 1"
    using unat_bound [of x] by (auto simp: checked_add_None simp del: unsigned_less)
  also have "\<dots> \<longleftrightarrow> x = - 1"
    using m by (metis unsigned_word_eqI)
  finally show ?thesis .
qed

lemma checked_mul_Some [word_ops]:
  "checked_mul x y = Some z \<longleftrightarrow> z = x * y \<and> unat z = unat x * unat y"
  for x y z :: "'a::len word"
proof (cases "unat x * unat y < 2 ^ LENGTH('a)")
  case True
  then show ?thesis
    by (auto simp: checked_mul_def unat_word_ariths)
next
  case False
  then have "unat (x * y) \<noteq> unat x * unat y"
    by (metis unat_bound)
  then show ?thesis
    using False by (auto simp: checked_mul_def)
qed

lemma checked_mul_None [word_ops]:
  "checked_mul x y = None \<longleftrightarrow> 2 ^ LENGTH('a) \<le> unat x * unat y" for x y :: "'a::len word"
  by (auto simp: checked_mul_def)

lemma unat_ucast_up:
  fixes w :: "'a::len word"
  assumes "LENGTH('a) \<le> LENGTH('b)"
  shows "unat (ucast w :: 'b::len word) = unat w"
proof -
  have "unat w < 2 ^ LENGTH('b)"
    using unat_bound [of w] power_increasing [OF assms, of "2 :: nat"] by linarith
  then show ?thesis
    by (simp add: unsigned_ucast_eq take_bit_nat_eq_self)
qed

lemma unat_sub_le [word_ops]:
  "y \<le> x \<Longrightarrow> unat (x - y) = unat x - unat y" for x y :: "'a::len word"
  by (simp add: unat_sub)

lemma checked_sub_Some [word_ops]:
  "checked_sub x y = Some z \<longleftrightarrow> y \<le> x \<and> z = x - y" for x y z :: "'a::len word"
  by (auto simp: checked_sub_def)

lemma unat_saturating_sub [word_ops]:
  "unat (saturating_sub x y) = unat x - unat y" for x y :: "'a::len word"
  by (auto simp: saturating_sub_def unat_sub word_le_nat_alt)

lemma unat_saturating_add [word_ops]:
  "unat (saturating_add x y) = min (unat x + unat y) (2 ^ LENGTH('a) - 1)"
  for x y :: "'a::len word"
proof (cases "checked_add x y")
  case None
  then have "2 ^ LENGTH('a) \<le> unat x + unat y"
    by (simp add: checked_add_None)
  then show ?thesis
    using None by (simp add: saturating_add_def unsigned_minus_1_eq_mask mask_eq_exp_minus_1)
next
  case (Some z)
  then have z: "unat z = unat x + unat y"
    unfolding checked_add_Some by blast
  then have "unat x + unat y < 2 ^ LENGTH('a)"
    using unat_bound [of z] by simp
  then show ?thesis
    using Some z by (simp add: saturating_add_def)
qed

lemma checked_add_usize_Some [word_ops]:
  "checked_add_usize x y = Some z \<longleftrightarrow> z = x + y \<and> x + y \<le> usize_max"
  by (auto simp: checked_add_usize_def)

lemma checked_mul_usize_Some [word_ops]:
  "checked_mul_usize x y = Some z \<longleftrightarrow> z = x * y \<and> x * y \<le> usize_max"
  by (auto simp: checked_mul_usize_def)

section \<open>Searching with a predicate that may trap\<close>

text \<open>
  \<open>find_p\<close> is the iterator's \<open>find\<close> with a predicate that can hit an index out of range:
  the outer \<open>None\<close> is the trap, the inner \<open>None\<close> is ``no such element''.
\<close>

fun find_p :: "('a \<Rightarrow> bool option) \<Rightarrow> 'a list \<Rightarrow> 'a option option" where
  "find_p P [] = Some None"
| "find_p P (x # xs) =
     (case P x of None \<Rightarrow> None | Some b \<Rightarrow> (if b then Some (Some x) else find_p P xs))"

lemma find_p_Some:
  "find_p P xs = Some (Some x) \<Longrightarrow> x \<in> set xs \<and> P x = Some True"
  by (induction xs) (auto split: option.splits if_splits)

lemma find_p_None:
  "find_p P xs = Some None \<longleftrightarrow> (\<forall>x\<in>set xs. P x = Some False)"
  by (induction xs) (auto split: option.splits)

lemma find_p_total:
  "\<forall>x\<in>set xs. P x \<noteq> None \<Longrightarrow> find_p P xs \<noteq> None"
  by (induction xs) (auto split: option.splits)

section \<open>Sums over a list updated in one place\<close>

lemma sum_list_update_nat:
  "i < length xs \<Longrightarrow> sum_list (xs[i := x]) + xs ! i = sum_list xs + (x::nat)"
  by (induction xs arbitrary: i) (auto split: nat.splits)

lemma sum_list_map_update:
  "i < length xs \<Longrightarrow>
     sum_list (map f (xs[i := x])) + f (xs ! i) = sum_list (map f xs) + (f x :: nat)"
  using sum_list_update_nat [of i "map f xs" "f x"] by (simp add: map_update)

lemma nth_le_sum_list: "i < length xs \<Longrightarrow> (xs ! i :: nat) \<le> sum_list xs"
  by (simp add: elem_le_sum_list)

section \<open>Machines with a guarded operation table\<close>

fun run_ops :: "('a \<Rightarrow> 's \<Rightarrow> 's) \<Rightarrow> 'a list \<Rightarrow> 's \<Rightarrow> 's" where
  "run_ops step [] s = s"
| "run_ops step (a # as) s = run_ops step as (step a s)"

fun pre_ops :: "('a \<Rightarrow> 's \<Rightarrow> 's) \<Rightarrow> ('a \<Rightarrow> 's \<Rightarrow> bool) \<Rightarrow> 'a list \<Rightarrow> 's \<Rightarrow> bool" where
  "pre_ops step pre [] s \<longleftrightarrow> True"
| "pre_ops step pre (a # as) s \<longleftrightarrow> pre a s \<and> pre_ops step pre as (step a s)"

lemma run_ops_append: "run_ops step (xs @ ys) s = run_ops step ys (run_ops step xs s)"
  by (induction xs arbitrary: s) auto

lemma pre_ops_True: "pre_ops step (\<lambda>_ _. True) as s"
  by (induction as arbitrary: s) simp_all

locale guarded_machine =
  fixes step :: "'a \<Rightarrow> 's \<Rightarrow> 's"
    and pre :: "'a \<Rightarrow> 's \<Rightarrow> bool"
    and inv :: "'s \<Rightarrow> bool"
  assumes step_inv: "inv s \<Longrightarrow> pre a s \<Longrightarrow> inv (step a s)"
begin

lemma run_inv: "inv s \<Longrightarrow> pre_ops step pre as s \<Longrightarrow> inv (run_ops step as s)"
  by (induction as arbitrary: s) (auto intro: step_inv)

lemma prefix_inv:
  "inv s \<Longrightarrow> pre_ops step pre (as @ bs) s \<Longrightarrow> inv (run_ops step as s)"
  by (induction as arbitrary: s) (auto intro: step_inv)

end

section \<open>First-in first-out queues\<close>

text \<open>
  The contract of the standard library's double-ended queue as the program uses it, and its model:
  a list, pushed at the back and popped at the front.
\<close>

locale fifo =
  fixes empty :: 'q
    and push :: "'q \<Rightarrow> 'a \<Rightarrow> 'q"
    and pop :: "'q \<Rightarrow> ('a \<times> 'q) option"
    and items :: "'q \<Rightarrow> 'a list"
  assumes items_empty: "items empty = []"
    and items_push: "items (push q x) = items q @ [x]"
    and pop_None: "pop q = None \<longleftrightarrow> items q = []"
    and pop_Some: "pop q = Some (x, q') \<Longrightarrow> items q = x # items q'"
begin

lemma push_nonempty: "pop (push q x) \<noteq> None"
  by (simp add: pop_None items_push)

lemma pop_push:
  assumes "pop q = Some (y, q')"
  obtains q'' where "pop (push q x) = Some (y, q'')" "items q'' = items q' @ [x]"
proof -
  obtain z q'' where z: "pop (push q x) = Some (z, q'')"
    using push_nonempty [of q x] by auto
  from pop_Some [OF z] pop_Some [OF assms] have "z = y" "items q'' = items q' @ [x]"
    by (simp_all add: items_push)
  with z that show thesis by simp
qed

lemma pop_fresh: "items q = [] \<Longrightarrow> pop (push q x) = Some (y, q') \<Longrightarrow> y = x \<and> items q' = []"
  using pop_Some [of "push q x" y q'] by (simp add: items_push)

end

definition push_back :: "'a list \<Rightarrow> 'a \<Rightarrow> 'a list" where
  "push_back q x = q @ [x]"

fun pop_front :: "'a list \<Rightarrow> ('a \<times> 'a list) option" where
  "pop_front [] = None"
| "pop_front (x # xs) = Some (x, xs)"

interpretation vecdeque: fifo "[]" push_back pop_front "\<lambda>q. q"
proof unfold_locales
  show "pop_front q = None \<longleftrightarrow> q = []" for q :: "'a list" by (cases q) simp_all
  show "pop_front q = Some (x, q') \<Longrightarrow> q = x # q'" for q q' :: "'a list" and x by (cases q) simp_all
qed (simp_all add: push_back_def)

end
