(* ===== verification/Rights.thy ===== *)
theory Rights
  imports Prelude
begin

text \<open>
  Capability rights, \<^verbatim>\<open>src/cap-core/src/rights.rs\<close>.  The source declares a \<open>u32\<close> flag set with
  the \<open>bitflags!\<close> macro; the model keeps the \<open>u32\<close>.  Of the methods the macro generates the
  program uses \<open>contains\<close>, \<open>|\<close>, \<open>empty\<close>, \<open>all\<close>, \<open>bits\<close> and \<open>from_bits\<close>, which are documented as
  the bit tests below.  \<open>contains\<close> is a partial order on rights (reflexive, transitive,
  antisymmetric); that is what makes ``rights only narrow along a derivation'' meaningful.
\<close>

type_synonym rights = u32

definition READ :: rights where "READ = push_bit 0 1"
definition WRITE :: rights where "WRITE = push_bit 1 1"
definition EXECUTE :: rights where "EXECUTE = push_bit 2 1"
definition MAP :: rights where "MAP = push_bit 3 1"
definition GRANT :: rights where "GRANT = push_bit 4 1"
definition RETYPE :: rights where "RETYPE = push_bit 5 1"
definition SEND :: rights where "SEND = push_bit 6 1"
definition RECV :: rights where "RECV = push_bit 7 1"
definition SIGNAL :: rights where "SIGNAL = push_bit 8 1"
definition DERIVE :: rights where "DERIVE = push_bit 9 1"
definition ENTER :: rights where "ENTER = push_bit 10 1"
definition WAIT :: rights where "WAIT = push_bit 11 1"

lemmas rights_bits =
  READ_def WRITE_def EXECUTE_def MAP_def GRANT_def RETYPE_def SEND_def RECV_def
  SIGNAL_def DERIVE_def ENTER_def WAIT_def

definition rights_ALL :: rights where
  "rights_ALL = READ OR WRITE OR EXECUTE OR MAP OR GRANT OR RETYPE OR SEND OR RECV
     OR SIGNAL OR DERIVE OR ENTER OR WAIT"

definition rights_empty :: rights where "rights_empty = 0"

definition contains :: "rights \<Rightarrow> rights \<Rightarrow> bool" where
  "contains self other \<longleftrightarrow> self AND other = other"

definition from_bits :: "u32 \<Rightarrow> rights option" where
  "from_bits b = (if b AND NOT rights_ALL = 0 then Some b else None)"

definition subset_of :: "rights \<Rightarrow> rights \<Rightarrow> bool" where
  "subset_of self par \<longleftrightarrow> contains par self"

lemma contains_iff_bit: "contains a b \<longleftrightarrow> (\<forall>n. bit b n \<longrightarrow> bit a n)"
proof
  assume "contains a b"
  then show "\<forall>n. bit b n \<longrightarrow> bit a n"
    unfolding contains_def by (metis bit_and_iff)
next
  assume "\<forall>n. bit b n \<longrightarrow> bit a n"
  then show "contains a b"
    unfolding contains_def by (auto intro!: bit_eqI simp: bit_and_iff)
qed

lemma subset_of_refl [simp, intro]: "subset_of r r"
  by (simp add: subset_of_def contains_def)

lemma subset_of_trans: "subset_of a b \<Longrightarrow> subset_of b c \<Longrightarrow> subset_of a c"
  by (simp add: subset_of_def contains_iff_bit)

lemma subset_of_antisym: "subset_of a b \<Longrightarrow> subset_of b a \<Longrightarrow> a = b"
  by (auto simp: subset_of_def contains_iff_bit intro!: bit_eqI)

lemma subset_of_contains: "subset_of a b \<Longrightarrow> contains a r \<Longrightarrow> contains b r"
  by (simp add: subset_of_def contains_iff_bit)

lemma empty_subset [simp]: "subset_of rights_empty r"
  by (simp add: subset_of_def contains_def rights_empty_def)

lemma contains_or: "contains a (b OR c) \<longleftrightarrow> contains a b \<and> contains a c"
  by (auto simp: contains_iff_bit bit_or_iff)

lemma not_contains_mono: "subset_of a b \<Longrightarrow> \<not> contains b r \<Longrightarrow> \<not> contains a r"
  using subset_of_contains by blast

end
