(* ===== verification/Cap.thy ===== *)
theory Cap
  imports Rights
begin

text \<open>
  The capability record, \<^verbatim>\<open>src/cap-core/src/cap.rs\<close>: the object classes, the type-erased record
  \<open>raw_cap\<close> stored in a slot, and the typed handle \<open>Cap<T>\<close>.  The source's phantom type
  parameter \<open>T\<close> is carried as the tag \<open>T::TYPE\<close>, so \<open>fabricate\<close> takes the tag as an argument.
  The field \<open>size\<close> of the source is \<open>csize\<close> here.
\<close>

datatype cap_type =
    Null | Untyped | Frame | CNode | Endpoint | Notification | Task | Sched | Reply
  | AddrSpace | VSpace | FNode | Device | IrqControl | Domain | SharedRo

fun cap_type_u8 :: "cap_type \<Rightarrow> u8" where
  "cap_type_u8 Null = 0"
| "cap_type_u8 Untyped = 1"
| "cap_type_u8 Frame = 2"
| "cap_type_u8 CNode = 3"
| "cap_type_u8 Endpoint = 4"
| "cap_type_u8 Notification = 5"
| "cap_type_u8 Task = 6"
| "cap_type_u8 Sched = 7"
| "cap_type_u8 Reply = 8"
| "cap_type_u8 AddrSpace = 9"
| "cap_type_u8 VSpace = 10"
| "cap_type_u8 FNode = 11"
| "cap_type_u8 Device = 12"
| "cap_type_u8 IrqControl = 13"
| "cap_type_u8 Domain = 14"
| "cap_type_u8 SharedRo = 15"

record raw_cap =
  cap_type :: cap_type
  rights :: rights
  objref :: u64
  csize :: u32
  watermark :: u32
  aux :: u32
  badge :: u64

definition NULL :: raw_cap where
  "NULL = \<lparr>cap_type = Null, rights = rights_empty, objref = 0, csize = 0, watermark = 0,
           aux = 0, badge = 0\<rparr>"

definition is_null :: "raw_cap \<Rightarrow> bool" where
  "is_null c \<longleftrightarrow> cap_type c = Null"

record typed_cap =
  cap_tag :: cap_type
  cap_raw :: raw_cap

definition fabricate :: "cap_type \<Rightarrow> raw_cap \<Rightarrow> typed_cap" where
  "fabricate t raw = \<lparr>cap_tag = t, cap_raw = raw\<rparr>"

definition cap_rights :: "typed_cap \<Rightarrow> rights" where
  "cap_rights c = rights (cap_raw c)"

definition cap_objref :: "typed_cap \<Rightarrow> u64" where
  "cap_objref c = objref (cap_raw c)"

definition cap_badge :: "typed_cap \<Rightarrow> u64" where
  "cap_badge c = badge (cap_raw c)"

definition allows :: "typed_cap \<Rightarrow> rights \<Rightarrow> bool" where
  "allows c r \<longleftrightarrow> contains (rights (cap_raw c)) r"

definition to_raw :: "typed_cap \<Rightarrow> raw_cap" where
  "to_raw c = cap_raw c"

lemma cap_type_u8_inj: "cap_type_u8 a = cap_type_u8 b \<longleftrightarrow> a = b"
  by (cases a; cases b) simp_all

lemma is_null_NULL [simp]: "is_null NULL"
  by (simp add: is_null_def NULL_def)

end
