(* ===== verification/Budget.thy ===== *)
theory Budget
  imports Cap
begin

text \<open>
  CPU time as a capability, \<^verbatim>\<open>src/cap-core/src/sched.rs\<close>: a \<open>budget\<close> is the allotment carried in
  the \<open>size\<close>/\<open>watermark\<close>/\<open>aux\<close> fields of a \<open>Sched\<close> capability.  Operations taking
  \<open>&mut self\<close> return the updated allotment.  The lemmas show conservation: \<open>split\<close> and
  \<open>delegate\<close> move capacity and never create it, and never wrap.
\<close>

record budget =
  capacity :: u32
  consumed :: u32
  period :: u32

definition budget_new :: "u32 \<Rightarrow> u32 \<Rightarrow> budget" where
  "budget_new cpt per = \<lparr>capacity = cpt, consumed = 0, period = per\<rparr>"

definition from_cap :: "raw_cap \<Rightarrow> budget" where
  "from_cap c = \<lparr>capacity = csize c, consumed = watermark c, period = aux c\<rparr>"

definition write_into :: "budget \<Rightarrow> raw_cap \<Rightarrow> raw_cap" where
  "write_into b c = c\<lparr>csize := capacity b, watermark := consumed b, aux := period b\<rparr>"

definition is_depleted :: "budget \<Rightarrow> bool" where
  "is_depleted b \<longleftrightarrow> capacity b \<le> consumed b"

definition remaining :: "budget \<Rightarrow> u32" where
  "remaining b = saturating_sub (capacity b) (consumed b)"

definition charge :: "budget \<Rightarrow> u32 \<Rightarrow> budget" where
  "charge b n = b\<lparr>consumed := saturating_add (consumed b) n\<rparr>"

definition replenish :: "budget \<Rightarrow> budget" where
  "replenish b = b\<lparr>consumed := 0\<rparr>"

text \<open>\<open>split\<close>: \<open>None\<close> leaves the allotment as it was, \<open>Some (self', child)\<close> otherwise.\<close>

definition budget_split :: "budget \<Rightarrow> u32 \<Rightarrow> (budget \<times> budget) option" where
  "budget_split b amount =
     (if amount = 0 \<or> remaining b < amount then None
      else Some (b\<lparr>capacity := capacity b - amount\<rparr>,
                 \<lparr>capacity = amount, consumed = 0, period = period b\<rparr>))"

text \<open>\<open>delegate\<close>: \<open>None\<close> is the source's \<open>false\<close> (both sides untouched), \<open>Some (self', dst')\<close> its \<open>true\<close>.\<close>

definition budget_delegate :: "budget \<Rightarrow> budget \<Rightarrow> u32 \<Rightarrow> (budget \<times> budget) option" where
  "budget_delegate b dst amount =
     (if amount = 0 \<or> remaining b < amount then None
      else (case checked_add (capacity dst) amount of
              None \<Rightarrow> None
            | Some credited \<Rightarrow>
                Some (b\<lparr>capacity := capacity b - amount\<rparr>, dst\<lparr>capacity := credited\<rparr>)))"

lemma from_cap_sel [simp]:
  "capacity (from_cap c) = csize c" "consumed (from_cap c) = watermark c"
  "period (from_cap c) = aux c"
  by (simp_all add: from_cap_def)

lemma write_into_sel [simp]:
  "cap_type (write_into b c) = cap_type c" "rights (write_into b c) = rights c"
  "objref (write_into b c) = objref c" "badge (write_into b c) = badge c"
  "csize (write_into b c) = capacity b" "watermark (write_into b c) = consumed b"
  "aux (write_into b c) = period b" "is_null (write_into b c) = is_null c"
  by (simp_all add: write_into_def is_null_def)

lemma unat_remaining: "unat (remaining b) = unat (capacity b) - unat (consumed b)"
  by (simp add: remaining_def word_ops)

lemma remaining_le: "amount \<le> remaining b \<Longrightarrow> amount \<le> capacity b"
  by (simp add: word_le_nat_alt unat_remaining)

lemma budget_split_Some:
  assumes "budget_split b amount = Some (b', c)"
  shows "unat (capacity b') + unat (capacity c) = unat (capacity b)"
    and "0 < amount" and "capacity c = amount" and "consumed c = 0" and "period c = period b"
    and "consumed b' = consumed b" and "period b' = period b"
    and "unat (consumed b') \<le> unat (capacity b')"
proof -
  from assms have a: "amount \<noteq> 0" "amount \<le> remaining b"
    and b': "b' = b\<lparr>capacity := capacity b - amount\<rparr>"
    and c: "c = \<lparr>capacity = amount, consumed = 0, period = period b\<rparr>"
    by (auto simp: budget_split_def split: if_splits)
  from remaining_le [OF a(2)] have le: "amount \<le> capacity b" .
  then have "unat (capacity b - amount) = unat (capacity b) - unat amount"
    by (rule unat_sub_le)
  with le show "unat (capacity b') + unat (capacity c) = unat (capacity b)"
    by (simp add: b' c word_le_nat_alt)
  from a le show "unat (consumed b') \<le> unat (capacity b')"
    by (simp add: b' unat_sub_le word_le_nat_alt unat_remaining)
      (metis diff_is_0_eq le_zero_eq nat_le_linear ordered_cancel_comm_monoid_diff_class.le_diff_conv2
        add.commute unat_eq_zero)
  from a show "0 < amount" by (simp add: word_neq_0_conv)
qed (use assms in \<open>auto simp: budget_split_def split: if_splits\<close>)

lemma budget_delegate_Some:
  assumes "budget_delegate b d amount = Some (b', d')"
  shows "unat (capacity b') + unat (capacity d') = unat (capacity b) + unat (capacity d)"
    and "consumed b' = consumed b" and "period b' = period b"
    and "consumed d' = consumed d" and "period d' = period d"
proof -
  from assms obtain k where a: "amount \<le> remaining b" and k: "checked_add (capacity d) amount = Some k"
    and b': "b' = b\<lparr>capacity := capacity b - amount\<rparr>" and d': "d' = d\<lparr>capacity := k\<rparr>"
    by (auto simp: budget_delegate_def not_less split: if_splits option.splits)
  from remaining_le [OF a] have "unat amount \<le> unat (capacity b)"
    by (simp add: word_le_nat_alt)
  moreover from k have "unat k = unat (capacity d) + unat amount"
    unfolding checked_add_Some by blast
  moreover have "unat (capacity b - amount) = unat (capacity b) - unat amount"
    using remaining_le [OF a] by (rule unat_sub_le)
  ultimately show "unat (capacity b') + unat (capacity d') = unat (capacity b) + unat (capacity d)"
    by (simp add: b' d')
qed (use assms in \<open>auto simp: budget_delegate_def split: if_splits option.splits\<close>)

end
