(* ===== verification/CSpace.thy ===== *)
theory CSpace
  imports Budget
begin

text \<open>
  The capability space and its derivation tree (MDB), \<^verbatim>\<open>src/cap-core/src/cspace.rs\<close>: the state, every
  operation, and their basic equations.  A \<open>cspace\<close> is the slot array \<open>[Cte; N]\<close> (a list whose
  length is the const generic \<open>N\<close>), the id source \<open>next_obj\<close>, and, for the function pointer
  \<open>zero: fn(u64, u32)\<close>, the log \<open>zlog\<close> of the calls made through it, in order.

  Conventions.  A method that can only return \<open>Err\<close> has a sum type (\<open>Inl\<close> the error); one that can
  also trap (index out of range, or an overflow, which the release profile checks) returns an
  \<open>outcome\<close>, with the state the method leaves behind on every branch.  Internal helpers that can
  only trap return an \<open>option\<close>.  \<open>debug_assert!\<close> is compiled out, as in the release profile.
\<close>

type_synonym cptr = usize

definition NIL :: usize where "NIL = usize_max"

datatype cap_error =
  OutOfBounds | EmptySlot | WrongType | SlotOccupied | InsufficientRights | OutOfBudget

record cte =
  cap :: raw_cap
  parent :: usize

definition EMPTY :: cte where
  "EMPTY = \<lparr>cap = NULL, parent = NIL\<rparr>"

record cspace =
  slots :: "cte list"
  next_obj :: u64
  zlog :: "(u64 \<times> u32) list"

abbreviation nslots :: "cspace \<Rightarrow> nat" where "nslots cs \<equiv> length (slots cs)"
abbreviation cap_at :: "cspace \<Rightarrow> cptr \<Rightarrow> raw_cap" where "cap_at cs k \<equiv> cap (slots cs ! k)"
abbreviation parent_at :: "cspace \<Rightarrow> cptr \<Rightarrow> usize" where "parent_at cs k \<equiv> parent (slots cs ! k)"
abbreviation type_at :: "cspace \<Rightarrow> cptr \<Rightarrow> cap_type" where "type_at cs k \<equiv> cap_type (cap_at cs k)"

abbreviation set_slot :: "cspace \<Rightarrow> cptr \<Rightarrow> cte \<Rightarrow> cspace" where
  "set_slot cs k e \<equiv> cs\<lparr>slots := (slots cs)[k := e]\<rparr>"

abbreviation set_cap :: "cspace \<Rightarrow> cptr \<Rightarrow> raw_cap \<Rightarrow> cspace" where
  "set_cap cs k c \<equiv> set_slot cs k ((slots cs ! k)\<lparr>cap := c\<rparr>)"

section \<open>Bootstrap\<close>

definition cspace_new :: "nat \<Rightarrow> cspace" where
  "cspace_new n = \<lparr>slots = replicate n EMPTY, next_obj = 1, zlog = []\<rparr>"

text \<open>\<open>install cs k c\<close> is the assignment \<open>self.slots[k] = Cte { cap: c, parent: NIL }\<close>, which traps
  when the index is out of range.\<close>

definition install :: "cspace \<Rightarrow> cptr \<Rightarrow> raw_cap \<Rightarrow> (cap_error, unit) outcome \<times> cspace" where
  "install cs k c =
     (if k < nslots cs then (Ok (), set_slot cs k \<lparr>cap = c, parent = NIL\<rparr>) else (Panic, cs))"

definition set_root_untyped :: "cspace \<Rightarrow> u64 \<Rightarrow> u32 \<Rightarrow> (cap_error, unit) outcome \<times> cspace" where
  "set_root_untyped cs base frames =
     install cs 0 \<lparr>cap_type = Untyped, rights = RETYPE, objref = base, csize = frames,
                    watermark = 0, aux = 0, badge = 0\<rparr>"

definition set_root_sched :: "cspace \<Rightarrow> cptr \<Rightarrow> u32 \<Rightarrow> u32 \<Rightarrow> (cap_error, unit) outcome \<times> cspace" where
  "set_root_sched cs slot bdg per =
     (let obj = next_obj cs in
      case checked_add (next_obj cs) 1 of
        None \<Rightarrow> (Panic, cs)
      | Some n \<Rightarrow>
          install (cs\<lparr>next_obj := n\<rparr>) slot
            \<lparr>cap_type = Sched, rights = DERIVE OR GRANT, objref = obj, csize = bdg,
             watermark = 0, aux = per, badge = 0\<rparr>)"

definition set_root_domain :: "cspace \<Rightarrow> cptr \<Rightarrow> u64 \<Rightarrow> (cap_error, unit) outcome \<times> cspace" where
  "set_root_domain cs slot domain_id =
     install cs slot \<lparr>cap_type = Domain, rights = ENTER, objref = domain_id, csize = 0,
                       watermark = 0, aux = 0, badge = 0\<rparr>"

definition install_notification ::
  "cspace \<Rightarrow> cptr \<Rightarrow> u64 \<Rightarrow> rights \<Rightarrow> (cap_error, unit) outcome \<times> cspace" where
  "install_notification cs slot notif_id r =
     install cs slot \<lparr>cap_type = Notification, rights = r, objref = notif_id, csize = 0,
                       watermark = 0, aux = 0, badge = 0\<rparr>"

definition install_shared_ro ::
  "cspace \<Rightarrow> cptr \<Rightarrow> u64 \<Rightarrow> u32 \<Rightarrow> u64 \<Rightarrow> (cap_error, unit) outcome \<times> cspace" where
  "install_shared_ro cs slot base_pfn frames va =
     install cs slot \<lparr>cap_type = SharedRo, rights = READ, objref = base_pfn, csize = frames,
                       watermark = 0, aux = ucast (drop_bit 12 va), badge = 0\<rparr>"

definition install_frame ::
  "cspace \<Rightarrow> cptr \<Rightarrow> u64 \<Rightarrow> u32 \<Rightarrow> rights \<Rightarrow> (cap_error, unit) outcome \<times> cspace" where
  "install_frame cs slot base_pfn frames r =
     install cs slot \<lparr>cap_type = Frame, rights = r, objref = base_pfn, csize = frames,
                       watermark = 0, aux = 0, badge = 0\<rparr>"

section \<open>Resolution\<close>

definition live :: "cspace \<Rightarrow> cptr \<Rightarrow> cap_error + raw_cap" where
  "live cs c =
     (if nslots cs \<le> c then Inl OutOfBounds
      else if is_null (cap_at cs c) then Inl EmptySlot
      else Inr (cap_at cs c))"

definition resolve :: "cspace \<Rightarrow> cptr \<Rightarrow> cap_error + raw_cap" where
  "resolve cs c = live cs c"

definition get_cap :: "cap_type \<Rightarrow> cspace \<Rightarrow> cptr \<Rightarrow> cap_error + typed_cap" where
  "get_cap t cs c =
     (case live cs c of
        Inl e \<Rightarrow> Inl e
      | Inr raw \<Rightarrow> if cap_type_u8 (cap_type raw) \<noteq> cap_type_u8 t then Inl WrongType
                   else Inr (fabricate t raw))"

definition shared_ro_region :: "cspace \<Rightarrow> cptr \<Rightarrow> cap_error + u64" where
  "shared_ro_region cs c =
     (case live cs c of
        Inl e \<Rightarrow> Inl e
      | Inr s \<Rightarrow> if cap_type s \<noteq> SharedRo then Inl WrongType
                 else if \<not> contains (rights s) READ then Inl InsufficientRights
                 else Inr (push_bit 12 (ucast (aux s))))"

definition enter_domain :: "cspace \<Rightarrow> cptr \<Rightarrow> cap_error + u64" where
  "enter_domain cs c =
     (case live cs c of
        Inl e \<Rightarrow> Inl e
      | Inr d \<Rightarrow> if cap_type d \<noteq> Domain then Inl WrongType
                 else if \<not> contains (rights d) ENTER then Inl InsufficientRights
                 else Inr (objref d))"

section \<open>Retype\<close>

fun is_retypeable :: "cap_type \<Rightarrow> bool" where
  "is_retypeable Null = False"
| "is_retypeable Untyped = False"
| "is_retypeable Reply = False"
| "is_retypeable IrqControl = False"
| "is_retypeable Sched = False"
| "is_retypeable Domain = False"
| "is_retypeable SharedRo = False"
| "is_retypeable _ = True"

fun default_rights :: "cap_type \<Rightarrow> rights" where
  "default_rights Untyped = RETYPE"
| "default_rights Frame = READ OR WRITE OR MAP OR GRANT OR DERIVE"
| "default_rights CNode = DERIVE OR GRANT"
| "default_rights Endpoint = SEND OR RECV OR GRANT OR DERIVE"
| "default_rights Notification = SIGNAL OR RECV OR DERIVE"
| "default_rights _ = DERIVE"

text \<open>The committing loop of \<open>retype\<close> over the remaining indices; \<open>None\<close> is a trap.\<close>

fun retype_fill ::
  "cptr \<Rightarrow> cap_type \<Rightarrow> u32 \<Rightarrow> u64 \<Rightarrow> cptr \<Rightarrow> nat list \<Rightarrow> cspace \<Rightarrow> cspace option" where
  "retype_fill ut t fpo base dest [] cs = Some cs"
| "retype_fill ut t fpo base dest (i # is) cs =
     (case checked_mul (of_nat i) fpo of
        None \<Rightarrow> None
      | Some off \<Rightarrow>
          (case checked_add base (ucast off) of
             None \<Rightarrow> None
           | Some obj \<Rightarrow>
               if dest + i < nslots cs then
                 retype_fill ut t fpo base dest is
                   (set_slot (cs\<lparr>zlog := zlog cs @ [(obj, fpo)]\<rparr>) (dest + i)
                     \<lparr>cap = \<lparr>cap_type = t, rights = default_rights t, objref = obj, csize = fpo,
                            watermark = 0, aux = 0, badge = 0\<rparr>,
                      parent = ut\<rparr>)
               else None))"

definition retype ::
  "cspace \<Rightarrow> cptr \<Rightarrow> cap_type \<Rightarrow> u32 \<Rightarrow> u32 \<Rightarrow> cptr \<Rightarrow> (cap_error, unit) outcome \<times> cspace" where
  "retype cs ut t fpo count dest =
     (case live cs ut of
        Inl e \<Rightarrow> (Err e, cs)
      | Inr u \<Rightarrow>
          if cap_type u \<noteq> Untyped then (Err WrongType, cs)
          else if \<not> contains (rights u) RETYPE then (Err InsufficientRights, cs)
          else if \<not> is_retypeable t then (Err WrongType, cs)
          else if fpo = 0 \<or> count = 0 then (Err OutOfBudget, cs)
          else (case checked_mul fpo count of
             None \<Rightarrow> (Err OutOfBudget, cs)
           | Some need \<Rightarrow>
               (case checked_sub (csize u) (watermark u) of
                  None \<Rightarrow> (Panic, cs)
                | Some avail \<Rightarrow>
                    if avail < need then (Err OutOfBudget, cs)
                    else (case checked_add_usize dest (unat count) of
                       None \<Rightarrow> (Err OutOfBounds, cs)
                     | Some end_slot \<Rightarrow>
                         if nslots cs < end_slot then (Err OutOfBounds, cs)
                         else if list_ex (\<lambda>i. \<not> is_null (cap_at cs (dest + i))) [0..<unat count]
                         then (Err SlotOccupied, cs)
                         else (case checked_add (objref u) (ucast (watermark u)) of
                            None \<Rightarrow> (Panic, cs)
                          | Some base \<Rightarrow>
                              (case checked_add (watermark u) need of
                                 None \<Rightarrow> (Panic, cs)
                               | Some wm \<Rightarrow>
                                   (let cs1 = set_cap cs ut (u\<lparr>watermark := wm\<rparr>) in
                                    case retype_fill ut t fpo base dest [0..<unat count] cs1 of
                                      None \<Rightarrow> (Panic, cs1)
                                    | Some cs2 \<Rightarrow> (Ok (), cs2))))))))"

section \<open>Derivation\<close>

definition place :: "cspace \<Rightarrow> cptr \<Rightarrow> raw_cap \<Rightarrow> usize \<Rightarrow> cap_error + cspace" where
  "place cs dest c p =
     (if nslots cs \<le> dest then Inl OutOfBounds
      else if \<not> is_null (cap_at cs dest) then Inl SlotOccupied
      else Inr (set_slot cs dest \<lparr>cap = c, parent = p\<rparr>))"

text \<open>The \<open>matches!\<close> test shared by \<open>mint\<close> and \<open>copy\<close>.\<close>

fun non_duplicable :: "cap_type \<Rightarrow> bool" where
  "non_duplicable Untyped = True"
| "non_duplicable Sched = True"
| "non_duplicable Reply = True"
| "non_duplicable Domain = True"
| "non_duplicable SharedRo = True"
| "non_duplicable _ = False"

definition mint :: "cspace \<Rightarrow> cptr \<Rightarrow> cptr \<Rightarrow> rights \<Rightarrow> u64 \<Rightarrow> (cap_error, unit) outcome \<times> cspace" where
  "mint cs src dest new_rights bdg =
     (case live cs src of
        Inl e \<Rightarrow> (Err e, cs)
      | Inr s \<Rightarrow>
          if non_duplicable (cap_type s) then (Err InsufficientRights, cs)
          else if \<not> contains (rights s) DERIVE then (Err InsufficientRights, cs)
          else if \<not> subset_of new_rights (rights s) then (Err InsufficientRights, cs)
          else (case place cs dest (s\<lparr>rights := new_rights, badge := bdg\<rparr>) src of
                  Inl e \<Rightarrow> (Err e, cs)
                | Inr cs' \<Rightarrow> (Ok (), cs')))"

definition copy :: "cspace \<Rightarrow> cptr \<Rightarrow> cptr \<Rightarrow> (cap_error, unit) outcome \<times> cspace" where
  "copy cs src dest =
     (case live cs src of
        Inl e \<Rightarrow> (Err e, cs)
      | Inr s \<Rightarrow>
          if non_duplicable (cap_type s) then (Err InsufficientRights, cs)
          else if \<not> contains (rights s) DERIVE then (Err InsufficientRights, cs)
          else (let src_parent = parent_at cs src;
                    par = (if src_parent = NIL then src else src_parent) in
                case place cs dest s par of
                  Inl e \<Rightarrow> (Err e, cs)
                | Inr cs' \<Rightarrow> (Ok (), cs')))"

definition cte_ref :: "cspace \<Rightarrow> cptr \<Rightarrow> cap_error + cte" where
  "cte_ref cs c =
     (if nslots cs \<le> c then Inl OutOfBounds
      else if is_null (cap_at cs c) then Inl EmptySlot
      else Inr (slots cs ! c))"

definition reparent :: "usize \<Rightarrow> usize \<Rightarrow> cte \<Rightarrow> cte" where
  "reparent src dest e = (if parent e = src then e\<lparr>parent := dest\<rparr> else e)"

definition move_cap :: "cspace \<Rightarrow> cptr \<Rightarrow> cptr \<Rightarrow> (cap_error, unit) outcome \<times> cspace" where
  "move_cap cs src dest =
     (case cte_ref cs src of
        Inl e \<Rightarrow> (Err e, cs)
      | Inr e \<Rightarrow>
          if dest = src then (Ok (), cs)
          else if nslots cs \<le> dest then (Err OutOfBounds, cs)
          else if \<not> is_null (cap_at cs dest) then (Err SlotOccupied, cs)
          else (Ok (), cs\<lparr>slots := (map (reparent src dest) (slots cs))[dest := e, src := EMPTY]\<rparr>))"

section \<open>Sched budgets\<close>

definition split_sched :: "cspace \<Rightarrow> cptr \<Rightarrow> cptr \<Rightarrow> u32 \<Rightarrow> (cap_error, unit) outcome \<times> cspace" where
  "split_sched cs src dest amount =
     (case live cs src of
        Inl e \<Rightarrow> (Err e, cs)
      | Inr s \<Rightarrow>
          if cap_type s \<noteq> Sched then (Err WrongType, cs)
          else if \<not> contains (rights s) DERIVE then (Err InsufficientRights, cs)
          else (case budget_split (from_cap s) amount of
             None \<Rightarrow> (Err OutOfBudget, cs)
           | Some (par, child) \<Rightarrow>
               (case place cs dest
                       \<lparr>cap_type = Sched, rights = rights s, objref = next_obj cs,
                        csize = capacity child, watermark = consumed child,
                        aux = period child, badge = 0\<rparr> src of
                  Inl e \<Rightarrow> (Err e, cs)
                | Inr cs1 \<Rightarrow>
                    (let cs2 = set_cap cs1 src (write_into par (cap_at cs1 src)) in
                     case checked_add (next_obj cs2) 1 of
                       None \<Rightarrow> (Panic, cs2)
                     | Some n \<Rightarrow> (Ok (), cs2\<lparr>next_obj := n\<rparr>)))))"

definition delegate_sched :: "cspace \<Rightarrow> cptr \<Rightarrow> cptr \<Rightarrow> u32 \<Rightarrow> (cap_error, unit) outcome \<times> cspace" where
  "delegate_sched cs src dest amount =
     (if src = dest then (Ok (), cs)
      else (case live cs src of
              Inl e \<Rightarrow> (Err e, cs)
            | Inr s \<Rightarrow>
                (case live cs dest of
                   Inl e \<Rightarrow> (Err e, cs)
                 | Inr d \<Rightarrow>
                     if cap_type s \<noteq> Sched \<or> cap_type d \<noteq> Sched then (Err WrongType, cs)
                     else if \<not> contains (rights s) DERIVE then (Err InsufficientRights, cs)
                     else (case budget_delegate (from_cap s) (from_cap d) amount of
                             None \<Rightarrow> (Err OutOfBudget, cs)
                           | Some (src_b, dst_b) \<Rightarrow>
                               (let cs1 = set_cap cs src (write_into src_b (cap_at cs src)) in
                                (Ok (), set_cap cs1 dest (write_into dst_b (cap_at cs1 dest))))))))"

section \<open>Destruction, reply authority, revocation\<close>

text \<open>\<open>destroy_slot\<close>: \<open>None\<close> is a trap (the slot or its parent index out of range).\<close>

definition destroy_slot :: "cspace \<Rightarrow> cptr \<Rightarrow> cspace option" where
  "destroy_slot cs d =
     (if nslots cs \<le> d then None
      else (let c = cap_at cs d in
        if is_null c then Some cs
        else (let par = parent_at cs d; cs1 = set_slot cs d EMPTY in
          if cap_type c = Sched \<and> par \<noteq> NIL \<and> nslots cs \<le> par then None
          else (let
            cs2 = (if cap_type c = Sched \<and> par \<noteq> NIL \<and> type_at cs1 par = Sched
                   then set_cap cs1 par ((cap_at cs1 par)\<lparr>csize :=
                          saturating_add (csize (cap_at cs1 par)) (csize c)\<rparr>)
                   else cs1);
            another = list_ex (\<lambda>e. \<not> is_null (cap e)
                        \<and> cap_type_u8 (cap_type (cap e)) = cap_type_u8 (cap_type c)
                        \<and> objref (cap e) = objref c) (slots cs2)
            in Some (if \<not> another \<and> \<not> non_duplicable (cap_type c)
                     then cs2\<lparr>zlog := zlog cs2 @ [(objref c, csize c)]\<rparr> else cs2)))))"

definition mint_reply :: "cspace \<Rightarrow> cptr \<Rightarrow> u64 \<Rightarrow> u64 \<Rightarrow> (cap_error, unit) outcome \<times> cspace" where
  "mint_reply cs dest caller bdg =
     (case place cs dest \<lparr>cap_type = Reply, rights = rights_empty, objref = caller, csize = 0,
                          watermark = 0, aux = 0, badge = bdg\<rparr> NIL of
        Inl e \<Rightarrow> (Err e, cs)
      | Inr cs' \<Rightarrow> (Ok (), cs'))"

definition consume_reply :: "cspace \<Rightarrow> cptr \<Rightarrow> (cap_error, u64) outcome \<times> cspace" where
  "consume_reply cs dest =
     (case live cs dest of
        Inl e \<Rightarrow> (Err e, cs)
      | Inr r \<Rightarrow>
          if cap_type r \<noteq> Reply then (Err WrongType, cs)
          else (case destroy_slot cs dest of
                  None \<Rightarrow> (Panic, cs)
                | Some cs' \<Rightarrow> (Ok (objref r), cs')))"

fun is_descendant_loop :: "nat \<Rightarrow> cspace \<Rightarrow> cptr \<Rightarrow> cptr \<Rightarrow> bool option" where
  "is_descendant_loop 0 cs d a = Some False"
| "is_descendant_loop (Suc n) cs d a =
     (if nslots cs \<le> d then None
      else (let p = parent_at cs d in
        if p = NIL then Some False
        else if p = a then Some True
        else is_descendant_loop n cs p a))"

definition is_descendant :: "cspace \<Rightarrow> cptr \<Rightarrow> cptr \<Rightarrow> bool option" where
  "is_descendant cs d a = is_descendant_loop (Suc (nslots cs)) cs d a"

definition has_children :: "cspace \<Rightarrow> cptr \<Rightarrow> bool" where
  "has_children cs d = list_ex (\<lambda>e. \<not> is_null (cap e) \<and> parent e = d) (slots cs)"

text \<open>The predicate of the search in \<open>revoke\<close>, with \<open>&&\<close> short-circuiting as in the source.\<close>

definition doomed_leaf :: "cspace \<Rightarrow> cptr \<Rightarrow> cptr \<Rightarrow> bool option" where
  "doomed_leaf cs c d =
     (if d \<noteq> c \<and> \<not> is_null (cap_at cs d)
      then (case is_descendant cs d c of
              None \<Rightarrow> None
            | Some b \<Rightarrow> Some (b \<and> \<not> has_children cs d))
      else Some False)"

definition live_count :: "cspace \<Rightarrow> nat" where
  "live_count cs = sum_list (map (\<lambda>e. if is_null (cap e) then 0 else 1) (slots cs))"

lemma EMPTY_sel [simp]: "cap EMPTY = NULL" "parent EMPTY = NIL"
  by (simp_all add: EMPTY_def)

lemma NULL_type [simp]: "cap_type NULL = Null"
  by (simp add: NULL_def)

lemma is_null_type: "cap_type c \<noteq> Null \<Longrightarrow> \<not> is_null c"
  by (simp add: is_null_def)

lemma live_Inr [simp]:
  "live cs c = Inr u \<longleftrightarrow> c < nslots cs \<and> \<not> is_null (cap_at cs c) \<and> u = cap_at cs c"
  by (auto simp: live_def)

text \<open>\<open>credited cs d\<close>: destroying slot \<open>d\<close> returns its budget to its parent.\<close>

definition credited :: "cspace \<Rightarrow> cptr \<Rightarrow> bool" where
  "credited cs d \<longleftrightarrow> type_at cs d = Sched \<and> parent_at cs d \<noteq> NIL \<and> parent_at cs d \<noteq> d
     \<and> type_at cs (parent_at cs d) = Sched"

definition credit :: "cspace \<Rightarrow> cptr \<Rightarrow> raw_cap" where
  "credit cs d = (let p = cap_at cs (parent_at cs d) in
     p\<lparr>csize := saturating_add (csize p) (csize (cap_at cs d))\<rparr>)"

lemma destroy_slot_Some:
  assumes "destroy_slot cs d = Some cs'" and "\<not> is_null (cap_at cs d)"
  shows "d < nslots cs"
    and "credited cs d \<Longrightarrow> parent_at cs d < nslots cs"
    and "slots cs' = (if credited cs d
           then (slots cs)[d := EMPTY,
                  parent_at cs d := (slots cs ! parent_at cs d)\<lparr>cap := credit cs d\<rparr>]
           else (slots cs)[d := EMPTY])"
    and "next_obj cs' = next_obj cs"
proof -
  from assms show d: "d < nslots cs"
    by (auto simp: destroy_slot_def split: if_splits)
  from assms show "credited cs d \<Longrightarrow> parent_at cs d < nslots cs"
    by (auto simp: destroy_slot_def credited_def Let_def split: if_splits)
  from assms d show "slots cs' = (if credited cs d
      then (slots cs)[d := EMPTY, parent_at cs d := (slots cs ! parent_at cs d)\<lparr>cap := credit cs d\<rparr>]
      else (slots cs)[d := EMPTY])"
    by (cases "parent_at cs d = d")
      (auto simp: destroy_slot_def credited_def credit_def Let_def split: if_splits)
  from assms show "next_obj cs' = next_obj cs"
    by (auto simp: destroy_slot_def Let_def split: if_splits)
qed

lemma credit_type [simp]: "cap_type (credit cs d) = type_at cs (parent_at cs d)"
  by (simp add: credit_def Let_def)

lemma destroy_slot_live_count:
  assumes "destroy_slot cs d = Some cs'" and "\<not> is_null (cap_at cs d)"
  shows "live_count cs' < live_count cs"
proof -
  let ?f = "\<lambda>e. if is_null (cap e) then 0 else 1 :: nat"
  note D = destroy_slot_Some [OF assms]
  have less: "sum_list (map ?f ((slots cs)[d := EMPTY])) < sum_list (map ?f (slots cs))"
    using sum_list_map_update [OF D(1), of ?f EMPTY] assms(2) by simp
  show ?thesis
  proof (cases "credited cs d")
    case True
    let ?p = "parent_at cs d"
    have p: "?p < length ((slots cs)[d := EMPTY])" "?p \<noteq> d" "\<not> is_null (cap_at cs ?p)"
      using True D(2) by (auto simp: credited_def is_null_def)
    then have "\<not> is_null (credit cs d)"
      by (simp add: is_null_def)
    with p sum_list_map_update [OF p(1), of ?f "(slots cs ! ?p)\<lparr>cap := credit cs d\<rparr>"] less True
    show ?thesis by (simp add: live_count_def D(3))
  next
    case False
    with less show ?thesis by (simp add: live_count_def D(3))
  qed
qed

lemma doomed_leaf_True:
  assumes "doomed_leaf cs c d = Some True"
  shows "d \<noteq> c" and "\<not> is_null (cap_at cs d)" and "is_descendant cs d c = Some True"
    and "\<not> has_children cs d"
  using assms by (auto simp: doomed_leaf_def split: if_splits option.splits)

text \<open>The loop of \<open>revoke\<close> destroys one leaf per pass, so the number of live slots decreases.\<close>

function revoke_loop :: "cspace \<Rightarrow> cptr \<Rightarrow> cspace option" where
  "revoke_loop cs c =
     (case find_p (doomed_leaf cs c) [0..<nslots cs] of
        None \<Rightarrow> None
      | Some None \<Rightarrow> Some cs
      | Some (Some d) \<Rightarrow>
          (case destroy_slot cs d of
             None \<Rightarrow> None
           | Some cs' \<Rightarrow> revoke_loop cs' c))"
  by pat_completeness auto
termination
proof (relation "measure (\<lambda>(cs, c). live_count cs)")
  fix cs c x2 d cs'
  assume "find_p (doomed_leaf cs c) [0..<nslots cs] = Some x2" "x2 = Some d"
    and "destroy_slot cs d = Some cs'"
  then show "((cs', c), (cs, c)) \<in> measure (\<lambda>(cs, c). live_count cs)"
    using find_p_Some [of "doomed_leaf cs c"] doomed_leaf_True(2) destroy_slot_live_count
    by fastforce
qed simp

declare revoke_loop.simps [simp del]

definition revoke :: "cspace \<Rightarrow> cptr \<Rightarrow> (cap_error, unit) outcome \<times> cspace" where
  "revoke cs c =
     (case live cs c of
        Inl e \<Rightarrow> (Err e, cs)
      | Inr _ \<Rightarrow>
          (case revoke_loop cs c of
             None \<Rightarrow> (Panic, cs)
           | Some cs1 \<Rightarrow>
               (Ok (), if type_at cs1 c = Untyped
                       then set_cap cs1 c ((cap_at cs1 c)\<lparr>watermark := 0\<rparr>) else cs1)))"

definition delete :: "cspace \<Rightarrow> cptr \<Rightarrow> (cap_error, unit) outcome \<times> cspace" where
  "delete cs c =
     (case revoke cs c of
        (Ok _, cs1) \<Rightarrow>
          (case destroy_slot cs1 c of None \<Rightarrow> (Panic, cs1) | Some cs2 \<Rightarrow> (Ok (), cs2))
      | (Err e, cs1) \<Rightarrow> (Err e, cs1)
      | (Panic, cs1) \<Rightarrow> (Panic, cs1))"

section \<open>Grant between two capability spaces\<close>

datatype grant_mode = Move | Mint

definition grant ::
  "cspace \<Rightarrow> cptr \<Rightarrow> cspace \<Rightarrow> cptr \<Rightarrow> rights \<Rightarrow> u64 \<Rightarrow> grant_mode
     \<Rightarrow> (cap_error + unit) \<times> cspace \<times> cspace" where
  "grant src src_slot dst dst_slot new_rights bdg mode =
     (case live src src_slot of
        Inl e \<Rightarrow> (Inl e, src, dst)
      | Inr s \<Rightarrow>
          if cap_type s = Reply \<or> cap_type s = SharedRo then (Inl InsufficientRights, src, dst)
          else if mode = Mint \<and> (cap_type s = Untyped \<or> cap_type s = Sched \<or> cap_type s = Domain)
          then (Inl InsufficientRights, src, dst)
          else if \<not> contains (rights s) GRANT then (Inl InsufficientRights, src, dst)
          else if \<not> subset_of new_rights (rights s) then (Inl InsufficientRights, src, dst)
          else if mode = Move \<and> has_children src src_slot then (Inl InsufficientRights, src, dst)
          else (case place dst dst_slot (s\<lparr>rights := new_rights, badge := bdg\<rparr>) NIL of
                  Inl e \<Rightarrow> (Inl e, src, dst)
                | Inr dst' \<Rightarrow>
                    (Inr (), (if mode = Move then set_slot src src_slot EMPTY else src), dst')))"

end
