(* ===== verification/CSpace_Inv.thy ===== *)
theory CSpace_Inv
  imports CSpace
begin

text \<open>
  The invariant of a capability space, and the four slot-level changes every operation is made
  of: filling an empty slot, clearing a slot without children, changing the type-specific state of
  a capability, and moving a slot.  Each is shown to preserve the invariant once; the operations
  of \<^verbatim>\<open>CSpace\<close> then follow from these lemmas.

  The invariant \<open>wf_cspace\<close> says: an empty slot is exactly \<open>EMPTY\<close>; a parent link is \<open>NIL\<close> or names a live
  slot; the links are acyclic; along each link the child is a legitimate derivation of the parent
  (\<open>derives\<close>: same object and no wider rights, or a retyped object inside the used part of the
  untyped region, or a sub-allotment of a \<open>Sched\<close>); an \<open>Untyped\<close> has not used more frames than
  it has; and two objects retyped from one \<open>Untyped\<close> are the same object or do not overlap.
\<close>

section \<open>The invariant\<close>

definition derives :: "raw_cap \<Rightarrow> raw_cap \<Rightarrow> bool" where
  "derives p c \<longleftrightarrow>
     (if cap_type p = Untyped then
        is_retypeable (cap_type c) \<and> subset_of (rights c) (default_rights (cap_type c))
        \<and> unat (objref p) \<le> unat (objref c)
        \<and> unat (objref c) + unat (csize c) \<le> unat (objref p) + unat (watermark p)
      else if cap_type p = Sched then cap_type c = Sched \<and> subset_of (rights c) (rights p)
      else \<not> non_duplicable (cap_type p) \<and> cap_type c = cap_type p \<and> objref c = objref p
        \<and> csize c = csize p \<and> subset_of (rights c) (rights p))"

definition node_ok :: "raw_cap \<Rightarrow> bool" where
  "node_ok c \<longleftrightarrow> (cap_type c = Untyped \<longrightarrow>
     watermark c \<le> csize c \<and> unat (objref c) + unat (csize c) \<le> 2 ^ 64)"

definition same_object :: "raw_cap \<Rightarrow> raw_cap \<Rightarrow> bool" where
  "same_object c d \<longleftrightarrow> cap_type c = cap_type d \<and> objref c = objref d \<and> csize c = csize d"

definition disjoint_frames :: "raw_cap \<Rightarrow> raw_cap \<Rightarrow> bool" where
  "disjoint_frames c d \<longleftrightarrow> unat (objref c) + unat (csize c) \<le> unat (objref d)
     \<or> unat (objref d) + unat (csize d) \<le> unat (objref c)"

definition slot_ok :: "cte list \<Rightarrow> nat \<Rightarrow> bool" where
  "slot_ok ss k \<longleftrightarrow>
     (is_null (cap (ss ! k)) \<longrightarrow> ss ! k = EMPTY) \<and> node_ok (cap (ss ! k))
     \<and> (parent (ss ! k) \<noteq> NIL \<longrightarrow>
          parent (ss ! k) < length ss \<and> \<not> is_null (cap (ss ! parent (ss ! k)))
          \<and> derives (cap (ss ! parent (ss ! k))) (cap (ss ! k)))"

definition ranked :: "cte list \<Rightarrow> bool" where
  "ranked ss \<longleftrightarrow> (\<exists>rank :: nat \<Rightarrow> nat. \<forall>k<length ss.
     parent (ss ! k) \<noteq> NIL \<longrightarrow> rank (parent (ss ! k)) < rank k)"

definition siblings_ok :: "cte list \<Rightarrow> bool" where
  "siblings_ok ss \<longleftrightarrow> (\<forall>j<length ss. \<forall>k<length ss.
     parent (ss ! j) = parent (ss ! k) \<and> parent (ss ! k) \<noteq> NIL
       \<and> cap_type (cap (ss ! parent (ss ! k))) = Untyped
     \<longrightarrow> same_object (cap (ss ! j)) (cap (ss ! k)) \<or> disjoint_frames (cap (ss ! j)) (cap (ss ! k)))"

definition wf_slots :: "cte list \<Rightarrow> bool" where
  "wf_slots ss \<longleftrightarrow> length ss \<le> usize_max \<and> (\<forall>k<length ss. slot_ok ss k)
     \<and> ranked ss \<and> siblings_ok ss"

definition wf_cspace :: "cspace \<Rightarrow> bool" where
  "wf_cspace cs \<longleftrightarrow> wf_slots (slots cs)"

lemma same_object_sym: "same_object c d \<longleftrightarrow> same_object d c"
  by (auto simp: same_object_def)

lemma disjoint_frames_sym: "disjoint_frames c d \<longleftrightarrow> disjoint_frames d c"
  by (auto simp: disjoint_frames_def)

lemma node_ok_NULL [simp]: "node_ok NULL"
  by (simp add: node_ok_def)

lemma slot_okD:
  assumes "wf_slots ss" and "k < length ss"
  shows "is_null (cap (ss ! k)) \<Longrightarrow> ss ! k = EMPTY" and "node_ok (cap (ss ! k))"
    and "parent (ss ! k) \<noteq> NIL \<Longrightarrow> parent (ss ! k) < length ss"
    and "parent (ss ! k) \<noteq> NIL \<Longrightarrow> \<not> is_null (cap (ss ! parent (ss ! k)))"
    and "parent (ss ! k) \<noteq> NIL \<Longrightarrow> derives (cap (ss ! parent (ss ! k))) (cap (ss ! k))"
  using assms by (auto simp: wf_slots_def slot_ok_def)

lemma wf_slots_NIL: "wf_slots ss \<Longrightarrow> k < length ss \<Longrightarrow> k \<noteq> NIL"
  by (simp add: wf_slots_def NIL_def)

lemma wf_rank:
  assumes "wf_slots ss"
  obtains rank :: "nat \<Rightarrow> nat" where
    "\<And>k. k < length ss \<Longrightarrow> parent (ss ! k) \<noteq> NIL \<Longrightarrow> rank (parent (ss ! k)) < rank k"
  using assms unfolding wf_slots_def ranked_def by blast

lemma wf_siblings:
  assumes "wf_slots ss" "j < length ss" "k < length ss" "parent (ss ! j) = parent (ss ! k)"
    and "parent (ss ! k) \<noteq> NIL" "cap_type (cap (ss ! parent (ss ! k))) = Untyped"
  shows "same_object (cap (ss ! j)) (cap (ss ! k)) \<or> disjoint_frames (cap (ss ! j)) (cap (ss ! k))"
  using assms unfolding wf_slots_def siblings_ok_def by blast

lemma siblings_okI:
  assumes "\<And>j k. j < length ss \<Longrightarrow> k < length ss \<Longrightarrow> parent (ss ! j) = parent (ss ! k) \<Longrightarrow>
      parent (ss ! k) \<noteq> NIL \<Longrightarrow> cap_type (cap (ss ! parent (ss ! k))) = Untyped \<Longrightarrow>
      same_object (cap (ss ! j)) (cap (ss ! k)) \<or> disjoint_frames (cap (ss ! j)) (cap (ss ! k))"
  shows "siblings_ok ss"
  using assms unfolding siblings_ok_def by blast

lemma wf_parent_not_self:
  assumes "wf_slots ss" "k < length ss" "parent (ss ! k) \<noteq> NIL"
  shows "parent (ss ! k) \<noteq> k"
  using assms by (metis nat_neq_iff wf_rank)

lemma parent_live:
  assumes "wf_slots ss" "k < length ss" "parent (ss ! k) = d" "d < length ss"
  shows "\<not> is_null (cap (ss ! d))"
  using slot_okD(4) [OF assms(1,2)] wf_slots_NIL [OF assms(1,4)] assms(3) by auto

lemma derives_type:
  "derives p c \<Longrightarrow> cap_type p \<noteq> Null \<Longrightarrow> cap_type c \<noteq> Null \<and> cap_type c \<noteq> Untyped \<and>
     (cap_type c = Sched \<longleftrightarrow> cap_type p = Sched) \<and>
     (cap_type c \<noteq> Sched \<longrightarrow> cap_type p \<noteq> Reply \<and> cap_type p \<noteq> Domain \<and> cap_type p \<noteq> SharedRo)"
  by (cases "cap_type c"; cases "cap_type p") (auto simp: derives_def)

section \<open>Filling an empty slot\<close>

lemma wf_fill:
  assumes wf: "wf_slots ss" and d: "d < length ss" "is_null (cap (ss ! d))"
    and c: "\<not> is_null c" "node_ok c"
    and p: "p \<noteq> NIL \<Longrightarrow> p < length ss \<and> \<not> is_null (cap (ss ! p)) \<and> derives (cap (ss ! p)) c"
    and sib: "\<And>j. p \<noteq> NIL \<Longrightarrow> cap_type (cap (ss ! p)) = Untyped \<Longrightarrow> j < length ss \<Longrightarrow>
        parent (ss ! j) = p \<Longrightarrow> same_object (cap (ss ! j)) c \<or> disjoint_frames (cap (ss ! j)) c"
  shows "wf_slots (ss[d := \<lparr>cap = c, parent = p\<rparr>])" (is "wf_slots ?ss")
proof -
  have nochild: "parent (ss ! k) \<noteq> d" if "k < length ss" for k
    using parent_live [OF wf that] d by blast
  have upd: "?ss ! parent (ss ! k) = ss ! parent (ss ! k)" if "k < length ss" for k
    using nochild [OF that] by simp
  have pd: "p \<noteq> d" if "p \<noteq> NIL" using p [OF that] d by blast
  obtain rank :: "nat \<Rightarrow> nat" where r:
    "\<And>k. k < length ss \<Longrightarrow> parent (ss ! k) \<noteq> NIL \<Longrightarrow> rank (parent (ss ! k)) < rank k"
    using wf_rank [OF wf] by blast
  have "ranked ?ss"
    unfolding ranked_def
    by (rule exI [of _ "rank(d := Suc (rank p))"]) (auto simp: nth_list_update r nochild pd)
  moreover have "\<forall>k<length ?ss. slot_ok ?ss k"
  proof (intro allI impI)
    fix k assume "k < length ?ss"
    then show "slot_ok ?ss k"
      using d c p pd nochild slot_okD [OF wf, of k]
      by (cases "k = d") (auto simp: slot_ok_def nth_list_update)
  qed
  moreover have "siblings_ok ?ss"
  proof (rule siblings_okI)
    fix j k
    assume jk: "j < length ?ss" "k < length ?ss" "parent (?ss ! j) = parent (?ss ! k)"
      "parent (?ss ! k) \<noteq> NIL" "cap_type (cap (?ss ! parent (?ss ! k))) = Untyped"
    show "same_object (cap (?ss ! j)) (cap (?ss ! k)) \<or> disjoint_frames (cap (?ss ! j)) (cap (?ss ! k))"
    proof (cases "j = d"; cases "k = d")
      assume "j \<noteq> d" "k \<noteq> d"
      then show ?thesis
        using jk upd wf_siblings [OF wf, of j k] by simp
    next
      assume e: "j = d" "k \<noteq> d"
      then have pk: "parent (ss ! k) = p" "p \<noteq> NIL"
        using jk(1-4) d by simp_all
      then have "same_object (cap (ss ! k)) c \<or> disjoint_frames (cap (ss ! k)) c"
        using jk(2,5) e(2) pd [OF pk(2)] by (intro sib) simp_all
      then show ?thesis
        using e d by (auto simp: same_object_def disjoint_frames_def)
    next
      assume e: "j \<noteq> d" "k = d"
      then have pj: "parent (ss ! j) = p" "p \<noteq> NIL"
        using jk(1-4) d by simp_all
      then have "same_object (cap (ss ! j)) c \<or> disjoint_frames (cap (ss ! j)) c"
        using jk(1,5) e d pd [OF pj(2)] by (intro sib) simp_all
      then show ?thesis
        using e d by simp
    qed (simp add: same_object_def)
  qed
  ultimately show ?thesis
    using wf by (simp add: wf_slots_def)
qed

section \<open>Clearing a slot without children\<close>

lemma wf_clear:
  assumes wf: "wf_slots ss" and nochild: "\<And>k. k < length ss \<Longrightarrow> parent (ss ! k) \<noteq> d"
  shows "wf_slots (ss[d := EMPTY])" (is "wf_slots ?ss")
proof -
  obtain rank :: "nat \<Rightarrow> nat" where r:
    "\<And>k. k < length ss \<Longrightarrow> parent (ss ! k) \<noteq> NIL \<Longrightarrow> rank (parent (ss ! k)) < rank k"
    using wf_rank [OF wf] by blast
  have upd: "?ss ! parent (ss ! k) = ss ! parent (ss ! k)" if "k < length ss" for k
    using nochild [OF that] by simp
  have "rank (parent (?ss ! k)) < rank k" if "k < length ss" "parent (?ss ! k) \<noteq> NIL" for k
    using that r by (cases "k = d") auto
  then have "ranked ?ss"
    unfolding ranked_def by (auto intro!: exI [of _ rank])
  moreover have "\<forall>k<length ?ss. slot_ok ?ss k"
  proof (intro allI impI)
    fix k assume "k < length ?ss"
    then show "slot_ok ?ss k"
      using slot_okD [OF wf, of k] by (cases "k = d") (auto simp: slot_ok_def upd)
  qed
  moreover have "siblings_ok ?ss"
  proof (rule siblings_okI)
    fix j k
    assume jk: "j < length ?ss" "k < length ?ss" "parent (?ss ! j) = parent (?ss ! k)"
      "parent (?ss ! k) \<noteq> NIL" "cap_type (cap (?ss ! parent (?ss ! k))) = Untyped"
    then have "j \<noteq> d" "k \<noteq> d"
      by auto
    with jk upd wf_siblings [OF wf, of j k] show
      "same_object (cap (?ss ! j)) (cap (?ss ! k)) \<or> disjoint_frames (cap (?ss ! j)) (cap (?ss ! k))"
      by simp
  qed
  ultimately show ?thesis
    using wf by (simp add: wf_slots_def)
qed

section \<open>Changing the allocation state of a capability\<close>

lemma wf_recap:
  assumes wf: "wf_slots ss" and d: "d < length ss" "cap_type (cap (ss ! d)) \<in> {Untyped, Sched}"
    and c: "cap_type c = cap_type (cap (ss ! d))" "node_ok c"
    and up: "parent (ss ! d) \<noteq> NIL \<Longrightarrow> derives (cap (ss ! parent (ss ! d))) c"
    and down: "\<And>j. j < length ss \<Longrightarrow> parent (ss ! j) = d \<Longrightarrow> derives c (cap (ss ! j))"
  shows "wf_slots (ss[d := (ss ! d)\<lparr>cap := c\<rparr>])" (is "wf_slots ?ss")
proof -
  have par: "parent (?ss ! k) = parent (ss ! k)" for k
    using d by (cases "k = d") simp_all
  have cap: "cap (?ss ! k) = (if k = d then c else cap (ss ! k))" for k
    using d by simp
  have ty: "cap_type (cap (?ss ! k)) = cap_type (cap (ss ! k))" for k
    using c by (simp add: cap)
  have no_ut: "parent (ss ! d) = NIL \<or> cap_type (cap (ss ! parent (ss ! d))) \<noteq> Untyped"
    using slot_okD(5) [OF wf d(1)] d(2) by (auto simp: derives_def)
  have self: "parent (ss ! d) \<noteq> d"
    using wf_parent_not_self [OF wf d(1)] wf_slots_NIL [OF wf d(1)] by (cases "parent (ss ! d) = NIL") auto
  have "ranked ?ss"
    using wf by (simp add: wf_slots_def ranked_def par)
  moreover have "slot_ok ?ss k" if k: "k < length ss" for k
  proof (cases "k = d")
    case True
    then show ?thesis
      using slot_okD [OF wf d(1)] d c up self by (auto simp: slot_ok_def is_null_def)
  next
    case False
    then show ?thesis
      using slot_okD [OF wf k] ty [of "parent (ss ! k)"] down [OF k]
      by (cases "parent (ss ! k) = d") (auto simp: slot_ok_def is_null_def c)
  qed
  moreover have "siblings_ok ?ss"
  proof (rule siblings_okI)
    fix j k
    assume jk: "j < length ?ss" "k < length ?ss" "parent (?ss ! j) = parent (?ss ! k)"
      "parent (?ss ! k) \<noteq> NIL" "cap_type (cap (?ss ! parent (?ss ! k))) = Untyped"
    then have "j \<noteq> d" "k \<noteq> d"
      using no_ut unfolding par ty by auto
    with jk wf_siblings [OF wf, of j k] show
      "same_object (cap (?ss ! j)) (cap (?ss ! k)) \<or> disjoint_frames (cap (?ss ! j)) (cap (?ss ! k))"
      unfolding par ty by (simp add: cap)
  qed
  ultimately show ?thesis
    using wf by (simp add: wf_slots_def)
qed

lemma wf_recap_sched:
  assumes wf: "wf_slots ss" and d: "d < length ss" "cap_type (cap (ss ! d)) = Sched"
    and c: "cap_type c = Sched" "rights c = rights (cap (ss ! d))"
  shows "wf_slots (ss[d := (ss ! d)\<lparr>cap := c\<rparr>])"
proof (rule wf_recap [OF wf d(1)])
  show "derives (cap (ss ! parent (ss ! d))) c" if "parent (ss ! d) \<noteq> NIL"
    using derives_type [OF slot_okD(5) [OF wf d(1) that]] slot_okD(4,5) [OF wf d(1) that] d c
    by (simp add: derives_def is_null_def)
  show "derives c (cap (ss ! j))" if "j < length ss" "parent (ss ! j) = d" for j
    using slot_okD(5) [OF wf that(1)] that(2) wf_slots_NIL [OF wf d(1)] d c by (auto simp: derives_def)
qed (use d c in \<open>auto simp: node_ok_def\<close>)

lemma wf_recap_untyped:
  assumes wf: "wf_slots ss" and d: "d < length ss" "cap_type (cap (ss ! d)) = Untyped"
    and w: "w \<le> csize (cap (ss ! d))"
    and kids: "\<And>j. j < length ss \<Longrightarrow> parent (ss ! j) = d \<Longrightarrow>
      unat (objref (cap (ss ! j))) + unat (csize (cap (ss ! j))) \<le> unat (objref (cap (ss ! d))) + unat w"
  shows "wf_slots (ss[d := (ss ! d)\<lparr>cap := (cap (ss ! d))\<lparr>watermark := w\<rparr>\<rparr>])"
proof (rule wf_recap [OF wf d(1)])
  show "derives (cap (ss ! parent (ss ! d))) ((cap (ss ! d))\<lparr>watermark := w\<rparr>)"
    if "parent (ss ! d) \<noteq> NIL"
    using derives_type [OF slot_okD(5) [OF wf d(1) that]] slot_okD(4) [OF wf d(1) that] d
    by (simp add: is_null_def)
  show "derives ((cap (ss ! d))\<lparr>watermark := w\<rparr>) (cap (ss ! j))"
    if "j < length ss" "parent (ss ! j) = d" for j
    using slot_okD(5) [OF wf that(1)] that kids [OF that] wf_slots_NIL [OF wf d(1)] d
    by (auto simp: derives_def)
qed (use d w slot_okD(2) [OF wf d(1)] in \<open>auto simp: node_ok_def\<close>)

section \<open>Moving a slot\<close>

lemma wf_move:
  assumes wf: "wf_slots ss" and s: "s < length ss" "\<not> is_null (cap (ss ! s))"
    and d: "d < length ss" "is_null (cap (ss ! d))"
  shows "wf_slots ((map (reparent s d) ss)[d := ss ! s, s := EMPTY])" (is "wf_slots ?ss")
proof -
  define f where "f k = (if k = d then s else k)" for k
  define g where "g p = (if p = s then d else p)" for p
  have sd: "s \<noteq> d" using s d by auto
  have len: "length ?ss = length ss" by simp
  have fl: "f k < length ss" if "k < length ss" for k using that s by (simp add: f_def)
  have ps: "parent (ss ! s) \<noteq> s"
    using wf_parent_not_self [OF wf s(1)] wf_slots_NIL [OF wf s(1)] by (cases "parent (ss ! s) = NIL") auto
  have src: "?ss ! s = EMPTY" using s by simp
  have cap: "cap (?ss ! k) = cap (ss ! f k)" if "k < length ss" "k \<noteq> s" for k
    using that d sd by (simp add: f_def reparent_def nth_list_update)
  have par: "parent (?ss ! k) = g (parent (ss ! f k))" if "k < length ss" "k \<noteq> s" for k
    using that d sd ps by (simp add: f_def g_def reparent_def nth_list_update)
  have gN: "g p = NIL \<longleftrightarrow> p = NIL" for p
    using wf_slots_NIL [OF wf d(1)] wf_slots_NIL [OF wf s(1)] by (simp add: g_def)
  have dead: "parent (ss ! k) \<noteq> d" if "k < length ss" for k
    using parent_live [OF wf that] d by blast
  have fg: "g p < length ss \<and> g p \<noteq> s \<and> f (g p) = p" if "k < length ss" "parent (ss ! k) = p" "p \<noteq> NIL" for k p
    using dead [OF that(1)] that slot_okD(3) [OF wf that(1)] d sd by (auto simp: f_def g_def)
  have gc: "cap (?ss ! g p) = cap (ss ! p)" if "k < length ss" "parent (ss ! k) = p" "p \<noteq> NIL" for k p
    using cap [of "g p"] fg [OF that] by simp
  obtain rank :: "nat \<Rightarrow> nat" where r:
    "\<And>k. k < length ss \<Longrightarrow> parent (ss ! k) \<noteq> NIL \<Longrightarrow> rank (parent (ss ! k)) < rank k"
    using wf_rank [OF wf] by blast
  have "rank (f (parent (?ss ! k))) < rank (f k)" if "k < length ss" "parent (?ss ! k) \<noteq> NIL" for k
    using that src par [of k] fg [OF fl refl, of k] r [OF fl, of k] gN by (cases "k = s") auto
  then have "ranked ?ss"
    unfolding ranked_def len by (intro exI [of _ "rank \<circ> f"]) simp
  moreover have "slot_ok ?ss k" if k: "k < length ss" for k
  proof (cases "k = s")
    case True
    then show ?thesis by (simp add: slot_ok_def src)
  next
    case False
    have e: "?ss ! k = EMPTY" if "is_null (cap (ss ! f k))"
      using that False k s d slot_okD(1) [OF wf k] wf_slots_NIL [OF wf s(1)]
      by (auto simp: f_def reparent_def nth_list_update)
    show ?thesis
      unfolding slot_ok_def cap [OF k False] par [OF k False] len gN
    proof (intro conjI impI)
      assume p: "parent (ss ! f k) \<noteq> NIL"
      note D = slot_okD [OF wf fl [OF k]] and G = gc [OF fl [OF k] refl p]
      show "g (parent (ss ! f k)) < length ss" using fg [OF fl [OF k] refl p] by simp
      show "\<not> is_null (cap (?ss ! g (parent (ss ! f k))))" unfolding G using D(4) p by simp
      show "derives (cap (?ss ! g (parent (ss ! f k)))) (cap (ss ! f k))" unfolding G using D(5) p by simp
    qed (use e slot_okD(2) [OF wf fl [OF k]] in simp_all)
  qed
  moreover have "siblings_ok ?ss"
  proof (rule siblings_okI)
    fix j k
    assume jk: "j < length ?ss" "k < length ?ss" "parent (?ss ! j) = parent (?ss ! k)"
      "parent (?ss ! k) \<noteq> NIL" "cap_type (cap (?ss ! parent (?ss ! k))) = Untyped"
    then have n: "j \<noteq> s" "k \<noteq> s" and l: "j < length ss" "k < length ss"
      by (auto simp: src)
    have N: "parent (ss ! f j) \<noteq> NIL" "parent (ss ! f k) \<noteq> NIL"
      using jk(3,4) gN unfolding par [OF l(1) n(1)] par [OF l(2) n(2)] by metis+
    then have "parent (ss ! f j) = parent (ss ! f k)"
      using jk(3) fg [OF fl [OF l(1)] refl] fg [OF fl [OF l(2)] refl] by (metis par l n)
    then show "same_object (cap (?ss ! j)) (cap (?ss ! k)) \<or> disjoint_frames (cap (?ss ! j)) (cap (?ss ! k))"
      using wf_siblings [OF wf fl [OF l(1)] fl [OF l(2)]] N jk(5) gc [OF fl [OF l(2)] refl]
      by (simp add: cap par l n)
  qed
  ultimately show ?thesis
    using wf by (simp add: wf_slots_def)
qed

end
