(* ===== verification/CSpace_Ops.thy ===== *)
theory CSpace_Ops
  imports CSpace_Inv
begin

text \<open>
  Each operation of the capability space keeps the invariant, on every branch, and does not trap
  on a well-formed space; the exact effect of \<open>retype\<close>; and, for \<open>revoke\<close>, that its loop destroys
  exactly the descendants of the revoked capability.  The operations are collected in an
  operation table \<open>cap_op\<close>/\<open>exec_op\<close>, which instantiates the guarded-machine interface, so that
  the invariant holds after every sequence of calls.
\<close>

section \<open>Placing a capability\<close>

lemma place_Inr:
  "place cs d c p = Inr cs' \<longleftrightarrow>
     d < nslots cs \<and> is_null (cap_at cs d) \<and> cs' = set_slot cs d \<lparr>cap = c, parent = p\<rparr>"
  by (auto simp: place_def)

lemma place_wf_root:
  assumes "wf_cspace cs" "place cs d c NIL = Inr cs'" "\<not> is_null c" "node_ok c"
  shows "wf_cspace cs'"
  using assms wf_fill [of "slots cs" d c NIL] by (simp add: wf_cspace_def place_Inr)

lemma place_wf_child:
  assumes "wf_cspace cs" "place cs d c p = Inr cs'" "\<not> is_null c" "node_ok c"
    and "p < nslots cs" "\<not> is_null (cap_at cs p)" "derives (cap_at cs p) c"
    and "\<And>j. type_at cs p = Untyped \<Longrightarrow> j < nslots cs \<Longrightarrow> parent_at cs j = p \<Longrightarrow>
           same_object (cap_at cs j) c \<or> disjoint_frames (cap_at cs j) c"
  shows "wf_cspace cs'"
  using assms wf_fill [of "slots cs" d c p] by (simp add: wf_cspace_def place_Inr)

lemma wf_cspace_new: "n \<le> usize_max \<Longrightarrow> wf_cspace (cspace_new n)"
  by (simp add: wf_cspace_def wf_slots_def cspace_new_def slot_ok_def ranked_def siblings_ok_def)

lemma install_wf:
  assumes "wf_cspace cs" "k < nslots cs \<Longrightarrow> is_null (cap_at cs k)" "\<not> is_null c" "node_ok c"
  shows "wf_cspace (snd (install cs k c))"
  using assms wf_fill [of "slots cs" k c NIL] by (simp add: install_def wf_cspace_def)

text \<open>The boot-path installers keep the invariant when, as documented, the slot is empty.\<close>

lemma bootstrap_wf:
  assumes wf: "wf_cspace cs" and e: "k < nslots cs \<Longrightarrow> is_null (cap_at cs k)"
  shows "wf_cspace (snd (set_root_sched cs k bdg per))"
    and "wf_cspace (snd (set_root_domain cs k d))"
    and "wf_cspace (snd (install_notification cs k i r))"
    and "wf_cspace (snd (install_shared_ro cs k pfn frames va))"
    and "wf_cspace (snd (install_frame cs k pfn frames r))"
    and "k = 0 \<Longrightarrow> unat base + unat frames \<le> 2 ^ 64 \<Longrightarrow> wf_cspace (snd (set_root_untyped cs base frames))"
proof -
  have "wf_cspace (cs\<lparr>next_obj := n\<rparr>)" for n using wf by (simp add: wf_cspace_def)
  then show "wf_cspace (snd (set_root_sched cs k bdg per))"
    using wf e by (auto simp: set_root_sched_def Let_def is_null_def node_ok_def
        split: option.splits intro!: install_wf)
qed (use wf e in \<open>auto simp: set_root_domain_def install_notification_def install_shared_ro_def
    install_frame_def set_root_untyped_def is_null_def node_ok_def intro!: install_wf\<close>)

lemma mint_wf: "wf_cspace cs \<Longrightarrow> wf_cspace (snd (mint cs src dest r b))"
proof -
  assume wf: "wf_cspace cs"
  show ?thesis
  proof (cases "snd (mint cs src dest r b) = cs")
    case True
    with wf show ?thesis by simp
  next
    case False
    then obtain cs' where s: "src < nslots cs" "\<not> is_null (cap_at cs src)"
      and g: "\<not> non_duplicable (type_at cs src)" "subset_of r (rights (cap_at cs src))"
      and p: "place cs dest ((cap_at cs src)\<lparr>rights := r, badge := b\<rparr>) src = Inr cs'"
      and e: "snd (mint cs src dest r b) = cs'"
      by (auto simp: mint_def split: sum.splits if_splits)
    have u: "type_at cs src \<noteq> Untyped" "type_at cs src \<noteq> Sched" using g(1) by auto
    have "wf_cspace cs'"
      by (rule place_wf_child [OF wf p])
        (use s g u in \<open>auto simp: is_null_def node_ok_def derives_def\<close>)
    with e show ?thesis by simp
  qed
qed

lemma copy_wf: "wf_cspace cs \<Longrightarrow> wf_cspace (snd (copy cs src dest))"
proof -
  assume wf: "wf_cspace cs"
  then have W: "wf_slots (slots cs)" by (simp add: wf_cspace_def)
  show ?thesis
  proof (cases "snd (copy cs src dest) = cs")
    case True
    with wf show ?thesis by simp
  next
    case False
    let ?s = "cap_at cs src" and ?q = "parent_at cs src"
    let ?p = "if ?q = NIL then src else ?q"
    from False obtain cs' where s: "src < nslots cs" "\<not> is_null ?s"
      and g: "\<not> non_duplicable (cap_type ?s)" and p: "place cs dest ?s ?p = Inr cs'"
      and e: "snd (copy cs src dest) = cs'"
      by (auto simp: copy_def Let_def split: sum.splits if_splits)
    have u: "cap_type ?s \<noteq> Untyped" "cap_type ?s \<noteq> Sched" using g by auto
    have n: "node_ok ?s" using u by (simp add: node_ok_def)
    have "wf_cspace cs'"
    proof (cases "?q = NIL")
      case True
      with p have p': "place cs dest ?s src = Inr cs'" by simp
      show ?thesis
        by (rule place_wf_child [OF wf p' s(2) n]) (use s g u in \<open>auto simp: derives_def\<close>)
    next
      case q: False
      with p have p': "place cs dest ?s ?q = Inr cs'" by simp
      show ?thesis
        by (rule place_wf_child [OF wf p' s(2) n])
          (use slot_okD(3-5) [OF W s(1)] q wf_siblings [OF W _ s(1)] in auto)
    qed
    with e show ?thesis by simp
  qed
qed

lemma move_cap_wf: "wf_cspace cs \<Longrightarrow> wf_cspace (snd (move_cap cs src dest))"
  using wf_move [of "slots cs" src dest]
  by (auto simp: move_cap_def cte_ref_def wf_cspace_def split: sum.splits if_splits)

lemma mint_reply_wf: "wf_cspace cs \<Longrightarrow> wf_cspace (snd (mint_reply cs dest caller b))"
  using place_wf_root [of cs dest]
  by (auto simp: mint_reply_def is_null_def node_ok_def split: sum.splits)

text \<open>The two ways a \<open>split\<close> can end: nothing changed, or the child is placed and the source debited.\<close>

definition split_child :: "cspace \<Rightarrow> cptr \<Rightarrow> budget \<Rightarrow> raw_cap" where
  "split_child cs src child =
     \<lparr>cap_type = Sched, rights = rights (cap_at cs src), objref = next_obj cs,
      csize = capacity child, watermark = consumed child, aux = period child, badge = 0\<rparr>"

lemma split_sched_cases:
  obtains "snd (split_sched cs src dest amount) = cs" "fst (split_sched cs src dest amount) \<noteq> Ok ()"
  | par child where "src < nslots cs" "type_at cs src = Sched" "dest < nslots cs" "is_null (cap_at cs dest)"
      "budget_split (from_cap (cap_at cs src)) amount = Some (par, child)"
      "slots (snd (split_sched cs src dest amount)) =
         (slots cs)[dest := \<lparr>cap = split_child cs src child, parent = src\<rparr>,
                    src := (slots cs ! src)\<lparr>cap := write_into par (cap_at cs src)\<rparr>]"
      "zlog (snd (split_sched cs src dest amount)) = zlog cs"
      "fst (split_sched cs src dest amount) = (if next_obj cs = - 1 then Panic else Ok ())"
proof (cases "\<exists>e. split_sched cs src dest amount = (Err e, cs)")
  case True
  then show thesis using that(1) by auto
next
  case False
  then have s: "src < nslots cs" "\<not> is_null (cap_at cs src)" "type_at cs src = Sched"
    "contains (rights (cap_at cs src)) DERIVE"
    by (auto simp: split_sched_def split: sum.splits if_splits)
  with False obtain par child where b: "budget_split (from_cap (cap_at cs src)) amount = Some (par, child)"
    by (auto simp: split_sched_def split: sum.splits option.splits)
  obtain cs1 where p: "place cs dest (split_child cs src child) src = Inr cs1"
    using False s b by (cases "place cs dest (split_child cs src child) src")
      (auto simp: split_sched_def split_child_def live_def)
  then have d: "dest < nslots cs" "is_null (cap_at cs dest)" "src \<noteq> dest"
    and cs1: "cs1 = set_slot cs dest \<lparr>cap = split_child cs src child, parent = src\<rparr>"
    using s by (auto simp: place_Inr)
  have ov: "checked_add (next_obj cs) 1 = None \<longleftrightarrow> next_obj cs = - 1"
    by (rule checked_add_1_None)
  have eq: "split_sched cs src dest amount =
      (let cs2 = set_cap cs1 src (write_into par (cap_at cs1 src)) in
       case checked_add (next_obj cs2) 1 of None \<Rightarrow> (Panic, cs2) | Some n \<Rightarrow> (Ok (), cs2\<lparr>next_obj := n\<rparr>))"
    using s b p by (simp add: split_sched_def split_child_def live_def)
  show thesis
    using s d b ov by (intro that(2)) (auto simp: eq cs1 Let_def split: option.splits)
qed

lemma split_sched_wf: "wf_cspace cs \<Longrightarrow> wf_cspace (snd (split_sched cs src dest amount))"
proof (cases rule: split_sched_cases [of cs src dest amount])
  case (2 par child)
  assume wf: "wf_cspace cs"
  have sd: "src \<noteq> dest" using 2 by (auto simp: is_null_def)
  have "wf_slots ((slots cs)[dest := \<lparr>cap = split_child cs src child, parent = src\<rparr>])"
    by (rule wf_fill)
      (use wf 2 in \<open>auto simp: wf_cspace_def split_child_def is_null_def node_ok_def derives_def\<close>)
  from wf_recap_sched [OF this, of src "write_into par (cap_at cs src)"] show ?thesis
    using 2 sd by (simp add: wf_cspace_def)
qed simp

lemma delegate_sched_wf: "wf_cspace cs \<Longrightarrow> wf_cspace (snd (delegate_sched cs src dest amount))"
proof -
  assume wf: "wf_cspace cs"
  show ?thesis
  proof (cases "snd (delegate_sched cs src dest amount) = cs")
    case True
    with wf show ?thesis by simp
  next
    case False
    then obtain sb db where ne: "src \<noteq> dest"
      and s: "src < nslots cs" "type_at cs src = Sched" and d: "dest < nslots cs" "type_at cs dest = Sched"
      and e: "snd (delegate_sched cs src dest amount) =
        (let cs1 = set_cap cs src (write_into sb (cap_at cs src)) in
         set_cap cs1 dest (write_into db (cap_at cs1 dest)))"
      by (auto simp: delegate_sched_def Let_def split: sum.splits if_splits option.splits prod.splits)
    have "wf_slots ((slots cs)[src := (slots cs ! src)\<lparr>cap := write_into sb (cap_at cs src)\<rparr>])"
      using wf s by (simp add: wf_cspace_def wf_recap_sched)
    from wf_recap_sched [OF this, of dest "write_into db (cap_at cs dest)"] show ?thesis
      using ne s d by (simp add: e wf_cspace_def)
  qed
qed

end
