(* ===== verification/CSpace_Retype.thy ===== *)
theory CSpace_Retype
  imports CSpace_Ops
begin

text \<open>
  The exact effect of \<open>retype\<close>: its committing loop never traps once the checks passed, fills
  consecutive slots with objects that tile a fresh part of the untyped region, zeroes each before
  its capability exists, and keeps the invariant.
\<close>

definition retype_cte :: "cptr \<Rightarrow> cap_type \<Rightarrow> u32 \<Rightarrow> u64 \<Rightarrow> nat \<Rightarrow> cte" where
  "retype_cte ut t fpo base i =
     \<lparr>cap = \<lparr>cap_type = t, rights = default_rights t, objref = base + of_nat (i * unat fpo),
             csize = fpo, watermark = 0, aux = 0, badge = 0\<rparr>,
      parent = ut\<rparr>"

lemma unat_base_add:
  "unat base + n < 2 ^ 64 \<Longrightarrow> unat (base + of_nat n) = unat base + n" for base :: u64
  by (simp add: unat_word_ariths unat_of_nat)

lemma ucast_of_nat_u32: "n < 2 ^ 32 \<Longrightarrow> (ucast (of_nat n :: u32) :: u64) = of_nat n"
  by (simp add: unsigned_of_nat take_bit_nat_eq_self)

lemma retype_fill_step:
  assumes "i < 2 ^ 32" "i * unat fpo < 2 ^ 32" "unat base + i * unat fpo < 2 ^ 64" "dest + i < nslots cs"
  shows "retype_fill ut t fpo base dest (i # is) cs =
    retype_fill ut t fpo base dest is
      (set_slot (cs\<lparr>zlog := zlog cs @ [(base + of_nat (i * unat fpo), fpo)]\<rparr>) (dest + i)
        (retype_cte ut t fpo base i))"
proof -
  have i: "unat (of_nat i :: u32) = i"
    using assms(1) by (simp add: unat_of_nat)
  then have m: "checked_mul (of_nat i) fpo = Some (of_nat (i * unat fpo))"
    using assms(2) by (simp add: checked_mul_def)
  have u: "(ucast (of_nat (i * unat fpo) :: u32) :: u64) = of_nat (i * unat fpo)"
    by (rule ucast_of_nat_u32 [OF assms(2)])
  have "checked_add base (of_nat (i * unat fpo)) = Some (base + of_nat (i * unat fpo))"
    unfolding checked_add_Some using assms(3) unat_base_add [OF assms(3)] unat_base_add [of 0 "i * unat fpo"]
    by (simp del: of_nat_mult)
  with m u assms(4) show ?thesis
    by (simp add: retype_cte_def)
qed

lemma retype_fill_eq:
  assumes "\<forall>i\<in>set is. i < 2 ^ 32 \<and> i * unat fpo < 2 ^ 32 \<and> unat base + i * unat fpo < 2 ^ 64
             \<and> dest + i < nslots cs"
  shows "retype_fill ut t fpo base dest is cs =
    Some (cs\<lparr>slots := fold (\<lambda>i ss. ss[dest + i := retype_cte ut t fpo base i]) is (slots cs),
             zlog := zlog cs @ map (\<lambda>i. (base + of_nat (i * unat fpo), fpo)) is\<rparr>)"
  using assms
proof (induction "is" arbitrary: cs)
  case (Cons i "is")
  then show ?case
    by (subst retype_fill_step) simp_all
qed simp

lemma fold_fill_length [simp]:
  "length (fold (\<lambda>i ss. ss[dest + i := f i]) is ss) = length ss"
  by (induction "is" arbitrary: ss) simp_all

lemma fold_fill_nth:
  "k < length ss \<Longrightarrow> fold (\<lambda>i ss. ss[dest + i := f i]) [0..<n] ss ! k =
     (if dest \<le> k \<and> k < dest + n then f (k - dest) else ss ! k)"
proof (induction n)
  case (Suc n)
  then show ?case
    by (cases "k = dest + n") auto
qed auto

lemma wf_fold_fill:
  assumes wf: "wf_slots ss" and ut: "ut < length ss" "cap_type (cap (ss ! ut)) = Untyped"
    and t: "is_retypeable t"
    and base: "unat (objref (cap (ss ! ut))) \<le> unat base"
    and fits: "unat base + n * unat fpo \<le> unat (objref (cap (ss ! ut))) + unat (watermark (cap (ss ! ut)))"
    and kids: "\<And>j. j < length ss \<Longrightarrow> parent (ss ! j) = ut \<Longrightarrow>
      unat (objref (cap (ss ! j))) + unat (csize (cap (ss ! j))) \<le> unat base"
    and free: "\<And>i. i < n \<Longrightarrow> is_null (cap (ss ! (dest + i)))" and dest: "dest + n \<le> length ss"
    and pos: "0 < unat fpo"
    and m: "m \<le> n"
  shows "wf_slots (fold (\<lambda>i ss. ss[dest + i := retype_cte ut t fpo base i]) [0..<m] ss)"
  using m
proof (induction m)
  case 0
  then show ?case using wf by simp
next
  case (Suc m)
  let ?f = "retype_cte ut t fpo base"
  let ?ss = "fold (\<lambda>i ss. ss[dest + i := ?f i]) [0..<m] ss"
  have nth: "?ss ! k = (if dest \<le> k \<and> k < dest + m then ?f (k - dest) else ss ! k)"
    if "k < length ss" for k
    by (rule fold_fill_nth [OF that])
  have un: "\<not> (dest \<le> ut \<and> ut < dest + n)"
  proof
    assume "dest \<le> ut \<and> ut < dest + n"
    then have "ut - dest < n" "dest + (ut - dest) = ut" by arith+
    then show False using free [of "ut - dest"] ut by (auto simp: is_null_def)
  qed
  then have utss: "?ss ! ut = ss ! ut"
    using nth [OF ut(1)] Suc.prems by auto
  have max: "unat (objref (cap (ss ! ut))) + unat (watermark (cap (ss ! ut))) \<le> 2 ^ 64"
    using slot_okD(2) [OF wf ut(1)] ut by (auto simp: node_ok_def word_le_nat_alt)
  have obj: "unat (base + of_nat (i * unat fpo)) = unat base + i * unat fpo"
    and end_le: "unat base + i * unat fpo + unat fpo \<le> unat base + n * unat fpo" if "i < n" for i
  proof -
    have "i * unat fpo + unat fpo \<le> n * unat fpo"
      using mult_le_mono1 [of "Suc i" n "unat fpo"] that by simp
    then show "unat base + i * unat fpo + unat fpo \<le> unat base + n * unat fpo"
      by simp
    then show "unat (base + of_nat (i * unat fpo)) = unat base + i * unat fpo"
      by (intro unat_base_add) (use fits max pos in linarith)
  qed
  have "wf_slots (?ss[dest + m := \<lparr>cap = cap (?f m), parent = ut\<rparr>])"
  proof (rule wf_fill)
    show "wf_slots ?ss" using Suc by simp
    show "dest + m < length ?ss" using dest Suc.prems by simp
    then show "is_null (cap (?ss ! (dest + m)))" using nth [of "dest + m"] free [of m] Suc.prems by simp
    show "\<not> is_null (cap (?f m))" "node_ok (cap (?f m))"
      using t by (auto simp: retype_cte_def is_null_def node_ok_def)
    show "ut < length ?ss \<and> \<not> is_null (cap (?ss ! ut)) \<and> derives (cap (?ss ! ut)) (cap (?f m))"
      using ut t base fits obj [of m] end_le [of m] Suc.prems unfolding utss
      by (auto simp: is_null_def derives_def retype_cte_def)
    show "same_object (cap (?ss ! j)) (cap (?f m)) \<or> disjoint_frames (cap (?ss ! j)) (cap (?f m))"
      if j: "j < length ?ss" "parent (?ss ! j) = ut" for j
    proof -
      have "unat (objref (cap (?ss ! j))) + unat (csize (cap (?ss ! j))) \<le> unat base + m * unat fpo"
      proof (cases "dest \<le> j \<and> j < dest + m")
        case True
        then have "j - dest < n" "Suc (j - dest) \<le> m" using Suc.prems by auto
        moreover have "Suc (j - dest) * unat fpo \<le> m * unat fpo"
          using calculation(2) by (rule mult_le_mono1)
        ultimately show ?thesis
          using True nth [of j] j obj [of "j - dest"] by (simp add: retype_cte_def)
      next
        case False
        then have "?ss ! j = ss ! j" using nth [of j] j(1) by auto
        then show ?thesis using j kids [of j] by simp
      qed
      then show ?thesis
        using obj [of m] Suc.prems by (simp add: disjoint_frames_def retype_cte_def)
    qed
  qed
  then show ?case
    by (simp add: retype_cte_def)
qed

section \<open>The checks and the commit\<close>

text \<open>What \<open>retype\<close> requires, with the arithmetic read in the natural numbers.\<close>

definition retype_ok :: "cspace \<Rightarrow> cptr \<Rightarrow> cap_type \<Rightarrow> u32 \<Rightarrow> u32 \<Rightarrow> cptr \<Rightarrow> bool" where
  "retype_ok cs ut t fpo count dest \<longleftrightarrow>
     ut < nslots cs \<and> type_at cs ut = Untyped \<and> contains (rights (cap_at cs ut)) RETYPE
     \<and> is_retypeable t \<and> 0 < unat fpo \<and> 0 < unat count
     \<and> unat (watermark (cap_at cs ut)) + unat fpo * unat count \<le> unat (csize (cap_at cs ut))
     \<and> dest + unat count \<le> nslots cs
     \<and> (\<forall>i<unat count. is_null (cap_at cs (dest + i)))"

definition retype_base :: "cspace \<Rightarrow> cptr \<Rightarrow> u64" where
  "retype_base cs ut = objref (cap_at cs ut) + ucast (watermark (cap_at cs ut))"

definition retype_done :: "cspace \<Rightarrow> cptr \<Rightarrow> cap_type \<Rightarrow> u32 \<Rightarrow> u32 \<Rightarrow> cptr \<Rightarrow> cspace" where
  "retype_done cs ut t fpo count dest =
     (let base = retype_base cs ut;
          cs1 = set_cap cs ut ((cap_at cs ut)\<lparr>watermark := watermark (cap_at cs ut) + fpo * count\<rparr>) in
      cs1\<lparr>slots := fold (\<lambda>i ss. ss[dest + i := retype_cte ut t fpo base i]) [0..<unat count] (slots cs1),
          zlog := zlog cs @ map (\<lambda>i. (base + of_nat (i * unat fpo), fpo)) [0..<unat count]\<rparr>)"

lemma retype_base_unat:
  assumes "wf_cspace cs" "ut < nslots cs" "type_at cs ut = Untyped"
    "unat (watermark (cap_at cs ut)) < unat (csize (cap_at cs ut))"
  shows "checked_add (objref (cap_at cs ut)) (ucast (watermark (cap_at cs ut))) = Some (retype_base cs ut)"
    and "unat (retype_base cs ut) = unat (objref (cap_at cs ut)) + unat (watermark (cap_at cs ut))"
proof -
  have w: "unat (ucast (watermark (cap_at cs ut)) :: u64) = unat (watermark (cap_at cs ut))"
    by (rule unat_ucast_up) simp
  have le: "unat (objref (cap_at cs ut)) + unat (watermark (cap_at cs ut)) < 2 ^ 64"
    using slot_okD(2) [of "slots cs" ut] assms by (auto simp: wf_cspace_def node_ok_def)
  from le w show "unat (retype_base cs ut) = unat (objref (cap_at cs ut)) + unat (watermark (cap_at cs ut))"
    by (simp add: retype_base_def unat_word_ariths)
  with w show "checked_add (objref (cap_at cs ut)) (ucast (watermark (cap_at cs ut))) = Some (retype_base cs ut)"
    unfolding checked_add_Some by (simp add: retype_base_def)
qed

lemma mult_nat_bound: "i < c \<Longrightarrow> i * f + f \<le> f * c" for i c f :: nat
  using mult_le_mono1 [of "Suc i" c f] by (simp add: mult.commute)

lemma retype_Ok:
  assumes wf: "wf_cspace cs" and ok: "retype_ok cs ut t fpo count dest"
  shows "retype cs ut t fpo count dest = (Ok (), retype_done cs ut t fpo count dest)"
proof -
  let ?u = "cap_at cs ut"
  note O = ok [unfolded retype_ok_def]
  have need: "unat (fpo * count) = unat fpo * unat count"
    and mul: "checked_mul fpo count = Some (fpo * count)"
    using O unat_bound [of "csize ?u"] by (auto simp: checked_mul_def unat_word_ariths simp del: unsigned_less)
  have ne: "fpo \<noteq> 0" "count \<noteq> 0" using O by auto
  have "0 < unat fpo * unat count" using O by simp
  then have pos: "unat (watermark ?u) < unat (csize ?u)" using O by linarith
  have sub: "checked_sub (csize ?u) (watermark ?u) = Some (csize ?u - watermark ?u)"
    and le: "\<not> csize ?u - watermark ?u < fpo * count"
    using O need by (auto simp: checked_sub_def word_le_nat_alt word_less_nat_alt unat_sub)
  have wm: "checked_add (watermark ?u) (fpo * count) = Some (watermark ?u + fpo * count)"
    using O need unat_bound [of "csize ?u"] by (auto simp: checked_add_def simp del: unsigned_less)
  have base: "checked_add (objref ?u) (ucast (watermark ?u)) = Some (retype_base cs ut)"
    and ub: "unat (retype_base cs ut) = unat (objref ?u) + unat (watermark ?u)"
    using O pos by (auto intro!: retype_base_unat [OF wf])
  have len: "nslots cs \<le> usize_max" using wf by (simp add: wf_cspace_def wf_slots_def)
  have dst: "checked_add_usize dest (unat count) = Some (dest + unat count)"
    using O len by (simp add: checked_add_usize_def)
  have free: "\<not> list_ex (\<lambda>i. \<not> is_null (cap_at cs (dest + i))) [0..<unat count]"
    using O by (simp add: list_ex_iff)
  have max: "unat (objref ?u) + unat (csize ?u) \<le> 2 ^ 64"
    using slot_okD(2) [of "slots cs" ut] wf O by (auto simp: wf_cspace_def node_ok_def)
  let ?cs1 = "set_cap cs ut (?u\<lparr>watermark := watermark ?u + fpo * count\<rparr>)"
  have "retype_fill ut t fpo (retype_base cs ut) dest [0..<unat count] ?cs1 =
      Some (retype_done cs ut t fpo count dest)"
  proof (subst retype_fill_eq, intro ballI)
    fix i assume "i \<in> set [0..<unat count]"
    then have i: "i < unat count" by simp
    have "i * unat fpo + unat fpo \<le> unat fpo * unat count" by (rule mult_nat_bound [OF i])
    moreover have "unat fpo * unat count \<le> unat (csize ?u)" using O by simp
    ultimately show "i < 2 ^ 32 \<and> i * unat fpo < 2 ^ 32 \<and> unat (retype_base cs ut) + i * unat fpo < 2 ^ 64
        \<and> dest + i < nslots ?cs1"
      using i O ub max unat_bound [of count] unat_bound [of "csize ?u"]
      by (simp del: unsigned_less)
  qed (simp add: retype_done_def Let_def)
  moreover have "live cs ut = Inr ?u" using O by (simp add: is_null_def)
  ultimately show ?thesis
    using O mul ne sub le wm base dst free by (simp add: retype_def live_def)
qed

lemma retype_Err:
  assumes wf: "wf_cspace cs" and ok: "\<not> retype_ok cs ut t fpo count dest"
  shows "\<exists>e. retype cs ut t fpo count dest = (Err e, cs)"
proof (rule ccontr)
  assume N: "\<not> ?thesis"
  let ?u = "cap_at cs ut"
  from N have l: "ut < nslots cs" "\<not> is_null ?u"
    by (auto simp: retype_def live_def split: if_splits)
  from N l have g: "cap_type ?u = Untyped" "contains (rights ?u) RETYPE" "is_retypeable t" "fpo \<noteq> 0" "count \<noteq> 0"
    by (auto simp: retype_def live_def split: if_splits)
  from N l g obtain need where need: "checked_mul fpo count = Some need"
    by (cases "checked_mul fpo count") (auto simp: retype_def live_def)
  have wm: "watermark ?u \<le> csize ?u"
    using slot_okD(2) [of "slots cs" ut] wf l g by (auto simp: wf_cspace_def node_ok_def)
  then have sub: "checked_sub (csize ?u) (watermark ?u) = Some (csize ?u - watermark ?u)"
    by (simp add: checked_sub_def)
  from N l g need sub have av: "\<not> csize ?u - watermark ?u < need"
    by (auto simp: retype_def live_def split: if_splits)
  from N l g need sub av obtain "end" where dst: "checked_add_usize dest (unat count) = Some end"
    by (cases "checked_add_usize dest (unat count)") (auto simp: retype_def live_def)
  from N l g need sub av dst have len: "end \<le> nslots cs"
    and free: "\<not> list_ex (\<lambda>i. \<not> is_null (cap_at cs (dest + i))) [0..<unat count]"
    by (auto simp: retype_def live_def not_less split: if_splits)
  have "unat need = unat fpo * unat count" using need unfolding checked_mul_Some by blast
  moreover have "unat need \<le> unat (csize ?u) - unat (watermark ?u)"
    using av wm by (simp add: word_le_nat_alt word_less_nat_alt unat_sub not_less)
  ultimately have "retype_ok cs ut t fpo count dest"
    using l g wm len free dst by (auto simp: retype_ok_def list_ex_iff checked_add_usize_Some word_le_nat_alt
        unat_gt_0)
  with ok show False by simp
qed

lemma retype_done_wf:
  assumes wf: "wf_cspace cs" and ok: "retype_ok cs ut t fpo count dest"
  shows "wf_cspace (retype_done cs ut t fpo count dest)"
proof -
  let ?u = "cap_at cs ut" and ?w = "watermark (cap_at cs ut) + fpo * count"
  let ?ss = "(slots cs)[ut := (slots cs ! ut)\<lparr>cap := ?u\<lparr>watermark := ?w\<rparr>\<rparr>]"
  note O = ok [unfolded retype_ok_def]
  have W: "wf_slots (slots cs)" using wf by (simp add: wf_cspace_def)
  have "0 < unat fpo * unat count" using O by simp
  then have pos: "unat (watermark ?u) < unat (csize ?u)" using O by linarith
  have w: "unat ?w = unat (watermark ?u) + unat fpo * unat count"
    using O unat_bound [of "csize ?u"] by (auto simp: unat_word_ariths simp del: unsigned_less)
  have kid: "unat (objref (cap_at cs j)) + unat (csize (cap_at cs j)) \<le> unat (objref ?u) + unat (watermark ?u)"
    if "j < nslots cs" "parent_at cs j = ut" for j
    using slot_okD(5) [OF W that(1)] that(2) wf_slots_NIL [OF W] O by (auto simp: derives_def)
  have W1: "wf_slots ?ss"
  proof (rule wf_recap_untyped [OF W])
    show "unat (objref (cap_at cs j)) + unat (csize (cap_at cs j)) \<le> unat (objref ?u) + unat ?w"
      if "j < nslots cs" "parent_at cs j = ut" for j
      using kid [OF that] w by simp
  qed (use O w in \<open>auto simp: word_le_nat_alt\<close>)
  have ub: "unat (retype_base cs ut) = unat (objref ?u) + unat (watermark ?u)"
    using O pos by (auto intro!: retype_base_unat [OF wf])
  have par: "parent (?ss ! j) = parent_at cs j" for j
    using O by (cases "j = ut") simp_all
  have cp: "cap (?ss ! j) = (if j = ut then ?u\<lparr>watermark := ?w\<rparr> else cap_at cs j)" for j
    using O by simp
  have "wf_slots (fold (\<lambda>i ss. ss[dest + i := retype_cte ut t fpo (retype_base cs ut) i])
      [0..<unat count] ?ss)"
  proof (rule wf_fold_fill [OF W1, where n = "unat count"])
    show "unat (objref (cap (?ss ! j))) + unat (csize (cap (?ss ! j))) \<le> unat (retype_base cs ut)"
      if "j < length ?ss" "parent (?ss ! j) = ut" for j
      using kid [of j] that ub unfolding par cp by (cases "j = ut") simp_all
    show "unat (retype_base cs ut) + unat count * unat fpo
        \<le> unat (objref (cap (?ss ! ut))) + unat (watermark (cap (?ss ! ut)))"
      unfolding cp using ub w by (simp add: mult.commute)
    show "is_null (cap (?ss ! (dest + i)))" if "i < unat count" for i
      using O that by (auto simp: cp is_null_def)
  qed (use O ub in \<open>simp_all add: cp\<close>)
  then show ?thesis
    by (simp add: wf_cspace_def retype_done_def Let_def)
qed

lemma retype_wf: "wf_cspace cs \<Longrightarrow> wf_cspace (snd (retype cs ut t fpo count dest))"
  using retype_Ok retype_Err retype_done_wf by (metis snd_conv)

end
