(* ===== verification/CSpace_Revoke.thy ===== *)
theory CSpace_Revoke
  imports CSpace_Retype
begin

text \<open>
  Destruction and revocation.  \<open>anc ss k a\<close> is the abstract ``\<open>k\<close> is derived, transitively, from
  \<open>a\<close>''.  On a well-formed space the bounded parent walk \<open>is_descendant\<close> decides it, the leaf-first
  loop of \<open>revoke\<close> ends without a trap, and it empties exactly the slots derived from the revoked
  one, leaving every other slot as it was.
\<close>

section \<open>Derivation ancestry\<close>

definition par_rel :: "cte list \<Rightarrow> (nat \<times> nat) set" where
  "par_rel ss = {(k, parent (ss ! k)) | k. k < length ss \<and> parent (ss ! k) \<noteq> NIL}"

definition anc :: "cte list \<Rightarrow> nat \<Rightarrow> nat \<Rightarrow> bool" where
  "anc ss k a \<longleftrightarrow> (k, a) \<in> (par_rel ss)\<^sup>+"

lemma par_rel_iff: "(k, p) \<in> par_rel ss \<longleftrightarrow> k < length ss \<and> p = parent (ss ! k) \<and> p \<noteq> NIL"
  by (auto simp: par_rel_def)

lemma anc_step:
  "anc ss k a \<longleftrightarrow> k < length ss \<and> parent (ss ! k) \<noteq> NIL
     \<and> (parent (ss ! k) = a \<or> anc ss (parent (ss ! k)) a)"
  unfolding anc_def by (subst trancl_unfold_left) (auto simp: par_rel_iff rtrancl_eq_or_trancl)

lemma anc_trans: "anc ss k a \<Longrightarrow> anc ss a b \<Longrightarrow> anc ss k b"
  unfolding anc_def by (rule trancl_trans)

lemma anc_rank:
  assumes "anc ss k a" and r: "\<And>k. k < length ss \<Longrightarrow> parent (ss ! k) \<noteq> NIL \<Longrightarrow> rank (parent (ss ! k)) < rank k"
  shows "(rank a :: nat) < rank k"
  using assms(1) unfolding anc_def
proof (induction rule: trancl_induct)
  case (base y)
  then show ?case using r by (auto simp: par_rel_iff)
next
  case (step y z)
  then show ?case using r [of y] by (auto simp: par_rel_iff)
qed

lemma anc_irrefl: "wf_slots ss \<Longrightarrow> \<not> anc ss k k"
  using wf_rank anc_rank by (metis less_irrefl)

lemma anc_live:
  assumes "wf_slots ss" "anc ss k a"
  shows "k < length ss" "a < length ss" "\<not> is_null (cap (ss ! k))" "\<not> is_null (cap (ss ! a))"
proof -
  have "k < length ss \<and> a < length ss \<and> \<not> is_null (cap (ss ! k)) \<and> \<not> is_null (cap (ss ! a))"
    using assms(2) unfolding anc_def
  proof (induction rule: trancl_induct)
    case (base y)
    then show ?case using slot_okD [OF assms(1), of k] by (auto simp: par_rel_iff)
  next
    case (step y z)
    then show ?case using slot_okD [OF assms(1), of y] by (auto simp: par_rel_iff)
  qed
  then show "k < length ss" "a < length ss" "\<not> is_null (cap (ss ! k))" "\<not> is_null (cap (ss ! a))"
    by auto
qed

definition depth :: "cte list \<Rightarrow> nat \<Rightarrow> nat" where
  "depth ss k = card {a. anc ss k a}"

lemma anc_finite:
  assumes "wf_slots ss"
  shows "finite {a. anc ss k a}" "depth ss k \<le> length ss"
proof -
  have sub: "{a. anc ss k a} \<subseteq> {..<length ss}" using anc_live(2) [OF assms] by auto
  then show "finite {a. anc ss k a}" by (rule finite_subset) simp
  show "depth ss k \<le> length ss"
    using card_mono [OF finite_lessThan sub] by (simp add: depth_def)
qed

lemma depth_parent:
  assumes wf: "wf_slots ss" and k: "k < length ss" "parent (ss ! k) \<noteq> NIL"
  shows "depth ss (parent (ss ! k)) < depth ss k"
proof -
  let ?p = "parent (ss ! k)"
  have "{a. anc ss ?p a} \<subseteq> {a. anc ss k a}" using k by (auto simp: anc_step [of ss k])
  moreover have "?p \<in> {a. anc ss k a}" using k by (simp add: anc_step [of ss k])
  moreover have "?p \<notin> {a. anc ss ?p a}" using anc_irrefl [OF wf] by simp
  ultimately show ?thesis
    unfolding depth_def by (intro psubset_card_mono anc_finite(1) [OF wf]) auto
qed

lemma is_descendant_loop_anc:
  assumes wf: "wf_cspace cs"
  shows "d < nslots cs \<Longrightarrow> depth (slots cs) d < n \<Longrightarrow> is_descendant_loop n cs d a = Some (anc (slots cs) d a)"
proof (induction n arbitrary: d)
  case (Suc n)
  let ?p = "parent_at cs d"
  have W: "wf_slots (slots cs)" using wf by (simp add: wf_cspace_def)
  have "is_descendant_loop n cs ?p a = Some (anc (slots cs) ?p a)" if "?p \<noteq> NIL"
    using Suc slot_okD(3) [OF W, of d] depth_parent [OF W, of d] that by auto
  then show ?case
    using Suc.prems by (auto simp: Let_def anc_step [of _ d])
qed simp

lemma is_descendant_anc:
  "wf_cspace cs \<Longrightarrow> d < nslots cs \<Longrightarrow> is_descendant cs d a = Some (anc (slots cs) d a)"
  unfolding is_descendant_def
  by (rule is_descendant_loop_anc) (use anc_finite(2) [of "slots cs" d] in \<open>auto simp: wf_cspace_def\<close>)

lemma has_children_iff:
  "has_children cs d \<longleftrightarrow> (\<exists>k<nslots cs. \<not> is_null (cap_at cs k) \<and> parent_at cs k = d)"
  by (auto simp: has_children_def list_ex_length)

lemma no_children:
  assumes "wf_cspace cs" "d < nslots cs" "\<not> has_children cs d" "k < nslots cs"
  shows "parent_at cs k \<noteq> d"
proof
  assume p: "parent_at cs k = d"
  have W: "wf_slots (slots cs)" using assms(1) by (simp add: wf_cspace_def)
  have "d \<noteq> NIL" using wf_slots_NIL [OF W assms(2)] .
  then have "\<not> is_null (cap_at cs k)"
    using slot_okD(1) [OF W assms(4)] p by auto
  with p assms show False by (auto simp: has_children_iff)
qed

lemma doomed_leaf_iff:
  assumes "wf_cspace cs" "d < nslots cs"
  shows "doomed_leaf cs c d = Some (anc (slots cs) d c \<and> \<not> has_children cs d)"
proof -
  have W: "wf_slots (slots cs)" using assms(1) by (simp add: wf_cspace_def)
  show ?thesis
    using is_descendant_anc [OF assms] anc_irrefl [OF W] anc_live(3) [OF W]
    by (auto simp: doomed_leaf_def)
qed

section \<open>Destroying a slot\<close>

lemma destroy_slot_total:
  assumes "wf_cspace cs" "d < nslots cs"
  shows "\<exists>cs'. destroy_slot cs d = Some cs'"
  using assms slot_okD(3) [of "slots cs" d] by (auto simp: destroy_slot_def Let_def wf_cspace_def not_le)

lemma destroy_slot_wf:
  assumes wf: "wf_cspace cs" and d: "d < nslots cs" "\<not> is_null (cap_at cs d)"
    and nc: "\<And>k. k < nslots cs \<Longrightarrow> parent_at cs k \<noteq> d" and e: "destroy_slot cs d = Some cs'"
  shows "wf_cspace cs'"
proof -
  note D = destroy_slot_Some [OF e d(2)]
  have W: "wf_slots ((slots cs)[d := EMPTY])"
    using wf_clear [of "slots cs" d] wf nc by (simp add: wf_cspace_def)
  show ?thesis
  proof (cases "credited cs d")
    case True
    let ?p = "parent_at cs d"
    have p: "?p < nslots cs" "?p \<noteq> d" "type_at cs ?p = Sched" using True D(2) by (auto simp: credited_def)
    then have "wf_slots ((slots cs)[d := EMPTY, ?p := (slots cs ! ?p)\<lparr>cap := credit cs d\<rparr>])"
      using wf_recap_sched [OF W, of ?p "credit cs d"] by (simp add: credit_def Let_def)
    with True show ?thesis by (simp add: wf_cspace_def D(3))
  next
    case False
    with W show ?thesis by (simp add: wf_cspace_def D(3))
  qed
qed

lemma destroy_slot_parent:
  assumes e: "destroy_slot cs d = Some cs'" and d: "\<not> is_null (cap_at cs d)"
  shows "nslots cs' = nslots cs"
    and "slots cs' ! d = EMPTY"
    and "k \<noteq> d \<Longrightarrow> parent_at cs' k = parent_at cs k"
    and "k \<noteq> d \<Longrightarrow> cap_at cs' k = (if credited cs d \<and> k = parent_at cs d then credit cs d else cap_at cs k)"
  using destroy_slot_Some [OF assms] by (auto simp: credited_def nth_list_update)

lemma anc_transfer:
  assumes len: "length ss' = length ss"
    and par: "\<And>k. k \<noteq> d \<Longrightarrow> parent (ss' ! k) = parent (ss ! k)"
    and nc: "\<And>k. k < length ss \<Longrightarrow> k \<noteq> d \<Longrightarrow> parent (ss ! k) \<noteq> d"
    and "anc ss k a" "k \<noteq> d"
  shows "anc ss' k a"
  using assms(4,5) unfolding anc_def
proof (induction rule: converse_trancl_induct)
  case (base y)
  then show ?case using par [of y] len by (auto simp: par_rel_iff)
next
  case (step y z)
  then have "(y, z) \<in> par_rel ss'" "z \<noteq> d"
    using par [of y] nc [of y] len by (auto simp: par_rel_iff)
  with step.IH show ?case by (auto intro: trancl_into_trancl2)
qed

lemma destroy_leaf_anc:
  assumes d: "\<not> is_null (cap_at cs d)"
    and nc: "\<And>k. k < nslots cs \<Longrightarrow> parent_at cs k \<noteq> d" and e: "destroy_slot cs d = Some cs'"
    and k: "k \<noteq> d"
  shows "anc (slots cs') k a \<longleftrightarrow> anc (slots cs) k a"
proof -
  note P = destroy_slot_parent [OF e d]
  show ?thesis
  proof
    show "anc (slots cs') k a \<Longrightarrow> anc (slots cs) k a"
      by (rule anc_transfer [where d = d]) (use P nc k in auto)
    show "anc (slots cs) k a \<Longrightarrow> anc (slots cs') k a"
      by (rule anc_transfer [where d = d]) (use P nc k in auto)
  qed
qed

section \<open>The revocation loop\<close>

lemma leaf_descendant:
  assumes wf: "wf_cspace cs" and k: "anc (slots cs) k c"
  shows "\<exists>d<nslots cs. anc (slots cs) d c \<and> \<not> has_children cs d"
proof -
  have W: "wf_slots (slots cs)" using wf by (simp add: wf_cspace_def)
  obtain d where d: "anc (slots cs) d c"
    and max: "\<And>j. anc (slots cs) j c \<Longrightarrow> depth (slots cs) j \<le> depth (slots cs) d"
    using ex_has_greatest_nat [of "\<lambda>k. anc (slots cs) k c" k "depth (slots cs)" "Suc (nslots cs)", OF k]
      anc_finite(2) [OF W] by (auto simp: less_Suc_eq_le)
  have "\<not> has_children cs d"
  proof
    assume "has_children cs d"
    then obtain j where j: "j < nslots cs" "parent_at cs j = d"
      by (auto simp: has_children_iff)
    have n: "parent_at cs j \<noteq> NIL" using wf_slots_NIL [OF W anc_live(1) [OF W d]] j by simp
    then have "anc (slots cs) j c" using d j by (simp add: anc_step [of _ j])
    from max [OF this] depth_parent [OF W j(1) n] j show False by simp
  qed
  with d anc_live(1) [OF W d] show ?thesis by blast
qed

text \<open>Reasoning about the loop: a property kept by destroying any leaf descendant of \<open>c\<close> holds after
  the loop, which ends, does not trap, and leaves no descendant.\<close>

lemma revoke_loop_rule:
  assumes "wf_cspace cs" "P cs"
    and step: "\<And>cs d cs'. wf_cspace cs \<Longrightarrow> P cs \<Longrightarrow> d < nslots cs \<Longrightarrow> anc (slots cs) d c \<Longrightarrow>
      (\<And>k. k < nslots cs \<Longrightarrow> parent_at cs k \<noteq> d) \<Longrightarrow> \<not> is_null (cap_at cs d) \<Longrightarrow>
      destroy_slot cs d = Some cs' \<Longrightarrow> P cs'"
  shows "\<exists>cs'. revoke_loop cs c = Some cs' \<and> wf_cspace cs' \<and> P cs' \<and> (\<forall>k. \<not> anc (slots cs') k c)"
  using assms(1,2)
proof (induction "live_count cs" arbitrary: cs rule: less_induct)
  case less
  have W: "wf_slots (slots cs)" using less.prems(1) by (simp add: wf_cspace_def)
  have dl: "doomed_leaf cs c d = Some (anc (slots cs) d c \<and> \<not> has_children cs d)" if "d < nslots cs" for d
    using doomed_leaf_iff [OF less.prems(1) that] .
  have "find_p (doomed_leaf cs c) [0..<nslots cs] \<noteq> None"
    by (rule find_p_total) (simp add: dl)
  then consider "find_p (doomed_leaf cs c) [0..<nslots cs] = Some None"
    | d where "find_p (doomed_leaf cs c) [0..<nslots cs] = Some (Some d)"
    by (metis option.exhaust)
  then show ?case
  proof cases
    case 1
    then have "\<forall>d<nslots cs. \<not> (anc (slots cs) d c \<and> \<not> has_children cs d)"
      by (simp add: find_p_None dl)
    then have "\<not> anc (slots cs) k c" for k
      using leaf_descendant [OF less.prems(1)] by blast
    moreover have "revoke_loop cs c = Some cs"
      using 1 by (simp add: revoke_loop.simps)
    ultimately show ?thesis using less.prems by blast
  next
    case 2
    from find_p_Some [OF 2] have d: "d < nslots cs" "anc (slots cs) d c" "\<not> has_children cs d"
      by (auto simp: dl)
    have l: "\<not> is_null (cap_at cs d)" using anc_live(3) [OF W d(2)] .
    have nc: "parent_at cs k \<noteq> d" if "k < nslots cs" for k
      using no_children [OF less.prems(1) d(1,3) that] .
    obtain cs1 where e: "destroy_slot cs d = Some cs1"
      using destroy_slot_total [OF less.prems(1) d(1)] by blast
    have "wf_cspace cs1" using destroy_slot_wf [OF less.prems(1) d(1) l nc e] by blast
    moreover have "P cs1" by (rule step [OF less.prems d(1,2) nc l e])
    moreover have "live_count cs1 < live_count cs" by (rule destroy_slot_live_count [OF e l])
    moreover have "revoke_loop cs c = revoke_loop cs1 c"
      using 2 e by (simp add: revoke_loop.simps [of cs])
    ultimately show ?thesis using less.hyps by metis
  qed
qed

definition revoked :: "cspace \<Rightarrow> cptr \<Rightarrow> cspace \<Rightarrow> bool" where
  "revoked cs0 c cs \<longleftrightarrow> nslots cs = nslots cs0 \<and> next_obj cs = next_obj cs0
     \<and> (\<forall>k<nslots cs0. if anc (slots cs0) k c then slots cs ! k = EMPTY \<or> anc (slots cs) k c
          else \<not> anc (slots cs) k c \<and> (k \<noteq> c \<longrightarrow> slots cs ! k = slots cs0 ! k))
     \<and> parent_at cs c = parent_at cs0 c \<and> (\<exists>y. cap_at cs c = (cap_at cs0 c)\<lparr>csize := y\<rparr>)
     \<and> (type_at cs0 c \<noteq> Sched \<longrightarrow> slots cs ! c = slots cs0 ! c)"

lemma revoked_step:
  assumes wf0: "wf_cspace cs0" and wf: "wf_cspace cs" and R: "revoked cs0 c cs" and d: "d < nslots cs" "anc (slots cs) d c"
    and nc: "\<And>k. k < nslots cs \<Longrightarrow> parent_at cs k \<noteq> d" and l: "\<not> is_null (cap_at cs d)"
    and e: "destroy_slot cs d = Some cs'"
  shows "revoked cs0 c cs'"
proof -
  have W: "wf_slots (slots cs)" and W0: "wf_slots (slots cs0)" using wf wf0 by (simp_all add: wf_cspace_def)
  note P = destroy_slot_parent [OF e l] and A = destroy_leaf_anc [OF l nc e]
  have len: "nslots cs = nslots cs0" and no: "next_obj cs = next_obj cs0"
    and yes: "\<And>k. k < nslots cs0 \<Longrightarrow> anc (slots cs0) k c \<Longrightarrow> slots cs ! k = EMPTY \<or> anc (slots cs) k c"
    and not: "\<And>k. k < nslots cs0 \<Longrightarrow> \<not> anc (slots cs0) k c \<Longrightarrow>
        \<not> anc (slots cs) k c \<and> (k \<noteq> c \<longrightarrow> slots cs ! k = slots cs0 ! k)"
    and cc: "parent_at cs c = parent_at cs0 c" "\<exists>y. cap_at cs c = (cap_at cs0 c)\<lparr>csize := y\<rparr>"
      "type_at cs0 c \<noteq> Sched \<Longrightarrow> slots cs ! c = slots cs0 ! c"
    using R unfolding revoked_def by (auto split: if_splits)
  have dc: "d \<noteq> c" using d anc_irrefl [OF W] by blast
  have ad: "anc (slots cs0) d c" using not [of d] d len by auto
  have pd: "parent_at cs d = c \<or> anc (slots cs) (parent_at cs d) c"
    using d(2) by (simp add: anc_step [of _ d])
  have slot: "slots cs' ! k = slots cs ! k" if "k \<noteq> d" "k \<noteq> c" "\<not> anc (slots cs) k c" for k
  proof (rule cte.equality)
    show "cap_at cs' k = cap_at cs k" using P(4) [OF that(1)] pd that by auto
  qed (use P(3) [OF that(1)] in simp_all)
  have yes': "slots cs' ! k = EMPTY \<or> anc (slots cs') k c" if k: "k < nslots cs0" "anc (slots cs0) k c" for k
  proof (cases "k = d \<or> anc (slots cs) k c")
    case True
    then show ?thesis using P(2) A [of k c] by auto
  next
    case False
    moreover have "k \<noteq> c" using k anc_irrefl [OF W0] by blast
    ultimately show ?thesis using yes [OF k] slot [of k] by simp
  qed
  have not': "\<not> anc (slots cs') k c \<and> (k \<noteq> c \<longrightarrow> slots cs' ! k = slots cs0 ! k)"
    if k: "k < nslots cs0" "\<not> anc (slots cs0) k c" for k
  proof -
    have "k \<noteq> d" using ad k by auto
    then show ?thesis using not [OF k] A [of k c] slot [of k] by simp
  qed
  obtain y where "cap_at cs c = (cap_at cs0 c)\<lparr>csize := y\<rparr>" using cc(2) by blast
  then have "\<exists>y. cap_at cs' c = (cap_at cs0 c)\<lparr>csize := y\<rparr>"
    using P(4) [of c] dc by (auto simp: credit_def Let_def)
  moreover have "slots cs' ! c = slots cs0 ! c" if "type_at cs0 c \<noteq> Sched"
  proof (rule cte.equality)
    have "type_at cs c \<noteq> Sched" using cc(3) [OF that] that by simp
    then have "\<not> (credited cs d \<and> c = parent_at cs d)" by (auto simp: credited_def)
    then have "cap_at cs' c = cap_at cs c" using P(4) [of c] dc by (simp only: if_False not_sym)
    then show "cap_at cs' c = cap_at cs0 c" using cc(3) [OF that] by simp
  qed (use P(3) [of c] dc cc(1) in simp_all)
  ultimately show ?thesis
    using len no yes' not' P(1) P(3) [of c] dc cc(1) destroy_slot_Some(4) [OF e l]
    unfolding revoked_def by simp
qed

lemma revoke_loop_spec:
  assumes "wf_cspace cs"
  obtains cs' where "revoke_loop cs c = Some cs'" "wf_cspace cs'" "revoked cs c cs'"
    "\<And>k. \<not> anc (slots cs') k c"
proof -
  have "\<exists>cs'. revoke_loop cs c = Some cs' \<and> wf_cspace cs' \<and> revoked cs c cs' \<and> (\<forall>k. \<not> anc (slots cs') k c)"
  proof (rule revoke_loop_rule [OF assms])
    show "revoked cs c cs" by (auto simp: revoked_def intro: exI [of _ "csize (cap_at cs c)"])
  qed (rule revoked_step [OF assms])
  with that show thesis by blast
qed

lemma revoked_EMPTY:
  assumes "revoked cs c cs'" "\<And>k. \<not> anc (slots cs') k c" "anc (slots cs) k c" "k < nslots cs"
  shows "slots cs' ! k = EMPTY"
  using assms unfolding revoked_def by auto

lemma revoked_other:
  assumes "revoked cs c cs'" "\<not> anc (slots cs) k c" "k \<noteq> c" "k < nslots cs"
  shows "slots cs' ! k = slots cs ! k"
  using assms unfolding revoked_def by auto

lemma revoke_eq:
  assumes wf: "wf_cspace cs" and c: "c < nslots cs" "\<not> is_null (cap_at cs c)"
  obtains cs1 where "revoke_loop cs c = Some cs1" "wf_cspace cs1" "revoked cs c cs1"
    "\<And>k. k < nslots cs \<Longrightarrow> parent_at cs1 k \<noteq> c"
    "revoke cs c = (Ok (), if type_at cs c = Untyped
       then set_cap cs1 c ((cap_at cs1 c)\<lparr>watermark := 0\<rparr>) else cs1)"
proof -
  obtain cs1 where L: "revoke_loop cs c = Some cs1" "wf_cspace cs1" "revoked cs c cs1"
    and no: "\<And>k. \<not> anc (slots cs1) k c"
    using revoke_loop_spec [OF wf] by blast
  have len: "nslots cs1 = nslots cs" using L(3) by (simp add: revoked_def)
  have "type_at cs1 c = type_at cs c"
    using L(3) by (auto simp: revoked_def)
  moreover have "parent_at cs1 k \<noteq> c" if "k < nslots cs" for k
    using no [of k] that len c wf_slots_NIL [of "slots cs" c] wf
    unfolding anc_step [of _ k] wf_cspace_def by auto
  ultimately show thesis
    using that L c by (simp add: revoke_def live_def)
qed

lemma revoke_wf: "wf_cspace cs \<Longrightarrow> wf_cspace (snd (revoke cs c))"
proof (cases "c < nslots cs \<and> \<not> is_null (cap_at cs c)")
  case False
  assume "wf_cspace cs"
  with False show ?thesis by (auto simp: revoke_def live_def)
next
  case True
  assume wf: "wf_cspace cs"
  obtain cs1 where r: "wf_cspace cs1" "revoked cs c cs1" "\<And>k. k < nslots cs \<Longrightarrow> parent_at cs1 k \<noteq> c"
    "revoke cs c = (Ok (), if type_at cs c = Untyped
       then set_cap cs1 c ((cap_at cs1 c)\<lparr>watermark := 0\<rparr>) else cs1)"
    using revoke_eq [OF wf] True by metis
  have len: "nslots cs1 = nslots cs" using r(2) by (simp add: revoked_def)
  have "wf_cspace (set_cap cs1 c ((cap_at cs1 c)\<lparr>watermark := 0\<rparr>))" if "type_at cs c = Untyped"
  proof -
    have "slots cs1 ! c = slots cs ! c" using r(2) that unfolding revoked_def by auto
    then show ?thesis
      using wf_recap_untyped [of "slots cs1" c 0] r(1,3) that True len by (simp add: wf_cspace_def)
  qed
  with r show ?thesis by simp
qed

lemma destroy_childless:
  assumes "wf_cspace cs" "d < nslots cs" "\<not> is_null (cap_at cs d)"
    "\<And>k. k < nslots cs \<Longrightarrow> parent_at cs k \<noteq> d"
  obtains cs' where "destroy_slot cs d = Some cs'" "wf_cspace cs'"
  using destroy_slot_total [OF assms(1,2)] destroy_slot_wf [OF assms] by blast

lemma delete_eq:
  assumes wf: "wf_cspace cs" and c: "c < nslots cs" "\<not> is_null (cap_at cs c)"
  obtains cs1 cs2 where "revoke cs c = (Ok (), cs1)" "wf_cspace cs1" "destroy_slot cs1 c = Some cs2" "wf_cspace cs2"
    "delete cs c = (Ok (), cs2)" "\<And>k. k < nslots cs1 \<Longrightarrow> parent_at cs1 k \<noteq> c"
    "nslots cs1 = nslots cs" "\<not> is_null (cap_at cs1 c)"
proof -
  obtain cs0 where r: "wf_cspace cs0" "revoked cs c cs0" "\<And>k. k < nslots cs \<Longrightarrow> parent_at cs0 k \<noteq> c"
    "revoke cs c = (Ok (), if type_at cs c = Untyped
       then set_cap cs0 c ((cap_at cs0 c)\<lparr>watermark := 0\<rparr>) else cs0)"
    using revoke_eq [OF assms] by metis
  define cs1 where "cs1 = snd (revoke cs c)"
  have len: "nslots cs0 = nslots cs" using r(2) by (simp add: revoked_def)
  have "type_at cs0 c = type_at cs c" using r(2) by (auto simp: revoked_def)
  then have l: "\<not> is_null (cap_at cs1 c)" and len1: "nslots cs1 = nslots cs"
    using c len by (simp_all add: cs1_def r(4) is_null_def)
  have nc: "parent_at cs1 k \<noteq> c" if "k < nslots cs1" for k
    using r(3) [of k] that len len1 c by (cases "k = c") (auto simp: cs1_def r(4))
  have wf1: "wf_cspace cs1" unfolding cs1_def by (rule revoke_wf [OF wf])
  obtain cs2 where "destroy_slot cs1 c = Some cs2" "wf_cspace cs2"
    using destroy_childless [OF wf1 _ l nc] c len1 by auto
  moreover have "revoke cs c = (Ok (), cs1)" by (simp add: cs1_def r(4))
  ultimately show thesis using that wf1 nc len1 l by (simp add: delete_def)
qed

lemma delete_wf: "wf_cspace cs \<Longrightarrow> wf_cspace (snd (delete cs c))"
proof (cases "c < nslots cs \<and> \<not> is_null (cap_at cs c)")
  case False
  assume "wf_cspace cs"
  with False show ?thesis by (auto simp: delete_def revoke_def live_def)
next
  case True
  assume "wf_cspace cs"
  from delete_eq [OF this] True show ?thesis by (metis snd_conv)
qed

section \<open>Reply capabilities\<close>

lemma reply_childless:
  assumes "wf_cspace cs" "d < nslots cs" "non_duplicable (type_at cs d)" "type_at cs d \<noteq> Untyped" "type_at cs d \<noteq> Sched"
    "k < nslots cs"
  shows "parent_at cs k \<noteq> d"
  using slot_okD(5) [of "slots cs" k] wf_slots_NIL [of "slots cs" d] assms
  by (auto simp: wf_cspace_def derives_def)

lemma consume_reply_eq:
  assumes wf: "wf_cspace cs" and d: "d < nslots cs" "type_at cs d = Reply"
  obtains cs' where "consume_reply cs d = (Ok (objref (cap_at cs d)), cs')" "wf_cspace cs'"
    "destroy_slot cs d = Some cs'"
proof -
  have l: "\<not> is_null (cap_at cs d)" using d by (simp add: is_null_def)
  obtain cs' where "destroy_slot cs d = Some cs'" "wf_cspace cs'"
    using destroy_childless [OF wf d(1) l] reply_childless [OF wf d(1)] d by auto
  with d l that show thesis by (simp add: consume_reply_def live_def)
qed

lemma consume_reply_wf: "wf_cspace cs \<Longrightarrow> wf_cspace (snd (consume_reply cs d))"
proof (cases "d < nslots cs \<and> type_at cs d = Reply")
  case False
  assume "wf_cspace cs"
  with False show ?thesis by (auto simp: consume_reply_def live_def)
next
  case True
  assume "wf_cspace cs"
  from consume_reply_eq [OF this] True show ?thesis by (metis snd_conv)
qed

end
