(* ===== verification/CSpace_Machine.thy ===== *)
theory CSpace_Machine
  imports CSpace_Revoke
begin

text \<open>
  The capability space as a machine: the table of its derivation, transfer and destruction
  operations, instantiated in the guarded-machine interface, and the properties that hold after
  every sequence of calls.  \<open>exec\<close> gives the result of one call together with the next state; the
  value of \<open>consume_reply\<close> is \<open>Some\<close> of the caller it names, every other success is \<open>None\<close>.
\<close>

datatype cap_op =
    OpRetype cptr cap_type u32 u32 cptr
  | OpMint cptr cptr rights u64
  | OpCopy cptr cptr
  | OpMove cptr cptr
  | OpSplit cptr cptr u32
  | OpDelegate cptr cptr u32
  | OpMintReply cptr u64 u64
  | OpConsumeReply cptr
  | OpRevoke cptr
  | OpDelete cptr

definition unit_result :: "(cap_error, unit) outcome \<times> cspace \<Rightarrow> (cap_error, u64 option) outcome \<times> cspace" where
  "unit_result r = (map_outcome id (\<lambda>_. None) (fst r), snd r)"

fun exec :: "cap_op \<Rightarrow> cspace \<Rightarrow> (cap_error, u64 option) outcome \<times> cspace" where
  "exec (OpRetype ut t fpo count dest) cs = unit_result (retype cs ut t fpo count dest)"
| "exec (OpMint src dest r b) cs = unit_result (mint cs src dest r b)"
| "exec (OpCopy src dest) cs = unit_result (copy cs src dest)"
| "exec (OpMove src dest) cs = unit_result (move_cap cs src dest)"
| "exec (OpSplit src dest amount) cs = unit_result (split_sched cs src dest amount)"
| "exec (OpDelegate src dest amount) cs = unit_result (delegate_sched cs src dest amount)"
| "exec (OpMintReply dest caller b) cs = unit_result (mint_reply cs dest caller b)"
| "exec (OpConsumeReply dest) cs =
     (let r = consume_reply cs dest in (map_outcome id Some (fst r), snd r))"
| "exec (OpRevoke c) cs = unit_result (revoke cs c)"
| "exec (OpDelete c) cs = unit_result (delete cs c)"

abbreviation exec_op :: "cap_op \<Rightarrow> cspace \<Rightarrow> cspace" where "exec_op op cs \<equiv> snd (exec op cs)"

definition traps :: "cap_op \<Rightarrow> cspace \<Rightarrow> bool" where
  "traps op cs \<longleftrightarrow> fst (exec op cs) = Panic"

lemma unit_result_simps [simp]:
  "snd (unit_result r) = snd r" "fst (unit_result r) = Panic \<longleftrightarrow> fst r = Panic"
  "fst (unit_result r) = Err e \<longleftrightarrow> fst r = Err e"
  by (cases "fst r"; simp add: unit_result_def)+

lemma exec_wf: "wf_cspace cs \<Longrightarrow> wf_cspace (exec_op op cs)"
  by (cases op)
    (simp_all add: retype_wf mint_wf copy_wf move_cap_wf split_sched_wf delegate_sched_wf
      mint_reply_wf consume_reply_wf revoke_wf delete_wf Let_def)

interpretation cspace_machine: guarded_machine exec_op "\<lambda>_ _. True" wf_cspace
  by unfold_locales (rule exec_wf)

definition boot_cspace :: "nat \<Rightarrow> u64 \<Rightarrow> u32 \<Rightarrow> cspace" where
  "boot_cspace n base frames = snd (set_root_untyped (cspace_new n) base frames)"

lemma boot_wf:
  assumes "n \<le> usize_max" "unat base + unat frames \<le> 2 ^ 64"
  shows "wf_cspace (boot_cspace n base frames)"
  unfolding boot_cspace_def
  by (rule bootstrap_wf(6) [OF wf_cspace_new [OF assms(1)] _ refl assms(2)]) (simp add: cspace_new_def)

lemma boot_example: "wf_cspace (boot_cspace 4 0 10)"
  by (rule boot_wf) (simp_all add: usize_max_def)

lemma boot_next_obj [simp]: "next_obj (boot_cspace n base frames) = 1"
  by (simp add: boot_cspace_def set_root_untyped_def install_def cspace_new_def)

text \<open>
  (C1) The capability-space invariant (sound parent links, acyclic derivation, legitimate
  derivation along every link, untyped accounting, no overlap between retyped objects) holds
  after any sequence of the operations, with any arguments and including the calls that fail.
\<close>

theorem cspace_invariant:
  assumes "wf_cspace cs"
  shows "wf_cspace (run_ops exec_op ops cs)"
  using cspace_machine.run_inv [OF assms pre_ops_True] .

theorem cspace_invariant_witness:
  "wf_cspace (boot_cspace 4 0 10)
   \<and> wf_cspace (run_ops exec_op [OpRetype 0 Frame 1 2 1, OpCopy 1 3, OpRevoke 0] (boot_cspace 4 0 10))"
  using boot_example cspace_invariant [OF boot_example] by blast

section \<open>No operation traps\<close>

lemma delete_no_trap: "wf_cspace cs \<Longrightarrow> fst (delete cs c) \<noteq> Panic \<and> fst (revoke cs c) \<noteq> Panic"
proof (cases "c < nslots cs \<and> \<not> is_null (cap_at cs c)")
  case False
  then show ?thesis by (auto simp: delete_def revoke_def live_def)
next
  case True
  assume "wf_cspace cs"
  from delete_eq [OF this] True show ?thesis by (metis fst_conv outcome.distinct(3))
qed

lemma consume_reply_no_trap: "wf_cspace cs \<Longrightarrow> fst (consume_reply cs d) \<noteq> Panic"
proof (cases "d < nslots cs \<and> type_at cs d = Reply")
  case False
  then show ?thesis by (auto simp: consume_reply_def live_def)
next
  case True
  assume "wf_cspace cs"
  from consume_reply_eq [OF this] True show ?thesis by (metis fst_conv outcome.distinct(3))
qed

lemma retype_no_trap: "wf_cspace cs \<Longrightarrow> fst (retype cs ut t fpo count dest) \<noteq> Panic"
  using retype_Ok retype_Err by (metis fst_conv outcome.distinct(3,5))

lemma split_no_trap: "next_obj cs \<noteq> - 1 \<Longrightarrow> fst (split_sched cs src dest amount) \<noteq> Panic"
  by (auto simp: split_sched_def place_def Let_def live_def checked_add_1_None
      split: option.splits if_splits)

lemma exec_no_trap:
  assumes "wf_cspace cs" "next_obj cs \<noteq> - 1"
  shows "\<not> traps op cs"
proof (cases op)
  case (OpConsumeReply d)
  then show ?thesis
    using consume_reply_no_trap [OF assms(1), of d]
    by (cases "fst (consume_reply cs d)") (simp_all add: traps_def Let_def)
qed (use assms in \<open>auto simp: traps_def retype_no_trap delete_no_trap split_no_trap mint_def copy_def
    move_cap_def delegate_sched_def mint_reply_def Let_def split: sum.splits option.splits if_splits\<close>)

lemma place_next_obj: "place cs d c p = Inr cs' \<Longrightarrow> next_obj cs' = next_obj cs"
  by (auto simp: place_Inr)

lemma revoke_next_obj:
  assumes "wf_cspace cs"
  shows "next_obj (snd (revoke cs c)) = next_obj cs"
proof (cases "c < nslots cs \<and> \<not> is_null (cap_at cs c)")
  case True
  then obtain cs1 where "revoked cs c cs1"
    "revoke cs c = (Ok (), if type_at cs c = Untyped
       then set_cap cs1 c ((cap_at cs1 c)\<lparr>watermark := 0\<rparr>) else cs1)"
    using revoke_eq [OF assms] by metis
  then show ?thesis by (simp add: revoked_def)
qed (auto simp: revoke_def live_def)

lemma delete_next_obj:
  assumes "wf_cspace cs"
  shows "next_obj (snd (delete cs c)) = next_obj cs"
proof (cases "c < nslots cs \<and> \<not> is_null (cap_at cs c)")
  case True
  then obtain cs1 cs2 where "revoke cs c = (Ok (), cs1)" "destroy_slot cs1 c = Some cs2"
    "delete cs c = (Ok (), cs2)" "\<not> is_null (cap_at cs1 c)"
    using delete_eq [OF assms] by metis
  then show ?thesis
    using revoke_next_obj [OF assms, of c] destroy_slot_Some(4) by simp
qed (auto simp: delete_def revoke_def live_def)

lemma exec_next_obj:
  assumes "wf_cspace cs"
  shows "unat (next_obj (exec_op op cs)) \<le> Suc (unat (next_obj cs))"
proof (cases op)
  case (OpRetype ut t fpo count dest)
  then show ?thesis
    using retype_Ok [OF assms, of ut t fpo count dest] retype_Err [OF assms, of ut t fpo count dest]
    by (cases "retype_ok cs ut t fpo count dest") (auto simp: retype_done_def Let_def)
next
  case (OpSplit src dest amount)
  have "unat (n :: u64) \<le> Suc (unat x)" if "checked_add x 1 = Some n" for n x
    using that unfolding checked_add_Some unsigned_1 by linarith
  then show ?thesis
    using OpSplit by (auto simp: split_sched_def Let_def split: sum.splits option.splits if_splits
        dest: place_next_obj)
next
  case (OpConsumeReply d)
  then show ?thesis
    using destroy_slot_Some(4) by (auto simp: consume_reply_def Let_def live_def split: option.splits)
next
  case (OpRevoke c)
  then show ?thesis by (simp add: revoke_next_obj [OF assms])
next
  case (OpDelete c)
  then show ?thesis by (simp add: delete_next_obj [OF assms])
qed (auto simp: mint_def copy_def move_cap_def delegate_sched_def mint_reply_def Let_def
    split: sum.splits option.splits if_splits dest: place_next_obj)

text \<open>The trap-free runs: the only counter an operation can exhaust is \<open>next_obj\<close>, one step per call.\<close>

text \<open>
  (C2) Starting from a well-formed space, no operation of a sequence traps (no index out of
  range, no arithmetic overflow) as long as the object-id counter has room for one id per call.
\<close>

theorem cspace_no_trap:
  assumes "wf_cspace cs" "unat (next_obj cs) + length ops < 2 ^ 64"
  shows "pre_ops exec_op (\<lambda>op cs. \<not> traps op cs) ops cs"
  using assms
proof (induction ops arbitrary: cs)
  case (Cons op ops)
  have "next_obj cs \<noteq> - 1"
  proof
    assume "next_obj cs = - 1"
    then have "unat (next_obj cs) = 2 ^ 64 - 1"
      by (simp add: unsigned_minus_1_eq_mask mask_eq_exp_minus_1)
    with Cons.prems show False by simp
  qed
  moreover have "unat (next_obj (exec_op op cs)) + length ops < 2 ^ 64"
    using exec_next_obj [OF Cons.prems(1), of op] Cons.prems(2) by simp
  ultimately show ?case
    using Cons exec_wf exec_no_trap by simp
qed simp

theorem cspace_no_trap_witness:
  "pre_ops exec_op (\<lambda>op cs. \<not> traps op cs)
     [OpRetype 0 Frame 1 2 1, OpMint 1 3 READ 7, OpDelete 1] (boot_cspace 4 0 10)"
  by (rule cspace_no_trap [OF boot_example]) simp

end
