(* ===== verification/CSpace_Authority.thy ===== *)
theory CSpace_Authority
  imports CSpace_Machine
begin

text \<open>
  What the derivation tree guarantees of authority and of memory: along the whole ancestry of a
  capability its rights only narrow and it names the same object; everything below an \<open>Untyped\<close>
  lies in the used part of its region, and two such objects are equal or disjoint.
  Revocation removes that authority completely and touches nothing else.
\<close>

section \<open>Authority along the ancestry\<close>

lemma anc_authority:
  assumes wf: "wf_slots ss" and a: "anc ss k a" and t: "cap_type (cap (ss ! a)) \<noteq> Untyped"
  shows "cap_type (cap (ss ! k)) = cap_type (cap (ss ! a))
    \<and> subset_of (rights (cap (ss ! k))) (rights (cap (ss ! a)))
    \<and> (cap_type (cap (ss ! a)) \<noteq> Sched \<longrightarrow> same_object (cap (ss ! k)) (cap (ss ! a)))"
  using a unfolding anc_def
proof (induction rule: converse_trancl_induct)
  case (base y)
  then show ?case using slot_okD(5) [OF wf, of y] t
    by (auto simp: par_rel_iff derives_def same_object_def split: if_splits)
next
  case (step y z)
  then show ?case using slot_okD(5) [OF wf, of y] t subset_of_trans
    by (auto simp: par_rel_iff derives_def same_object_def split: if_splits)
qed

lemma anc_untyped:
  assumes wf: "wf_slots ss" and a: "anc ss k u" and t: "cap_type (cap (ss ! u)) = Untyped"
  shows "\<exists>j<length ss. parent (ss ! j) = u \<and> same_object (cap (ss ! k)) (cap (ss ! j))
    \<and> subset_of (rights (cap (ss ! k))) (default_rights (cap_type (cap (ss ! k))))
    \<and> is_retypeable (cap_type (cap (ss ! k)))"
  using a unfolding anc_def
proof (induction rule: converse_trancl_induct)
  case (base y)
  then show ?case using slot_okD(5) [OF wf, of y] t
    by (auto simp: par_rel_iff derives_def same_object_def)
next
  case (step y z)
  then obtain j where j: "j < length ss" "parent (ss ! j) = u" "same_object (cap (ss ! z)) (cap (ss ! j))"
    "subset_of (rights (cap (ss ! z))) (default_rights (cap_type (cap (ss ! z))))"
    "is_retypeable (cap_type (cap (ss ! z)))" by blast
  then have "cap_type (cap (ss ! z)) \<noteq> Untyped" "cap_type (cap (ss ! z)) \<noteq> Sched" by auto
  then have "same_object (cap (ss ! y)) (cap (ss ! z))" "subset_of (rights (cap (ss ! y))) (rights (cap (ss ! z)))"
    using step(1) slot_okD(5) [OF wf, of y] by (auto simp: par_rel_iff derives_def same_object_def)
  then have "same_object (cap (ss ! y)) (cap (ss ! j))
      \<and> subset_of (rights (cap (ss ! y))) (default_rights (cap_type (cap (ss ! y))))
      \<and> is_retypeable (cap_type (cap (ss ! y)))"
    using j subset_of_trans by (auto simp: same_object_def)
  with j show ?case by blast
qed

definition authority_below :: "raw_cap \<Rightarrow> raw_cap \<Rightarrow> bool" where
  "authority_below c a \<longleftrightarrow>
     (if cap_type a = Untyped then
        is_retypeable (cap_type c) \<and> subset_of (rights c) (default_rights (cap_type c))
        \<and> unat (objref a) \<le> unat (objref c)
        \<and> unat (objref c) + unat (csize c) \<le> unat (objref a) + unat (watermark a)
        \<and> watermark a \<le> csize a
      else cap_type c = cap_type a \<and> subset_of (rights c) (rights a)
        \<and> (cap_type a \<noteq> Sched \<longrightarrow> objref c = objref a \<and> csize c = csize a))"

lemma anc_authority_below:
  assumes wf: "wf_slots ss" and a: "anc ss k a"
  shows "authority_below (cap (ss ! k)) (cap (ss ! a))"
proof (cases "cap_type (cap (ss ! a)) = Untyped")
  case True
  obtain j where j: "j < length ss" "parent (ss ! j) = a" "same_object (cap (ss ! k)) (cap (ss ! j))"
    "subset_of (rights (cap (ss ! k))) (default_rights (cap_type (cap (ss ! k))))"
    "is_retypeable (cap_type (cap (ss ! k)))"
    using anc_untyped [OF wf a True] by blast
  have "parent (ss ! j) \<noteq> NIL" using wf_slots_NIL [OF wf anc_live(2) [OF wf a]] j by simp
  with slot_okD(5) [OF wf j(1)] slot_okD(2) [OF wf anc_live(2) [OF wf a]] True j show ?thesis
    by (auto simp: authority_below_def derives_def node_ok_def same_object_def)
next
  case False
  with anc_authority [OF wf a False] show ?thesis by (auto simp: authority_below_def same_object_def)
qed

text \<open>A concrete derivation: two frames retyped from the boot region, one of them minted read-only.\<close>

definition demo_ops :: "cap_op list" where
  "demo_ops = [OpRetype 0 Frame 2 2 1, OpMint 1 3 READ 7]"

lemma demo_slots:
  "slots (run_ops exec_op demo_ops (boot_cspace 4 0 10)) =
   [\<lparr>cap = \<lparr>cap_type = Untyped, rights = 32, objref = 0, csize = 10, watermark = 4, aux = 0, badge = 0\<rparr>,
     parent = NIL\<rparr>,
    \<lparr>cap = \<lparr>cap_type = Frame, rights = 539, objref = 0, csize = 2, watermark = 0, aux = 0, badge = 0\<rparr>,
     parent = 0\<rparr>,
    \<lparr>cap = \<lparr>cap_type = Frame, rights = 539, objref = 2, csize = 2, watermark = 0, aux = 0, badge = 0\<rparr>,
     parent = 0\<rparr>,
    \<lparr>cap = \<lparr>cap_type = Frame, rights = 1, objref = 0, csize = 2, watermark = 0, aux = 0, badge = 7\<rparr>,
     parent = 1\<rparr>]"
  by code_simp

lemma demo_anc:
  "anc (slots (run_ops exec_op demo_ops (boot_cspace 4 0 10))) 3 1"
  "anc (slots (run_ops exec_op demo_ops (boot_cspace 4 0 10))) 3 0"
  "anc (slots (run_ops exec_op demo_ops (boot_cspace 4 0 10))) 2 0"
  by (simp_all add: anc_step [of _ 3] anc_step [of _ 2] anc_step [of _ "Suc 0"] demo_slots NIL_def usize_max_def)



text \<open>
  (C4) No aliasing of memory.  After any sequence of operations, two capabilities derived from the
  same \<open>Untyped\<close> name the same object or objects whose frame ranges do not overlap.
\<close>

theorem retyped_objects_disjoint:
  assumes "wf_cspace cs" and "cs' = run_ops exec_op ops cs" and "type_at cs' u = Untyped"
    and "anc (slots cs') j u" and "anc (slots cs') k u"
  shows "same_object (cap_at cs' j) (cap_at cs' k) \<or> disjoint_frames (cap_at cs' j) (cap_at cs' k)"
proof -
  have wf: "wf_slots (slots cs')"
    using assms(2) cspace_machine.run_inv [OF assms(1) pre_ops_True] by (simp add: wf_cspace_def)
  obtain j' where j: "j' < nslots cs'" "parent_at cs' j' = u" "same_object (cap_at cs' j) (cap_at cs' j')"
    using anc_untyped [OF wf assms(4,3)] by blast
  obtain k' where k: "k' < nslots cs'" "parent_at cs' k' = u" "same_object (cap_at cs' k) (cap_at cs' k')"
    using anc_untyped [OF wf assms(5,3)] by blast
  have "u \<noteq> NIL" using wf_slots_NIL [OF wf anc_live(2) [OF wf assms(4)]] .
  with wf_siblings [OF wf j(1) k(1)] j k assms(3) show ?thesis
    by (auto simp: same_object_def disjoint_frames_def)
qed

theorem retyped_objects_disjoint_witness:
  "disjoint_frames (cap_at (run_ops exec_op demo_ops (boot_cspace 4 0 10)) 2)
     (cap_at (run_ops exec_op demo_ops (boot_cspace 4 0 10)) 3)"
  using retyped_objects_disjoint [OF boot_example refl _ demo_anc(3,2)]
  by (simp add: demo_slots same_object_def)

section \<open>Revocation\<close>

lemma no_child_no_anc:
  assumes "\<And>k. k < length ss \<Longrightarrow> parent (ss ! k) \<noteq> c" shows "\<not> anc ss k c"
  using assms unfolding anc_def by (metis par_rel_iff tranclD2)

lemma revoke_slots:
  assumes wf: "wf_cspace cs" and c: "c < nslots cs" "\<not> is_null (cap_at cs c)"
  obtains cs' where "revoke cs c = (Ok (), cs')" "nslots cs' = nslots cs" "\<And>k. \<not> anc (slots cs') k c"
    "\<And>k. anc (slots cs) k c \<Longrightarrow> k < nslots cs \<and> slots cs' ! k = EMPTY"
    "\<And>k. k < nslots cs \<Longrightarrow> k \<noteq> c \<Longrightarrow> \<not> anc (slots cs) k c \<Longrightarrow> slots cs' ! k = slots cs ! k"
proof -
  have W: "wf_slots (slots cs)" using wf by (simp add: wf_cspace_def)
  obtain cs1 where r: "wf_cspace cs1" "revoked cs c cs1" "\<And>k. k < nslots cs \<Longrightarrow> parent_at cs1 k \<noteq> c"
    "revoke cs c = (Ok (), if type_at cs c = Untyped
       then set_cap cs1 c ((cap_at cs1 c)\<lparr>watermark := 0\<rparr>) else cs1)"
    using revoke_eq [OF wf c] by metis
  let ?cs' = "snd (revoke cs c)"
  have len: "nslots cs1 = nslots cs" using r(2) by (simp add: revoked_def)
  have len': "nslots ?cs' = nslots cs" by (simp add: r(4) len)
  have same: "slots ?cs' ! k = slots cs1 ! k" if "k \<noteq> c" for k using that by (simp add: r(4))
  have "parent_at ?cs' k = parent_at cs1 k" for k
    using c len by (cases "k = c") (simp_all add: r(4))
  then have none: "\<not> anc (slots ?cs') k c" for k by (intro no_child_no_anc) (simp add: len' r(3))
  have none1: "\<not> anc (slots cs1) k c" for k by (intro no_child_no_anc) (simp add: len r(3))
  show thesis
  proof (rule that [OF _ len' none])
    show "revoke cs c = (Ok (), ?cs')" by (simp add: r(4))
    show "k < nslots cs \<and> slots ?cs' ! k = EMPTY" if k: "anc (slots cs) k c" for k
    proof -
      have "k < nslots cs" "k \<noteq> c" using anc_live(1) [OF W k] anc_irrefl [OF W] k by auto
      then show ?thesis using revoked_EMPTY [OF r(2) none1 k] same by simp
    qed
    show "slots ?cs' ! k = slots cs ! k" if "k < nslots cs" "k \<noteq> c" "\<not> anc (slots cs) k c" for k
      using revoked_other [OF r(2) that(3,2,1)] same [OF that(2)] by simp
  qed
qed

lemma revoke_self:
  assumes wf: "wf_cspace cs" and c: "c < nslots cs" "\<not> is_null (cap_at cs c)"
  shows "\<exists>s w. resolve (snd (revoke cs c)) c = Inr ((cap_at cs c)\<lparr>csize := s, watermark := w\<rparr>)
    \<and> (type_at cs c = Untyped \<longrightarrow> s = csize (cap_at cs c) \<and> w = 0)"
proof -
  obtain cs1 where r: "revoked cs c cs1" "revoke cs c = (Ok (), if type_at cs c = Untyped
       then set_cap cs1 c ((cap_at cs1 c)\<lparr>watermark := 0\<rparr>) else cs1)"
    using revoke_eq [OF wf c] by metis
  note R = r(1) [unfolded revoked_def]
  have len: "nslots cs1 = nslots cs" using R by simp
  obtain y where y: "cap_at cs1 c = (cap_at cs c)\<lparr>csize := y\<rparr>" using R by blast
  show ?thesis
  proof (cases "type_at cs c = Untyped")
    case True
    then have "cap_at cs1 c = cap_at cs c" using R by simp
    with True c len show ?thesis
      by (intro exI [of _ "csize (cap_at cs c)"] exI [of _ 0]) (simp add: r(2) resolve_def live_def is_null_def)
  next
    case False
    with y c len show ?thesis
      by (intro exI [of _ y] exI [of _ "watermark (cap_at cs c)"])
        (simp add: r(2) resolve_def live_def is_null_def)
  qed
qed

text \<open>
  (C6) Revocation is complete and exact.  Revoking a live capability succeeds; every capability
  derived from it, at any depth, then resolves to \<open>EmptySlot\<close>; no derived capability is left;
  every slot outside the subtree is untouched; and the revoked capability itself stays, with its
  type, rights and object, an \<open>Untyped\<close> getting its whole region back.
\<close>

theorem revoke_complete:
  assumes wf: "wf_cspace cs" and c: "c < nslots cs" "\<not> is_null (cap_at cs c)"
  shows "\<exists>cs'. revoke cs c = (Ok (), cs')
    \<and> (\<forall>k. anc (slots cs) k c \<longrightarrow> resolve cs' k = Inl EmptySlot)
    \<and> (\<forall>k. \<not> anc (slots cs') k c)
    \<and> (\<forall>k<nslots cs. k \<noteq> c \<and> \<not> anc (slots cs) k c \<longrightarrow> slots cs' ! k = slots cs ! k)
    \<and> (\<exists>s w. resolve cs' c = Inr ((cap_at cs c)\<lparr>csize := s, watermark := w\<rparr>)
         \<and> (type_at cs c = Untyped \<longrightarrow> s = csize (cap_at cs c) \<and> w = 0))"
proof -
  obtain cs' where r: "revoke cs c = (Ok (), cs')" "nslots cs' = nslots cs" "\<And>k. \<not> anc (slots cs') k c"
    "\<And>k. anc (slots cs) k c \<Longrightarrow> k < nslots cs \<and> slots cs' ! k = EMPTY"
    "\<And>k. k < nslots cs \<Longrightarrow> k \<noteq> c \<Longrightarrow> \<not> anc (slots cs) k c \<Longrightarrow> slots cs' ! k = slots cs ! k"
    using revoke_slots [OF assms] by metis
  have "resolve cs' k = Inl EmptySlot" if "anc (slots cs) k c" for k
    using r(2) r(4) [OF that] by (simp add: resolve_def live_def)
  with r revoke_self [OF assms] show ?thesis by (intro exI [of _ cs'] conjI) simp_all
qed

theorem revoke_complete_witness:
  "\<exists>cs'. revoke (run_ops exec_op demo_ops (boot_cspace 4 0 10)) 0 = (Ok (), cs')
     \<and> resolve cs' 3 = Inl EmptySlot \<and> resolve cs' 2 = Inl EmptySlot"
proof -
  have "wf_cspace (run_ops exec_op demo_ops (boot_cspace 4 0 10))"
    by (rule cspace_machine.run_inv [OF boot_example pre_ops_True])
  from revoke_complete [OF this, of 0] demo_anc(2,3) show ?thesis
    by (auto simp: demo_slots is_null_def)
qed

end
