(* ===== verification/CSpace_Totals.thy ===== *)
theory CSpace_Totals
  imports CSpace_Authority
begin

text \<open>
  Conservation over the whole capability space.  \<open>total f\<close> sums a weight over the slots; each
  slot-level change moves it by a known amount.  With the budget of a \<open>Sched\<close> as weight this gives
  conservation of CPU time; with the indicator of an object class, that capabilities of the
  non-duplicable classes are never duplicated.
\<close>

definition total :: "(raw_cap \<Rightarrow> nat) \<Rightarrow> cspace \<Rightarrow> nat" where
  "total f cs = sum_list (map (\<lambda>e. f (cap e)) (slots cs))"

definition sched_weight :: "raw_cap \<Rightarrow> nat" where
  "sched_weight c = (if cap_type c = Sched then unat (csize c) else 0)"

definition type_weight :: "cap_type \<Rightarrow> raw_cap \<Rightarrow> nat" where
  "type_weight t c = (if cap_type c = t then 1 else 0)"

abbreviation sched_total :: "cspace \<Rightarrow> nat" where "sched_total \<equiv> total sched_weight"
abbreviation type_count :: "cap_type \<Rightarrow> cspace \<Rightarrow> nat" where "type_count t \<equiv> total (type_weight t)"

lemma weight_NULL [simp]: "sched_weight NULL = 0" "t \<noteq> Null \<Longrightarrow> type_weight t NULL = 0"
  by (auto simp: sched_weight_def type_weight_def)

lemma total_update:
  "k < nslots cs \<Longrightarrow> total f (set_slot cs k e) + f (cap_at cs k) = total f cs + f (cap e)"
  using sum_list_map_update [of k "slots cs" "\<lambda>e. f (cap e)" e] by (simp add: total_def)

lemma total_recap:
  assumes "f c = f (cap_at cs k)"
  shows "total f (set_cap cs k c) = total f cs"
proof (cases "k < nslots cs")
  case True
  then show ?thesis using total_update [OF True, of f "(slots cs ! k)\<lparr>cap := c\<rparr>"] assms by simp
next
  case False
  then show ?thesis by (simp add: total_def list_update_beyond)
qed

lemma retypeable_duplicable: "is_retypeable t \<Longrightarrow> \<not> non_duplicable t"
  by (cases t) auto

lemma total_slots: "slots cs = slots cs' \<Longrightarrow> total f cs = total f cs'"
  by (simp add: total_def)

lemma weight_le_total: "k < nslots cs \<Longrightarrow> f (cap_at cs k) \<le> total f cs"
  using nth_le_sum_list [of k "map (\<lambda>e. f (cap e)) (slots cs)"] by (simp add: total_def)

lemma two_weights_le_total:
  assumes "j < nslots cs" "k < nslots cs" "j \<noteq> k"
  shows "f (cap_at cs j) + f (cap_at cs k) \<le> total f cs + f NULL"
  using total_update [OF assms(1), of f EMPTY] weight_le_total [of k "set_slot cs j EMPTY" f] assms
  by simp

lemma total_place:
  "place cs d c p = Inr cs' \<Longrightarrow> total f cs' + f (cap_at cs d) = total f cs + f c"
  using total_update [of d cs f "\<lparr>cap = c, parent = p\<rparr>"] by (simp add: place_Inr)

lemma null_weight:
  assumes "wf_cspace cs" "d < nslots cs" "is_null (cap_at cs d)" "f NULL = 0"
  shows "f (cap_at cs d) = 0"
  using slot_okD(1) [of "slots cs" d] assms by (simp add: wf_cspace_def)

lemma total_place_wf:
  assumes "wf_cspace cs" "place cs d c p = Inr cs'" "f NULL = 0"
  shows "total f cs' = total f cs + f c"
  using total_place [OF assms(2), of f] null_weight [OF assms(1), of d f] assms(2,3)
  by (simp add: place_Inr)

lemma total_move:
  assumes "wf_cspace cs" "f NULL = 0"
  shows "total f (snd (move_cap cs src dest)) = total f cs"
proof (cases "src < nslots cs \<and> \<not> is_null (cap_at cs src) \<and> dest \<noteq> src
    \<and> dest < nslots cs \<and> is_null (cap_at cs dest)")
  case True
  let ?m = "cs\<lparr>slots := map (reparent src dest) (slots cs)\<rparr>"
  have cap: "cap (reparent src dest e) = cap e" for e by (simp add: reparent_def)
  have m: "total f ?m = total f cs" by (simp add: total_def cap comp_def)
  have "total f (set_slot ?m dest (slots cs ! src)) + f (cap_at cs dest) = total f cs + f (cap_at cs src)"
    using total_update [of dest ?m f "slots cs ! src"] True by (simp add: cap m)
  moreover have "f (cap_at cs dest) = 0" using null_weight [OF assms(1), of dest f] True assms(2) by simp
  moreover have "total f (set_slot (set_slot ?m dest (slots cs ! src)) src EMPTY) + f (cap_at cs src)
      = total f (set_slot ?m dest (slots cs ! src))"
    using total_update [of src "set_slot ?m dest (slots cs ! src)" f EMPTY] True assms(2) by (simp add: cap)
  ultimately show ?thesis
    using True by (simp add: move_cap_def cte_ref_def total_def)
next
  case False
  then show ?thesis by (auto simp: move_cap_def cte_ref_def not_le)
qed

lemma total_destroy:
  assumes e: "destroy_slot cs d = Some cs'" and l: "\<not> is_null (cap_at cs d)" and f: "f NULL = 0"
  shows "if credited cs d
    then total f cs' + f (cap_at cs d) + f (cap_at cs (parent_at cs d)) = total f cs + f (credit cs d)
    else total f cs' + f (cap_at cs d) = total f cs"
proof -
  note D = destroy_slot_Some [OF e l]
  have 1: "total f (set_slot cs d EMPTY) + f (cap_at cs d) = total f cs"
    using total_update [OF D(1), of f EMPTY] f by simp
  show ?thesis
  proof (cases "credited cs d")
    case True
    let ?p = "parent_at cs d"
    have p: "?p < nslots cs" "?p \<noteq> d" using D(2) True by (auto simp: credited_def)
    have "total f (set_slot (set_slot cs d EMPTY) ?p ((slots cs ! ?p)\<lparr>cap := credit cs d\<rparr>)) + f (cap_at cs ?p)
        = total f (set_slot cs d EMPTY) + f (credit cs d)"
      using total_update [of ?p "set_slot cs d EMPTY" f "(slots cs ! ?p)\<lparr>cap := credit cs d\<rparr>"] p by simp
    moreover have "total f cs' = total f (set_slot (set_slot cs d EMPTY) ?p ((slots cs ! ?p)\<lparr>cap := credit cs d\<rparr>))"
      by (rule total_slots) (simp add: D(3) True)
    ultimately show ?thesis using True 1 by simp
  next
    case False
    have "total f cs' = total f (set_slot cs d EMPTY)"
      by (rule total_slots) (simp add: D(3) False)
    with False 1 show ?thesis by simp
  qed
qed

lemma total_retype:
  assumes wf: "wf_cspace cs" and f: "f NULL = 0" "\<And>c. is_retypeable (cap_type c) \<Longrightarrow> f c = 0"
    "\<And>c w. cap_type c = Untyped \<Longrightarrow> f (c\<lparr>watermark := w\<rparr>) = f c"
  shows "total f (snd (retype cs ut t fpo count dest)) = total f cs"
proof (cases "retype_ok cs ut t fpo count dest")
  case False
  then show ?thesis using retype_Err [OF wf False] by auto
next
  case True
  note O = True [unfolded retype_ok_def]
  let ?b = "retype_base cs ut" and ?u = "cap_at cs ut"
  let ?cs1 = "set_cap cs ut (?u\<lparr>watermark := watermark ?u + fpo * count\<rparr>)"
  let ?F = "\<lambda>n ss. fold (\<lambda>i ss. ss[dest + i := retype_cte ut t fpo ?b i]) [0..<n] ss"
  have "sum_list (map (\<lambda>e. f (cap e)) (?F n (slots ?cs1))) = total f cs" if "n \<le> unat count" for n
    using that
  proof (induction n)
    case 0
    have "total f ?cs1 + f ?u = total f cs + f (?u\<lparr>watermark := watermark ?u + fpo * count\<rparr>)"
      using total_update [of ut cs f] O by simp
    then show ?case using f(3) [of ?u] O by (simp add: total_def)
  next
    case (Suc n)
    have k: "dest + n < nslots cs" "is_null (cap_at cs (dest + n))" using O Suc.prems by auto
    have "?F n (slots ?cs1) ! (dest + n) = slots cs ! (dest + n)"
      using fold_fill_nth [of "dest + n" "slots ?cs1"] k O by (auto simp: nth_list_update is_null_def)
    moreover have "f (cap_at cs (dest + n)) = 0" using null_weight [OF wf k, of f] f(1) by simp
    moreover have "f (cap (retype_cte ut t fpo ?b n)) = 0"
      using O by (intro f(2)) (simp add: retype_cte_def)
    ultimately show ?case
      using sum_list_map_update [of "dest + n" "?F n (slots ?cs1)" "\<lambda>e. f (cap e)" "retype_cte ut t fpo ?b n"]
        Suc k by simp
  qed
  from this [of "unat count"] show ?thesis
    by (simp add: retype_Ok [OF wf True] retype_done_def Let_def total_def)
qed

section \<open>CPU time\<close>

lemma sched_weight_retype:
  "is_retypeable (cap_type c) \<Longrightarrow> sched_weight c = 0"
  "cap_type c = Untyped \<Longrightarrow> sched_weight (c\<lparr>watermark := w\<rparr>) = sched_weight c"
  by (auto simp: sched_weight_def)

lemma destroy_sched_total:
  assumes e: "destroy_slot cs d = Some cs'" and l: "\<not> is_null (cap_at cs d)"
  shows "sched_total cs' \<le> sched_total cs"
    and "credited cs d \<or> type_at cs d \<noteq> Sched \<Longrightarrow> sched_total cs < 2 ^ 32 \<Longrightarrow> sched_total cs' = sched_total cs"
proof -
  let ?p = "parent_at cs d"
  note T = total_destroy [OF e l, of sched_weight]
  have c: "sched_weight (credit cs d) = min (sched_weight (cap_at cs ?p) + sched_weight (cap_at cs d)) (2 ^ 32 - 1)"
    if "credited cs d"
    using that by (simp add: credited_def credit_def sched_weight_def Let_def unat_saturating_add)
  show "sched_total cs' \<le> sched_total cs"
    using T c by (cases "credited cs d") auto
  assume a: "credited cs d \<or> type_at cs d \<noteq> Sched" and b: "sched_total cs < 2 ^ 32"
  show "sched_total cs' = sched_total cs"
  proof (cases "credited cs d")
    case True
    have "?p < nslots cs" "?p \<noteq> d" "d < nslots cs"
      using True destroy_slot_Some(1,2) [OF e l] by (auto simp: credited_def)
    then have "sched_weight (cap_at cs ?p) + sched_weight (cap_at cs d) \<le> sched_total cs"
      using two_weights_le_total [of ?p cs d sched_weight] by simp
    with T c [OF True] True b show ?thesis by simp
  next
    case False
    with a T show ?thesis by (simp add: sched_weight_def)
  qed
qed

lemma revoke_sched_total:
  assumes wf: "wf_cspace cs"
  shows "sched_total (snd (revoke cs c)) \<le> sched_total cs"
    and "sched_total cs < 2 ^ 32 \<Longrightarrow> sched_total (snd (revoke cs c)) = sched_total cs"
proof -
  let ?P = "\<lambda>x. sched_total x \<le> sched_total cs \<and> (sched_total cs < 2 ^ 32 \<longrightarrow> sched_total x = sched_total cs)"
  have "?P (snd (revoke cs c))"
  proof (cases "c < nslots cs \<and> \<not> is_null (cap_at cs c)")
    case False
    then show ?thesis by (auto simp: revoke_def live_def)
  next
    case True
    have "\<exists>cs'. revoke_loop cs c = Some cs' \<and> wf_cspace cs' \<and> ?P cs' \<and> (\<forall>k. \<not> anc (slots cs') k c)"
    proof (rule revoke_loop_rule [OF wf])
      fix x d x'
      assume x: "wf_cspace x" "?P x" and d: "d < nslots x" "anc (slots x) d c"
        and l: "\<not> is_null (cap_at x d)" and e: "destroy_slot x d = Some x'"
      have W: "wf_slots (slots x)" using x by (simp add: wf_cspace_def)
      have p: "parent_at x d \<noteq> NIL" using d(2) by (simp add: anc_step [of _ d])
      have "credited x d \<or> type_at x d \<noteq> Sched"
        using slot_okD(4,5) [OF W d(1) p] derives_type wf_parent_not_self [OF W d(1) p] p
        by (fastforce simp: credited_def is_null_def)
      with destroy_sched_total [OF e l] x(2) show "?P x'" by auto
    qed simp
    then obtain cs1 where L: "revoke_loop cs c = Some cs1" "?P cs1" by blast
    have "total sched_weight (set_cap cs1 c ((cap_at cs1 c)\<lparr>watermark := 0\<rparr>)) = total sched_weight cs1"
      by (rule total_recap) (simp add: sched_weight_def)
    with L True show ?thesis by (simp add: revoke_def live_def)
  qed
  then show "sched_total (snd (revoke cs c)) \<le> sched_total cs"
    and "sched_total cs < 2 ^ 32 \<Longrightarrow> sched_total (snd (revoke cs c)) = sched_total cs" by auto
qed

lemma delete_sched_total:
  assumes wf: "wf_cspace cs"
  shows "sched_total (snd (delete cs c)) \<le> sched_total cs"
proof (cases "c < nslots cs \<and> \<not> is_null (cap_at cs c)")
  case False
  then show ?thesis by (auto simp: delete_def revoke_def live_def)
next
  case True
  then obtain cs1 cs2 where d: "revoke cs c = (Ok (), cs1)" "destroy_slot cs1 c = Some cs2"
    "delete cs c = (Ok (), cs2)" "\<not> is_null (cap_at cs1 c)"
    using delete_eq [OF wf] by metis
  with destroy_sched_total(1) [OF d(2,4)] revoke_sched_total(1) [OF wf, of c] show ?thesis by simp
qed

lemma split_sched_total:
  assumes wf: "wf_cspace cs"
  shows "sched_total (snd (split_sched cs src dest amount)) = sched_total cs"
proof (cases rule: split_sched_cases [of cs src dest amount])
  case (2 par child)
  have sd: "src \<noteq> dest" using 2 by (auto simp: is_null_def)
  let ?e = "\<lparr>cap = split_child cs src child, parent = src\<rparr>"
  let ?cs1 = "set_slot cs dest ?e"
  have "total sched_weight ?cs1 = sched_total cs + unat (capacity child)"
    using total_update [OF 2(3), of sched_weight ?e] null_weight [OF wf 2(3,4), of sched_weight]
    by (simp add: split_child_def sched_weight_def)
  moreover have "total sched_weight (set_slot ?cs1 src ((slots cs ! src)\<lparr>cap := write_into par (cap_at cs src)\<rparr>))
      + unat (csize (cap_at cs src)) = total sched_weight ?cs1 + unat (capacity par)"
    using total_update [of src ?cs1 sched_weight "(slots cs ! src)\<lparr>cap := write_into par (cap_at cs src)\<rparr>"] 2 sd
    by (simp add: sched_weight_def)
  moreover have "unat (capacity par) + unat (capacity child) = unat (csize (cap_at cs src))"
    using budget_split_Some(1) [OF 2(5)] by simp
  moreover have "sched_total (snd (split_sched cs src dest amount)) =
      total sched_weight (set_slot ?cs1 src ((slots cs ! src)\<lparr>cap := write_into par (cap_at cs src)\<rparr>))"
    by (rule total_slots) (simp add: 2)
  ultimately show ?thesis by simp
qed simp

lemma delegate_sched_total:
  "sched_total (snd (delegate_sched cs src dest amount)) = sched_total cs"
proof (cases "snd (delegate_sched cs src dest amount) = cs")
  case False
  let ?s = "cap_at cs src" and ?d = "cap_at cs dest"
  from False obtain sb db where ne: "src \<noteq> dest"
    and s: "src < nslots cs" "cap_type ?s = Sched" and d: "dest < nslots cs" "cap_type ?d = Sched"
    and b: "budget_delegate (from_cap ?s) (from_cap ?d) amount = Some (sb, db)"
    and e: "snd (delegate_sched cs src dest amount) =
      (let cs1 = set_cap cs src (write_into sb ?s) in set_cap cs1 dest (write_into db (cap_at cs1 dest)))"
    by (auto simp: delegate_sched_def Let_def split: sum.splits if_splits option.splits prod.splits)
  let ?cs1 = "set_cap cs src (write_into sb ?s)"
  have "sched_total ?cs1 + unat (csize ?s) = sched_total cs + unat (capacity sb)"
    using total_update [OF s(1), of sched_weight] s by (simp add: sched_weight_def)
  moreover have "sched_total (set_cap ?cs1 dest (write_into db ?d)) + unat (csize ?d)
      = sched_total ?cs1 + unat (capacity db)"
    using total_update [of dest ?cs1 sched_weight] ne d by (simp add: sched_weight_def)
  moreover have "unat (capacity sb) + unat (capacity db) = unat (csize ?s) + unat (csize ?d)"
    using budget_delegate_Some(1) [OF b] by simp
  ultimately show ?thesis using ne by (simp add: e)
qed simp

lemma mint_copy_cases:
  "snd (mint cs src dest r b) = cs
     \<or> (\<exists>c p. place cs dest c p = Inr (snd (mint cs src dest r b)) \<and> \<not> non_duplicable (cap_type c))"
  "snd (copy cs src dest) = cs
     \<or> (\<exists>c p. place cs dest c p = Inr (snd (copy cs src dest)) \<and> \<not> non_duplicable (cap_type c))"
proof -
  show "snd (mint cs src dest r b) = cs
      \<or> (\<exists>c p. place cs dest c p = Inr (snd (mint cs src dest r b)) \<and> \<not> non_duplicable (cap_type c))"
    by (cases "place cs dest ((cap_at cs src)\<lparr>rights := r, badge := b\<rparr>) src")
      (auto simp: mint_def live_def intro!: exI [of _ "(cap_at cs src)\<lparr>rights := r, badge := b\<rparr>"])
  let ?p = "if parent_at cs src = NIL then src else parent_at cs src"
  show "snd (copy cs src dest) = cs
      \<or> (\<exists>c p. place cs dest c p = Inr (snd (copy cs src dest)) \<and> \<not> non_duplicable (cap_type c))"
    by (cases "place cs dest (cap_at cs src) ?p")
      (auto simp: copy_def live_def Let_def intro!: exI [of _ "cap_at cs src"])
qed

lemma total_mint_copy:
  assumes wf: "wf_cspace cs" and f: "f NULL = 0" "\<And>c. \<not> non_duplicable (cap_type c) \<Longrightarrow> f c = 0"
  shows "total f (snd (mint cs src dest r b)) = total f cs"
    and "total f (snd (copy cs src dest)) = total f cs"
  using mint_copy_cases [of cs src dest] total_place_wf [OF wf, of _ _ _ _ f] f by (metis add.right_neutral)+

lemma total_mint_reply:
  assumes wf: "wf_cspace cs" and f: "f NULL = 0"
  shows "total f (snd (mint_reply cs dest caller b)) \<le> total f cs
    + f \<lparr>cap_type = Reply, rights = rights_empty, objref = caller, csize = 0, watermark = 0, aux = 0, badge = b\<rparr>"
  using total_place_wf [OF wf, of dest, of _ _ _ f] f by (auto simp: mint_reply_def split: sum.splits)

lemma sched_weight_dup: "\<not> non_duplicable (cap_type c) \<Longrightarrow> sched_weight c = 0"
  by (auto simp: sched_weight_def)

lemma mint_sched_total:
  assumes wf: "wf_cspace cs"
  shows "sched_total (snd (mint cs src dest r b)) = sched_total cs"
    and "sched_total (snd (copy cs src dest)) = sched_total cs"
    and "sched_total (snd (mint_reply cs dest caller b)) = sched_total cs"
proof -
  show "sched_total (snd (mint_reply cs dest caller b)) = sched_total cs"
    using total_place_wf [OF wf, of dest, of _ _ _ sched_weight]
    by (auto simp: mint_reply_def sched_weight_def split: sum.splits)
qed (use total_mint_copy [OF wf, of sched_weight] in \<open>simp_all add: sched_weight_dup\<close>)

lemma consume_reply_sched_total:
  assumes wf: "wf_cspace cs"
  shows "sched_total (snd (consume_reply cs d)) = sched_total cs"
proof (cases "d < nslots cs \<and> type_at cs d = Reply")
  case False
  then show ?thesis by (auto simp: consume_reply_def live_def)
next
  case True
  then obtain cs' where c: "snd (consume_reply cs d) = cs'" "destroy_slot cs d = Some cs'"
    using consume_reply_eq [OF wf] by (metis snd_conv)
  have "\<not> credited cs d" "\<not> is_null (cap_at cs d)" "sched_weight (cap_at cs d) = 0"
    using True by (auto simp: credited_def is_null_def sched_weight_def)
  with total_destroy [OF c(2), of sched_weight] c(1) show ?thesis by simp
qed

fun is_delete :: "cap_op \<Rightarrow> bool" where
  "is_delete (OpDelete c) = True"
| "is_delete _ = False"

lemma exec_sched_total:
  assumes wf: "wf_cspace cs"
  shows "sched_total (exec_op op cs) \<le> sched_total cs"
    and "\<not> is_delete op \<Longrightarrow> sched_total cs < 2 ^ 32 \<Longrightarrow> sched_total (exec_op op cs) = sched_total cs"
proof -
  have rt: "sched_total (snd (retype cs ut t fpo count dest)) = sched_total cs" for ut t fpo count dest
    by (rule total_retype [OF wf]) (simp_all add: sched_weight_retype)
  show "sched_total (exec_op op cs) \<le> sched_total cs"
    by (cases op) (simp_all add: rt mint_sched_total [OF wf] total_move [OF wf] split_sched_total [OF wf]
        delegate_sched_total consume_reply_sched_total [OF wf] revoke_sched_total(1) [OF wf]
        delete_sched_total [OF wf] Let_def)
  show "\<not> is_delete op \<Longrightarrow> sched_total cs < 2 ^ 32 \<Longrightarrow> sched_total (exec_op op cs) = sched_total cs"
    by (cases op) (simp_all add: rt mint_sched_total [OF wf] total_move [OF wf] split_sched_total [OF wf]
        delegate_sched_total consume_reply_sched_total [OF wf] revoke_sched_total(2) [OF wf] Let_def)
qed

interpretation sched_bounded: guarded_machine exec_op "\<lambda>_ _. True" "\<lambda>cs. wf_cspace cs \<and> sched_total cs \<le> T" for T
  by unfold_locales (blast intro: exec_wf order_trans [OF exec_sched_total(1)])

interpretation sched_conserved: guarded_machine exec_op "\<lambda>op _. \<not> is_delete op"
  "\<lambda>cs. wf_cspace cs \<and> sched_total cs = T \<and> T < 2 ^ 32" for T
  by unfold_locales (use exec_wf exec_sched_total(2) in auto)

lemma pre_no_delete: "list_all (\<lambda>op. \<not> is_delete op) ops \<Longrightarrow> pre_ops step (\<lambda>op _. \<not> is_delete op) ops cs"
  by (induction ops arbitrary: cs) simp_all

text \<open>
  (C7) CPU time is conserved.  Over any sequence of operations the sum of the budgets of all
  \<open>Sched\<close> capabilities never grows; and as long as nothing is deleted and the sum fits in 32 bits,
  it stays exactly the same: splitting, delegating and revoking only move budget around.
\<close>

theorem sched_budget_conserved:
  assumes "wf_cspace cs"
  shows "sched_total (run_ops exec_op ops cs) \<le> sched_total cs
    \<and> (list_all (\<lambda>op. \<not> is_delete op) ops \<and> sched_total cs < 2 ^ 32 \<longrightarrow>
         sched_total (run_ops exec_op ops cs) = sched_total cs)"
  using sched_bounded.run_inv [of cs "sched_total cs" ops, OF _ pre_ops_True] assms
    sched_conserved.run_inv [of cs "sched_total cs" ops, OF _ pre_no_delete] by blast

definition demo_sched :: cspace where
  "demo_sched = snd (set_root_sched (cspace_new 4) 0 100 10)"

lemma demo_sched_wf: "wf_cspace demo_sched"
  unfolding demo_sched_def
  by (rule bootstrap_wf(1) [OF wf_cspace_new]) (simp_all add: cspace_new_def usize_max_def)

lemma demo_sched_total: "sched_total demo_sched = 100"
  by code_simp

theorem sched_budget_conserved_witness:
  "sched_total (run_ops exec_op [OpSplit 0 1 30, OpSplit 1 2 10, OpDelegate 0 2 5, OpRevoke 0] demo_sched) = 100"
  using sched_budget_conserved [OF demo_sched_wf,
      of "[OpSplit 0 1 30, OpSplit 1 2 10, OpDelegate 0 2 5, OpRevoke 0]"] demo_sched_total by simp

section \<open>Non-duplicable classes\<close>

lemma type_weight_simps:
  "non_duplicable t \<Longrightarrow> \<not> non_duplicable (cap_type c) \<Longrightarrow> type_weight t c = 0"
  "is_retypeable (cap_type c) \<Longrightarrow> non_duplicable t \<Longrightarrow> type_weight t c = 0"
  "type_weight t (c\<lparr>watermark := w\<rparr>) = type_weight t c"
  "type_weight t (c\<lparr>csize := s\<rparr>) = type_weight t c"
  "type_weight t (write_into b c) = type_weight t c"
  using retypeable_duplicable by (auto simp: type_weight_def)

lemma destroy_type_count:
  assumes e: "destroy_slot cs d = Some cs'" and l: "\<not> is_null (cap_at cs d)" and t: "t \<noteq> Null"
  shows "type_count t cs' \<le> type_count t cs"
proof -
  have "type_weight t (credit cs d) = type_weight t (cap_at cs (parent_at cs d))"
    by (simp add: type_weight_def)
  then show ?thesis
    using total_destroy [OF e l, of "type_weight t"] t by (auto split: if_splits)
qed

lemma set_watermark_type_count:
  "type_count t (set_cap cs c ((cap_at cs c)\<lparr>watermark := w\<rparr>)) = type_count t cs"
  by (rule total_recap) (simp add: type_weight_simps)

lemma revoke_type_count:
  assumes wf: "wf_cspace cs" and t: "t \<noteq> Null"
  shows "type_count t (snd (revoke cs c)) \<le> type_count t cs"
proof (cases "c < nslots cs \<and> \<not> is_null (cap_at cs c)")
  case False
  then show ?thesis by (auto simp: revoke_def live_def)
next
  case True
  have "\<exists>cs'. revoke_loop cs c = Some cs' \<and> wf_cspace cs' \<and> type_count t cs' \<le> type_count t cs
      \<and> (\<forall>k. \<not> anc (slots cs') k c)"
  proof (rule revoke_loop_rule [OF wf])
    show "type_count t x' \<le> type_count t cs"
      if "type_count t x \<le> type_count t cs" "\<not> is_null (cap_at x d)" "destroy_slot x d = Some x'" for x d x'
      using destroy_type_count [OF that(3,2) t] that(1) by simp
  qed simp
  with True show ?thesis by (auto simp: revoke_def live_def set_watermark_type_count)
qed

lemma delete_type_count:
  assumes wf: "wf_cspace cs" and t: "t \<noteq> Null"
  shows "type_count t (snd (delete cs c)) \<le> type_count t cs"
proof (cases "c < nslots cs \<and> \<not> is_null (cap_at cs c)")
  case False
  then show ?thesis by (auto simp: delete_def revoke_def live_def)
next
  case True
  then obtain cs1 cs2 where d: "revoke cs c = (Ok (), cs1)" "destroy_slot cs1 c = Some cs2"
    "delete cs c = (Ok (), cs2)" "\<not> is_null (cap_at cs1 c)"
    using delete_eq [OF wf] by metis
  with destroy_type_count [OF d(2,4) t] revoke_type_count [OF wf t, of c] show ?thesis by simp
qed

lemma split_type_count:
  assumes wf: "wf_cspace cs" and t: "t \<noteq> Null"
  shows "type_count t (snd (split_sched cs src dest amount)) \<le> type_count t cs + (if t = Sched then 1 else 0)"
proof (cases rule: split_sched_cases [of cs src dest amount])
  case (2 par child)
  have sd: "src \<noteq> dest" using 2 by (auto simp: is_null_def)
  let ?e = "\<lparr>cap = split_child cs src child, parent = src\<rparr>"
  let ?cs1 = "set_slot cs dest ?e"
  have "type_count t ?cs1 = type_count t cs + (if t = Sched then 1 else 0)"
    using total_update [OF 2(3), of "type_weight t" ?e] null_weight [OF wf 2(3,4), of "type_weight t"] t
    by (auto simp: split_child_def type_weight_def)
  moreover have "type_count t (set_slot ?cs1 src ((slots cs ! src)\<lparr>cap := write_into par (cap_at cs src)\<rparr>))
      = type_count t ?cs1"
    using total_update [of src ?cs1 "type_weight t" "(slots cs ! src)\<lparr>cap := write_into par (cap_at cs src)\<rparr>"] 2 sd
    by (simp add: type_weight_simps)
  moreover have "type_count t (snd (split_sched cs src dest amount)) =
      type_count t (set_slot ?cs1 src ((slots cs ! src)\<lparr>cap := write_into par (cap_at cs src)\<rparr>))"
    by (rule total_slots) (simp add: 2)
  ultimately show ?thesis by simp
qed simp

lemma delegate_type_count:
  "type_count t (snd (delegate_sched cs src dest amount)) = type_count t cs"
proof (cases "snd (delegate_sched cs src dest amount) = cs")
  case False
  then obtain sb db where ne: "src \<noteq> dest" and s: "src < nslots cs" and d: "dest < nslots cs"
    and e: "snd (delegate_sched cs src dest amount) =
      (let cs1 = set_cap cs src (write_into sb (cap_at cs src)) in
       set_cap cs1 dest (write_into db (cap_at cs1 dest)))"
    by (auto simp: delegate_sched_def Let_def split: sum.splits if_splits option.splits prod.splits)
  let ?cs1 = "set_cap cs src (write_into sb (cap_at cs src))"
  have "type_count t ?cs1 = type_count t cs"
    by (rule total_recap) (simp add: type_weight_simps)
  moreover have "type_count t (set_cap ?cs1 dest (write_into db (cap_at ?cs1 dest))) = type_count t ?cs1"
    by (rule total_recap) (simp add: type_weight_simps)
  ultimately show ?thesis by (simp add: e Let_def)
qed simp

fun creates :: "cap_type \<Rightarrow> cap_op \<Rightarrow> bool" where
  "creates t (OpMintReply d c b) = (t = Reply)"
| "creates t (OpSplit s d a) = (t = Sched)"
| "creates t _ = False"

lemma exec_type_count:
  assumes wf: "wf_cspace cs" and t: "non_duplicable t"
  shows "type_count t (exec_op op cs) \<le> type_count t cs + (if creates t op then 1 else 0)"
proof -
  have n: "t \<noteq> Null" using t by auto
  have rt: "type_count t (snd (retype cs ut ty fpo count dest)) = type_count t cs" for ut ty fpo count dest
    by (rule total_retype [OF wf]) (use n t in \<open>simp_all add: type_weight_simps\<close>)
  have mc: "type_count t (snd (mint cs src dest r b)) = type_count t cs"
    "type_count t (snd (copy cs src dest)) = type_count t cs" for src dest r b
    by (rule total_mint_copy [OF wf]; use n t in \<open>simp add: type_weight_simps\<close>)+
  have mr: "type_count t (snd (mint_reply cs dest caller b)) \<le> type_count t cs + (if t = Reply then 1 else 0)"
    for dest caller b
    using total_mint_reply [OF wf, of "type_weight t" dest caller b] n by (auto simp: type_weight_def)
  have cr: "type_count t (snd (consume_reply cs d)) \<le> type_count t cs" for d
    using destroy_type_count [of cs d _ t] n
    by (auto simp: consume_reply_def live_def split: option.splits)
  show ?thesis
    by (cases op) (use n in \<open>simp_all add: rt mc mr cr total_move [OF wf] split_type_count [OF wf n]
        delegate_type_count revoke_type_count [OF wf n] delete_type_count [OF wf n] Let_def\<close>)
qed

text \<open>
  (C8) Capabilities of the non-duplicable classes (\<open>Untyped\<close>, \<open>Sched\<close>, \<open>Reply\<close>, \<open>Domain\<close>,
  \<open>SharedRo\<close>) are never multiplied: over any sequence of operations their number grows by at most
  one per \<open>mint_reply\<close> (for \<open>Reply\<close>) or \<open>split\<close> (for \<open>Sched\<close>), and not at all for the others.
\<close>

theorem non_duplicable_count:
  assumes "wf_cspace cs" "non_duplicable t"
  shows "type_count t (run_ops exec_op ops cs) \<le> type_count t cs + length (filter (creates t) ops)"
  using assms(1)
proof (induction ops arbitrary: cs)
  case (Cons op ops)
  show ?case
    using Cons.IH [OF exec_wf [OF Cons.prems], of op] exec_type_count [OF Cons.prems assms(2), of op]
    by (auto split: if_splits)
qed simp

theorem non_duplicable_count_witness:
  "type_count Untyped (run_ops exec_op [OpCopy 0 1, OpMint 0 1 RETYPE 0, OpRetype 0 Frame 1 1 1] (boot_cspace 4 0 10)) \<le> 1"
  using non_duplicable_count [OF boot_example, of Untyped
      "[OpCopy 0 1, OpMint 0 1 RETYPE 0, OpRetype 0 Frame 1 1 1]"]
  by (simp add: boot_cspace_def set_root_untyped_def install_def cspace_new_def total_def type_weight_def
      numeral_eq_Suc)

end
