(* ===== verification/CSpace_Grant.thy ===== *)
theory CSpace_Grant
  imports CSpace_Totals
begin

text \<open>
  The remaining contracts of the capability space: \<open>retype\<close> is all-or-nothing with an exact
  effect, reply authority is linear, destruction leaves no residual object unzeroed, and a
  cross-space \<open>grant\<close> is all-or-nothing, monotone and keeps both spaces well-formed.
\<close>

section \<open>Retype\<close>

text \<open>
  (C9) Retype is all-or-nothing.  When the request is admissible it fills exactly the requested
  slots with fresh objects of the class's default rights that tile the region from the watermark
  on, zeroes each of them (in order, before its capability exists), charges the untyped, and
  changes nothing else; any other request is refused and leaves the space as it was.
\<close>

theorem retype_all_or_nothing:
  assumes wf: "wf_cspace cs"
  shows "if retype_ok cs ut t fpo count dest
    then \<exists>cs'. retype cs ut t fpo count dest = (Ok (), cs') \<and> nslots cs' = nslots cs
      \<and> (\<forall>i<unat count. slots cs' ! (dest + i) = retype_cte ut t fpo (retype_base cs ut) i)
      \<and> (\<forall>k<nslots cs. \<not> (dest \<le> k \<and> k < dest + unat count) \<and> k \<noteq> ut \<longrightarrow> slots cs' ! k = slots cs ! k)
      \<and> slots cs' ! ut = (slots cs ! ut)\<lparr>cap := (cap_at cs ut)\<lparr>watermark := watermark (cap_at cs ut) + fpo * count\<rparr>\<rparr>
      \<and> zlog cs' = zlog cs @ map (\<lambda>i. (retype_base cs ut + of_nat (i * unat fpo), fpo)) [0..<unat count]
    else \<exists>e. retype cs ut t fpo count dest = (Err e, cs)"
proof (cases "retype_ok cs ut t fpo count dest")
  case False
  then show ?thesis using retype_Err [OF wf False] by simp
next
  case True
  note O = True [unfolded retype_ok_def]
  let ?cs' = "retype_done cs ut t fpo count dest"
  let ?ss = "(slots cs)[ut := (slots cs ! ut)\<lparr>cap := (cap_at cs ut)\<lparr>watermark := watermark (cap_at cs ut) + fpo * count\<rparr>\<rparr>]"
  have nth: "slots ?cs' ! k = (if dest \<le> k \<and> k < dest + unat count
      then retype_cte ut t fpo (retype_base cs ut) (k - dest) else ?ss ! k)" if "k < nslots cs" for k
    using fold_fill_nth [of k ?ss dest "retype_cte ut t fpo (retype_base cs ut)" "unat count"] that
    by (simp add: retype_done_def Let_def)
  have ut: "\<not> (dest \<le> ut \<and> ut < dest + unat count)"
  proof
    assume a: "dest \<le> ut \<and> ut < dest + unat count"
    then have "ut - dest < unat count" "dest + (ut - dest) = ut" by arith+
    with O show False by (metis cap_type.distinct(1) is_null_def)
  qed
  show ?thesis
    unfolding if_P [OF True]
  proof (intro exI [of _ ?cs'] conjI allI impI)
    show "slots ?cs' ! (dest + i) = retype_cte ut t fpo (retype_base cs ut) i" if "i < unat count" for i
      using nth [of "dest + i"] that O by simp
    show "slots ?cs' ! k = slots cs ! k"
      if "k < nslots cs" "\<not> (dest \<le> k \<and> k < dest + unat count) \<and> k \<noteq> ut" for k
      using nth [OF that(1)] that(2) by simp
    show "slots ?cs' ! ut = (slots cs ! ut)\<lparr>cap := (cap_at cs ut)\<lparr>watermark := watermark (cap_at cs ut) + fpo * count\<rparr>\<rparr>"
      using nth [of ut] ut O by simp
  qed (simp_all add: retype_Ok [OF wf True] retype_done_def Let_def)
qed

theorem retype_all_or_nothing_witness:
  "\<exists>cs'. retype (boot_cspace 4 0 10) 0 Frame 2 2 1 = (Ok (), cs')
     \<and> slots cs' ! 2 = retype_cte 0 Frame 2 (retype_base (boot_cspace 4 0 10) 0) 1"
proof -
  have ok: "retype_ok (boot_cspace 4 0 10) 0 Frame 2 2 1"
    by (auto simp: retype_ok_def boot_cspace_def set_root_untyped_def install_def cspace_new_def
        contains_def RETYPE_def nth_Cons')
  from retype_all_or_nothing [OF boot_example, of 0 Frame 2 2 1]
  obtain cs' where r: "retype (boot_cspace 4 0 10) 0 Frame 2 2 1 = (Ok (), cs')"
    and s: "\<forall>i<unat (2 :: u32). slots cs' ! (1 + i) = retype_cte 0 Frame 2 (retype_base (boot_cspace 4 0 10) 0) i"
    unfolding if_P [OF ok] by blast
  have "(1 :: nat) < unat (2 :: u32)" by simp
  from s [rule_format, OF this] r show ?thesis unfolding one_add_one by blast
qed

section \<open>Reply authority\<close>

text \<open>Successful replies of a run.\<close>

fun replied :: "cap_op \<Rightarrow> cspace \<Rightarrow> bool" where
  "replied (OpConsumeReply d) cs = (case fst (consume_reply cs d) of Ok _ \<Rightarrow> True | _ \<Rightarrow> False)"
| "replied _ cs = False"

fun replies :: "cap_op list \<Rightarrow> cspace \<Rightarrow> nat" where
  "replies [] cs = 0"
| "replies (op # ops) cs = (if replied op cs then 1 else 0) + replies ops (exec_op op cs)"

lemma consume_reply_count:
  assumes wf: "wf_cspace cs" and r: "replied (OpConsumeReply d) cs"
  shows "Suc (type_count Reply (snd (consume_reply cs d))) = type_count Reply cs"
proof -
  have d: "d < nslots cs" "type_at cs d = Reply"
    using r by (auto simp: consume_reply_def live_def split: if_splits outcome.splits)
  then obtain cs' where c: "consume_reply cs d = (Ok (objref (cap_at cs d)), cs')" "destroy_slot cs d = Some cs'"
    using consume_reply_eq [OF wf] by metis
  have "\<not> credited cs d" "\<not> is_null (cap_at cs d)" using d by (auto simp: credited_def is_null_def)
  with total_destroy [OF c(2), of "type_weight Reply"] d c(1) show ?thesis by (simp add: type_weight_def)
qed

lemma exec_reply_count:
  assumes wf: "wf_cspace cs"
  shows "type_count Reply (exec_op op cs) + (if replied op cs then 1 else 0)
    \<le> type_count Reply cs + (if creates Reply op then 1 else 0)"
proof (cases "replied op cs")
  case True
  then obtain d where "op = OpConsumeReply d" by (cases op) auto
  with consume_reply_count [OF wf, of d] True show ?thesis by (simp add: Let_def)
next
  case False
  then show ?thesis using exec_type_count [OF wf, of Reply op] by simp
qed

text \<open>
  (C10) Reply authority is linear.  Over any sequence of operations, the number of replies that
  succeed plus the reply capabilities still held never exceeds the ones held at the start plus the
  ones minted: each minted reply can be used at most once, whatever is copied, moved or minted.
\<close>

theorem reply_linear:
  assumes "wf_cspace cs"
  shows "replies ops cs + type_count Reply (run_ops exec_op ops cs)
    \<le> type_count Reply cs + length (filter (creates Reply) ops)"
  using assms
proof (induction ops arbitrary: cs)
  case (Cons op ops)
  show ?case
    using Cons.IH [OF exec_wf [OF Cons.prems], of op] exec_reply_count [OF Cons.prems, of op]
    by (auto split: if_splits)
qed simp

theorem reply_linear_witness:
  "replies [OpMintReply 1 5 0, OpCopy 1 2, OpConsumeReply 1, OpConsumeReply 1] (boot_cspace 4 0 10) \<le> 1"
  using reply_linear [OF boot_example, of "[OpMintReply 1 5 0, OpCopy 1 2, OpConsumeReply 1, OpConsumeReply 1]"]
  by (simp add: boot_cspace_def set_root_untyped_def install_def cspace_new_def total_def type_weight_def
      numeral_eq_Suc)

lemma mint_then_consume:
  assumes wf: "wf_cspace cs" and d: "d < nslots cs" "is_null (cap_at cs d)"
  obtains cs1 cs2 where "mint_reply cs d caller b = (Ok (), cs1)" "consume_reply cs1 d = (Ok caller, cs2)"
    "nslots cs1 = nslots cs" "slots cs2 = slots cs"
proof -
  let ?c = "\<lparr>cap_type = Reply, rights = rights_empty, objref = caller, csize = 0, watermark = 0, aux = 0, badge = b\<rparr>"
  let ?cs1 = "set_slot cs d \<lparr>cap = ?c, parent = NIL\<rparr>"
  have m: "mint_reply cs d caller b = (Ok (), ?cs1)"
    using d by (simp add: mint_reply_def place_def)
  have wf1: "wf_cspace ?cs1"
    using mint_reply_wf [OF wf, of d caller b] m by simp
  have r: "type_at ?cs1 d = Reply" "d < nslots ?cs1" "cap_at ?cs1 d = ?c" using d by simp_all
  obtain cs2 where c: "consume_reply ?cs1 d = (Ok (objref (cap_at ?cs1 d)), cs2)" "destroy_slot ?cs1 d = Some cs2"
    using consume_reply_eq [OF wf1 r(2,1)] by metis
  have "\<not> is_null (cap_at ?cs1 d)" "\<not> credited ?cs1 d" using r by (auto simp: is_null_def credited_def)
  then have "slots cs2 = (slots cs)[d := EMPTY]"
    using destroy_slot_Some(3) [OF c(2)] by simp
  moreover have "slots cs ! d = EMPTY"
    using slot_okD(1) [of "slots cs" d] wf d by (simp add: wf_cspace_def)
  ultimately have "slots cs2 = slots cs" by (metis list_update_id)
  with m c r that show thesis by simp
qed

text \<open>
  (C11) The life of a reply capability: minting one for a caller into an empty slot succeeds, the
  first reply through it returns exactly that caller and restores every slot, and a second reply
  on the same slot fails cleanly with \<open>EmptySlot\<close>.
\<close>

theorem reply_once:
  assumes wf: "wf_cspace cs" and d: "d < nslots cs" "is_null (cap_at cs d)"
  shows "\<exists>cs1 cs2. mint_reply cs d caller b = (Ok (), cs1) \<and> consume_reply cs1 d = (Ok caller, cs2)
    \<and> slots cs2 = slots cs \<and> consume_reply cs2 d = (Err EmptySlot, cs2)"
proof -
  obtain cs1 cs2 where r: "mint_reply cs d caller b = (Ok (), cs1)" "consume_reply cs1 d = (Ok caller, cs2)" "slots cs2 = slots cs"
    using mint_then_consume [OF assms] by metis
  then have "consume_reply cs2 d = (Err EmptySlot, cs2)"
    using d by (simp add: consume_reply_def live_def)
  with r show ?thesis by blast
qed

theorem reply_once_witness:
  "\<exists>cs1 cs2. mint_reply (boot_cspace 4 0 10) 1 5 0 = (Ok (), cs1) \<and> consume_reply cs1 1 = (Ok 5, cs2)
     \<and> consume_reply cs2 1 = (Err EmptySlot, cs2)"
  using reply_once [OF boot_example, of 1 5 0]
  by (auto simp: boot_cspace_def set_root_untyped_def install_def cspace_new_def)

section \<open>No residual object\<close>

text \<open>\<open>same_id\<close>: two capabilities name the same object, as \<open>destroy_slot\<close> compares them.\<close>

definition same_id :: "raw_cap \<Rightarrow> raw_cap \<Rightarrow> bool" where
  "same_id c d \<longleftrightarrow> cap_type c = cap_type d \<and> objref c = objref d"

text \<open>
  \<open>no_residual cs0 cs\<close>: every frame-backed object with a capability in \<open>cs0\<close> still has one in
  \<open>cs\<close> or has been zeroed since, for the size recorded in one of its capabilities.
\<close>

definition no_residual :: "cspace \<Rightarrow> cspace \<Rightarrow> bool" where
  "no_residual cs0 cs \<longleftrightarrow> (\<exists>zs. zlog cs = zlog cs0 @ zs \<and>
     (\<forall>k<nslots cs0. \<not> is_null (cap_at cs0 k) \<and> \<not> non_duplicable (type_at cs0 k) \<longrightarrow>
        (\<exists>j<nslots cs. same_id (cap_at cs j) (cap_at cs0 k))
        \<or> (\<exists>j<nslots cs0. same_id (cap_at cs0 j) (cap_at cs0 k) \<and>
             (objref (cap_at cs0 j), csize (cap_at cs0 j)) \<in> set zs)))"

text \<open>Destroying keeps every other capability of a duplicable class as it is.\<close>

definition survivors :: "cspace \<Rightarrow> cspace \<Rightarrow> bool" where
  "survivors cs0 cs \<longleftrightarrow> nslots cs = nslots cs0 \<and>
     (\<forall>k<nslots cs0. \<not> is_null (cap_at cs k) \<and> \<not> non_duplicable (type_at cs k) \<longrightarrow> cap_at cs k = cap_at cs0 k)"

lemma destroy_slot_zlog:
  assumes e: "destroy_slot cs d = Some cs'" and l: "\<not> is_null (cap_at cs d)"
    and n: "\<not> non_duplicable (type_at cs d)"
  shows "zlog cs' = (if \<exists>k<nslots cs. k \<noteq> d \<and> \<not> is_null (cap_at cs k) \<and> same_id (cap_at cs k) (cap_at cs d)
      then zlog cs else zlog cs @ [(objref (cap_at cs d), csize (cap_at cs d))])"
proof -
  have d: "d < nslots cs" and s: "type_at cs d \<noteq> Sched"
    using destroy_slot_Some(1) [OF e l] n by auto
  have "list_ex (\<lambda>e. \<not> is_null (cap e) \<and> cap_type_u8 (cap_type (cap e)) = cap_type_u8 (type_at cs d)
          \<and> objref (cap e) = objref (cap_at cs d)) ((slots cs)[d := EMPTY])
      \<longleftrightarrow> (\<exists>k<nslots cs. k \<noteq> d \<and> \<not> is_null (cap_at cs k) \<and> same_id (cap_at cs k) (cap_at cs d))"
    unfolding list_ex_length cap_type_u8_inj same_id_def length_list_update
    by (rule ex_cong1) (metis EMPTY_sel(1) is_null_NULL nth_list_update_eq nth_list_update_neq)
  with e l n d s show ?thesis
    by (auto simp: destroy_slot_def Let_def)
qed

lemma destroy_slot_zlog_nondup:
  assumes e: "destroy_slot cs d = Some cs'" and n: "non_duplicable (type_at cs d)"
  shows "zlog cs' = zlog cs"
  using assms by (auto simp: destroy_slot_def Let_def split: if_splits)

lemma survivors_step:
  assumes s: "survivors cs0 cs" and e: "destroy_slot cs d = Some cs'" and l: "\<not> is_null (cap_at cs d)"
  shows "survivors cs0 cs'"
proof -
  note P = destroy_slot_parent [OF e l]
  have "cap_at cs' k = cap_at cs0 k"
    if k: "k < nslots cs0" and a: "\<not> is_null (cap_at cs' k)" "\<not> non_duplicable (type_at cs' k)" for k
  proof -
  have kd: "k \<noteq> d" using a(1) P(2) by auto
  have "\<not> (credited cs d \<and> k = parent_at cs d)"
    using P(4) [OF kd] a(2) by (auto simp: credited_def)
  then have "cap_at cs' k = cap_at cs k" using P(4) [OF kd] by (simp only: if_False)
    with s k a show ?thesis by (simp add: survivors_def)
  qed
  then show ?thesis using P(1) s by (simp add: survivors_def)
qed

lemma no_residual_step:
  assumes s: "survivors cs0 cs" and r: "no_residual cs0 cs"
    and e: "destroy_slot cs d = Some cs'" and l: "\<not> is_null (cap_at cs d)"
  shows "no_residual cs0 cs'"
proof -
  note P = destroy_slot_parent [OF e l]
  obtain zs where z: "zlog cs = zlog cs0 @ zs"
    and old: "\<And>k. k < nslots cs0 \<Longrightarrow> \<not> is_null (cap_at cs0 k) \<Longrightarrow> \<not> non_duplicable (type_at cs0 k) \<Longrightarrow>
      (\<exists>j<nslots cs. same_id (cap_at cs j) (cap_at cs0 k))
      \<or> (\<exists>j<nslots cs0. same_id (cap_at cs0 j) (cap_at cs0 k) \<and> (objref (cap_at cs0 j), csize (cap_at cs0 j)) \<in> set zs)"
    using r unfolding no_residual_def by blast
  have keep: "same_id (cap_at cs' j) (cap_at cs j)" if "j \<noteq> d" for j
    using P(4) [OF that] by (auto simp: same_id_def credit_def Let_def)
  have d: "d < nslots cs" using destroy_slot_Some(1) [OF e l] .
  have len: "nslots cs = nslots cs0" using s by (simp add: survivors_def)
  obtain zs' where z': "zlog cs' = zlog cs @ zs'"
    using destroy_slot_zlog [OF e l] destroy_slot_zlog_nondup [OF e]
    by (metis append_Nil2)
  have "(\<exists>j<nslots cs'. same_id (cap_at cs' j) (cap_at cs0 k))
      \<or> (\<exists>j<nslots cs0. same_id (cap_at cs0 j) (cap_at cs0 k) \<and> (objref (cap_at cs0 j), csize (cap_at cs0 j)) \<in> set (zs @ zs'))"
    if k: "k < nslots cs0" "\<not> is_null (cap_at cs0 k)" "\<not> non_duplicable (type_at cs0 k)" for k
    using old [OF k]
  proof (elim disjE exE conjE)
    fix j assume j: "j < nslots cs" "same_id (cap_at cs j) (cap_at cs0 k)"
    show ?thesis
    proof (cases "j = d")
      case False
      then show ?thesis using keep [OF False] j P(1) by (auto simp: same_id_def)
    next
      case jd: True
      have nd: "\<not> non_duplicable (type_at cs d)" using j jd k by (simp add: same_id_def)
      then have cd: "cap_at cs d = cap_at cs0 d" using s d l len by (simp add: survivors_def)
      show ?thesis
      proof (cases "\<exists>i<nslots cs. i \<noteq> d \<and> \<not> is_null (cap_at cs i) \<and> same_id (cap_at cs i) (cap_at cs d)")
        case True
        then obtain i where i: "i < nslots cs" "i \<noteq> d" "same_id (cap_at cs i) (cap_at cs d)" by blast
        then have "same_id (cap_at cs' i) (cap_at cs0 k)" using keep [of i] j jd by (simp add: same_id_def)
        with i P(1) show ?thesis by auto
      next
        case False
        then have "zs' = [(objref (cap_at cs d), csize (cap_at cs d))]"
          using destroy_slot_zlog [OF e l nd] z' by (simp only: if_False) simp
        with cd d len j jd show ?thesis by auto
      qed
    qed
  qed auto
  with z z' show ?thesis unfolding no_residual_def by (intro exI [of _ "zs @ zs'"]) auto
qed

lemma no_residual_refl: "survivors cs cs \<and> no_residual cs cs"
  by (auto simp: survivors_def no_residual_def same_id_def)

lemma no_residual_watermark:
  assumes u: "type_at cs c = Untyped" and r: "survivors cs0 cs \<and> no_residual cs0 cs"
  shows "survivors cs0 (set_cap cs c ((cap_at cs c)\<lparr>watermark := w\<rparr>))
    \<and> no_residual cs0 (set_cap cs c ((cap_at cs c)\<lparr>watermark := w\<rparr>))"
proof -
  let ?ss = "(slots cs)[c := (slots cs ! c)\<lparr>cap := (cap_at cs c)\<lparr>watermark := w\<rparr>\<rparr>]"
  have cap: "cap (?ss ! k) = (if k = c \<and> c < nslots cs then (cap_at cs c)\<lparr>watermark := w\<rparr> else cap_at cs k)" for k
    by (cases "c < nslots cs") (auto simp: list_update_beyond)
  have "same_id (cap (?ss ! k)) x = same_id (cap_at cs k) x" for k x
    by (simp add: cap same_id_def)
  moreover have "survivors cs0 (set_cap cs c ((cap_at cs c)\<lparr>watermark := w\<rparr>))"
    using r u by (auto simp: survivors_def cap)
  ultimately show ?thesis using r by (simp add: no_residual_def)
qed

lemma revoke_no_residual:
  assumes wf: "wf_cspace cs"
  shows "survivors cs (snd (revoke cs c)) \<and> no_residual cs (snd (revoke cs c))"
proof (cases "c < nslots cs \<and> \<not> is_null (cap_at cs c)")
  case False
  then show ?thesis using no_residual_refl [of cs] by (auto simp: revoke_def live_def)
next
  case True
  have "\<exists>cs'. revoke_loop cs c = Some cs' \<and> wf_cspace cs' \<and> (survivors cs cs' \<and> no_residual cs cs')
      \<and> (\<forall>k. \<not> anc (slots cs') k c)"
    by (rule revoke_loop_rule [OF wf no_residual_refl]) (blast intro: survivors_step no_residual_step)
  then obtain cs1 where "revoke_loop cs c = Some cs1" "survivors cs cs1 \<and> no_residual cs cs1" by blast
  with True show ?thesis
    by (auto simp: revoke_def live_def no_residual_watermark)
qed

text \<open>
  (C12) No residual data.  After \<open>revoke\<close> or \<open>delete\<close>, every frame-backed object whose last
  capability in this space has gone has been passed to the zeroing hook, with the size recorded in
  its capability; the hook's log only grows.
\<close>

theorem destroyed_objects_zeroed:
  assumes wf: "wf_cspace cs"
  shows "no_residual cs (snd (revoke cs c)) \<and> no_residual cs (snd (delete cs c))"
proof -
  have "no_residual cs (snd (delete cs c))"
  proof (cases "c < nslots cs \<and> \<not> is_null (cap_at cs c)")
    case False
    then show ?thesis using no_residual_refl [of cs] by (auto simp: delete_def revoke_def live_def)
  next
    case True
    then obtain cs1 cs2 where d: "revoke cs c = (Ok (), cs1)" "destroy_slot cs1 c = Some cs2"
      "delete cs c = (Ok (), cs2)" "\<not> is_null (cap_at cs1 c)"
      using delete_eq [OF wf] by metis
    with revoke_no_residual [OF wf, of c] no_residual_step [OF _ _ d(2,4), of cs] show ?thesis by simp
  qed
  with revoke_no_residual [OF wf] show ?thesis by blast
qed

theorem destroyed_objects_zeroed_witness:
  "no_residual (run_ops exec_op demo_ops (boot_cspace 4 0 10))
     (snd (revoke (run_ops exec_op demo_ops (boot_cspace 4 0 10)) 0))"
  using destroyed_objects_zeroed [OF cspace_machine.run_inv [OF boot_example pre_ops_True], of demo_ops 0] by blast

section \<open>Grant\<close>

lemma node_ok_granted: "node_ok (c\<lparr>rights := r, badge := b\<rparr>) = node_ok c"
  by (simp add: node_ok_def)

lemma grant_Inr:
  assumes "wf_cspace src" "wf_cspace dst"
    and g: "grant src s dst d r b mode = (Inr u, src', dst')"
  shows "wf_cspace src'" "wf_cspace dst'" "s < nslots src" "\<not> is_null (cap_at src s)"
    "contains (rights (cap_at src s)) GRANT" "subset_of r (rights (cap_at src s))"
    "type_at src s \<noteq> Reply" "type_at src s \<noteq> SharedRo" "mode = Mint \<Longrightarrow> \<not> non_duplicable (type_at src s)"
    "d < nslots dst" "is_null (cap_at dst d)"
    "dst' = set_slot dst d \<lparr>cap = (cap_at src s)\<lparr>rights := r, badge := b\<rparr>, parent = NIL\<rparr>"
    "src' = (if mode = Move then set_slot src s EMPTY else src)"
proof -
  let ?c = "cap_at src s" and ?n = "(cap_at src s)\<lparr>rights := r, badge := b\<rparr>"
  have s: "s < nslots src" "\<not> is_null ?c" "cap_type ?c \<noteq> Reply" "cap_type ?c \<noteq> SharedRo"
    "contains (rights ?c) GRANT" "subset_of r (rights ?c)"
    "mode = Mint \<Longrightarrow> cap_type ?c \<noteq> Untyped \<and> cap_type ?c \<noteq> Sched \<and> cap_type ?c \<noteq> Domain"
    "mode = Move \<Longrightarrow> \<not> has_children src s"
    and p: "place dst d ?n NIL = Inr dst'" and src': "src' = (if mode = Move then set_slot src s EMPTY else src)"
    using g by (auto simp: grant_def split: sum.splits if_splits)
  have "node_ok ?c" using slot_okD(2) [of "slots src" s] assms(1) s(1) by (simp add: wf_cspace_def)
  then show "wf_cspace dst'"
    using place_wf_root [OF assms(2) p] s(2) by (simp add: node_ok_granted is_null_def)
  show "wf_cspace src'"
    using assms(1) wf_clear [of "slots src" s] no_children [OF assms(1) s(1) s(8)]
    by (auto simp: src' wf_cspace_def)
  show "\<not> non_duplicable (cap_type ?c)" if "mode = Mint"
    using s(3,4) s(7) [OF that] by (cases "cap_type ?c") auto
  show "d < nslots dst" "is_null (cap_at dst d)" "dst' = set_slot dst d \<lparr>cap = ?n, parent = NIL\<rparr>" using p by (simp_all add: place_Inr)
qed (use g in \<open>auto simp: grant_def split: sum.splits if_splits\<close>)

text \<open>
  (C13) Grant between two spaces is all-or-nothing and monotone.  A refused grant leaves both
  spaces as they were.  A successful one puts the source capability, with no more rights, as a
  derivation root into the empty destination slot; a \<open>Move\<close> empties the source slot and a \<open>Mint\<close>
  keeps it; nothing else changes in either space, both stay well-formed, a \<open>Reply\<close> or
  \<open>SharedRo\<close> is never granted and an \<open>Untyped\<close>, \<open>Sched\<close> or \<open>Domain\<close> is never forked.
\<close>

theorem grant_all_or_nothing:
  assumes "wf_cspace src" "wf_cspace dst"
    and g: "grant src s dst d r b mode = (res, src', dst')"
  shows "case res of
      Inl e \<Rightarrow> src' = src \<and> dst' = dst
    | Inr _ \<Rightarrow> wf_cspace src' \<and> wf_cspace dst'
        \<and> contains (rights (cap_at src s)) GRANT \<and> subset_of r (rights (cap_at src s))
        \<and> type_at src s \<noteq> Reply \<and> type_at src s \<noteq> SharedRo
        \<and> (mode = Mint \<longrightarrow> \<not> non_duplicable (type_at src s))
        \<and> d < nslots dst \<and> is_null (cap_at dst d)
        \<and> dst' = set_slot dst d \<lparr>cap = (cap_at src s)\<lparr>rights := r, badge := b\<rparr>, parent = NIL\<rparr>
        \<and> src' = (if mode = Move then set_slot src s EMPTY else src)"
proof (cases res)
  case (Inl e)
  then show ?thesis using g by (auto simp: grant_def split: sum.splits if_splits)
next
  case (Inr u)
  note G = grant_Inr [OF assms(1,2) g [unfolded Inr]]
  show ?thesis using G(1,2,5-13) Inr by simp
qed

theorem grant_all_or_nothing_witness:
  "let cs = run_ops exec_op demo_ops (boot_cspace 4 0 10) in
   case grant cs 2 (cspace_new 2) 1 READ 9 Move of
     (Inr _, src', dst') \<Rightarrow> wf_cspace src' \<and> wf_cspace dst' \<and> rights (cap_at dst' 1) = READ
   | _ \<Rightarrow> False"
proof -
  let ?cs = "run_ops exec_op demo_ops (boot_cspace 4 0 10)"
  obtain res src' dst' where g: "grant ?cs 2 (cspace_new 2) 1 READ 9 Move = (res, src', dst')"
    by (metis prod_cases3)
  have "\<exists>u. res = Inr u"
    using g by (auto simp: grant_def live_def demo_slots is_null_def contains_def GRANT_def subset_of_def
        READ_def has_children_def place_def cspace_new_def NIL_def usize_max_def split: sum.splits if_splits)
  with grant_all_or_nothing [OF cspace_machine.run_inv [OF boot_example pre_ops_True] wf_cspace_new g] g show ?thesis
    by (auto simp: usize_max_def cspace_new_def)
qed

text \<open>
  What a \<open>Move\<close> grant loses: the granted frame leaves the derivation tree of its untyped, so a
  later revoke of the untyped resets the watermark while the frame is still held in the other
  space, and the next retype hands the same frame out again.
\<close>

definition after_regrant :: "cspace \<times> cspace" where
  "after_regrant =
     (let cs = snd (retype (boot_cspace 4 0 10) 0 Frame 2 1 1) in
      case grant cs 1 (cspace_new 2) 0 READ 0 Move of
        (_, src, dst) \<Rightarrow> (snd (retype (snd (revoke src 0)) 0 Frame 2 1 1), dst))"

theorem granted_frame_realiased:
  "case after_regrant of (src, dst) \<Rightarrow>
     type_at src 1 = Frame \<and> type_at dst 0 = Frame \<and> objref (cap_at src 1) = objref (cap_at dst 0)
     \<and> csize (cap_at src 1) = 2 \<and> csize (cap_at dst 0) = 2"
  by code_simp

end
