(* ===== verification/Ipc_Message.thy ===== *)
theory Ipc_Message
  imports CSpace
begin

text \<open>
  The IPC message, \<^verbatim>\<open>src/ipc/src/message.rs\<close>: the one-word descriptor with its hostile-input decoder,
  and the register message.  The lemmas show that decoding never yields counts beyond the fixed
  arrays, that it inverts encoding, and that the accessors cannot index past their arrays.
\<close>

definition MSG_REGS :: usize where "MSG_REGS = 4"
definition MAX_CAPS :: usize where "MAX_CAPS = 2"

datatype msg_error = TooManyRegs | TooManyCaps

record message_info =
  label :: u32
  n_regs :: u8
  n_caps :: u8

definition message_info_new :: "u32 \<Rightarrow> u8 \<Rightarrow> u8 \<Rightarrow> msg_error + message_info" where
  "message_info_new l r c =
     (if MSG_REGS < unat r then Inl TooManyRegs
      else if MAX_CAPS < unat c then Inl TooManyCaps
      else Inr \<lparr>label = l, n_regs = r, n_caps = c\<rparr>)"

definition message_info_encode :: "message_info \<Rightarrow> u64" where
  "message_info_encode i =
     (push_bit 16 (ucast (label i)) OR push_bit 8 (ucast (n_caps i))) OR ucast (n_regs i)"

definition message_info_decode :: "u64 \<Rightarrow> msg_error + message_info" where
  "message_info_decode word =
     message_info_new (ucast (drop_bit 16 word AND 0xFFFFFFFF)) (ucast (word AND 0xFF))
       (ucast (drop_bit 8 word AND 0xFF))"

record cap_xfer =
  src :: cptr
  xrights :: rights
  mode :: grant_mode

definition cap_xfer_NONE :: cap_xfer where
  "cap_xfer_NONE = \<lparr>src = 0, xrights = rights_empty, mode = Move\<rparr>"

record message =
  info :: message_info
  regs :: "u64 list"
  caps :: "cap_xfer list"
  mbadge :: u64

definition message_empty :: "u32 \<Rightarrow> message" where
  "message_empty l =
     \<lparr>info = (case message_info_new l 0 0 of Inr i \<Rightarrow> i | Inl _ \<Rightarrow> \<lparr>label = l, n_regs = 0, n_caps = 0\<rparr>),
      regs = replicate MSG_REGS 0, caps = replicate MAX_CAPS cap_xfer_NONE, mbadge = 0\<rparr>"

definition message_with_data :: "u32 \<Rightarrow> u64 list \<Rightarrow> message" where
  "message_with_data l words =
     (let n = min (length words) MSG_REGS in
      \<lparr>info = \<lparr>label = l, n_regs = of_nat n, n_caps = 0\<rparr>,
       regs = take n words @ replicate (MSG_REGS - n) 0,
       caps = replicate MAX_CAPS cap_xfer_NONE, mbadge = 0\<rparr>)"

definition message_data :: "message \<Rightarrow> u64 list" where
  "message_data m = take (min (unat (n_regs (info m))) MSG_REGS) (regs m)"

definition message_transfers :: "message \<Rightarrow> cap_xfer list" where
  "message_transfers m = take (min (unat (n_caps (info m))) MAX_CAPS) (caps m)"

text \<open>The fixed array types \<open>[u64; MSG_REGS]\<close> and \<open>[CapXfer; MAX_CAPS]\<close>.\<close>

definition message_ok :: "message \<Rightarrow> bool" where
  "message_ok m \<longleftrightarrow> length (regs m) = MSG_REGS \<and> length (caps m) = MAX_CAPS"

definition info_ok :: "message_info \<Rightarrow> bool" where
  "info_ok i \<longleftrightarrow> unat (n_regs i) \<le> MSG_REGS \<and> unat (n_caps i) \<le> MAX_CAPS"

lemma message_info_new_Inr:
  "message_info_new l r c = Inr i \<longleftrightarrow> i = \<lparr>label = l, n_regs = r, n_caps = c\<rparr> \<and> info_ok i"
  by (auto simp: message_info_new_def info_ok_def)

lemma and_masks:
  "x AND 0xFF = take_bit 8 x" "x AND 0xFFFFFFFF = take_bit 32 x" for x :: "'a::len word"
  by (simp_all add: take_bit_eq_mask mask_eq_exp_minus_1)

lemma decode_fields:
  "ucast (drop_bit 16 (message_info_encode i) AND 0xFFFFFFFF) = label i"
  "ucast (message_info_encode i AND 0xFF) = n_regs i"
  "ucast (drop_bit 8 (message_info_encode i) AND 0xFF) = n_caps i"
  unfolding and_masks message_info_encode_def
  by (rule bit_word_eqI;
      auto simp: bit_unsigned_iff bit_take_bit_iff bit_or_iff bit_push_bit_iff bit_drop_bit_eq
        dest: bit_imp_le_length)+

lemma encode_fields:
  assumes "l = ucast (drop_bit 16 w AND 0xFFFFFFFF)" "r = ucast (w AND 0xFF)" "c = ucast (drop_bit 8 w AND 0xFF)"
  shows "message_info_encode \<lparr>label = l, n_regs = r, n_caps = c\<rparr> = w AND mask 48"
  unfolding assms and_masks message_info_encode_def
proof (rule bit_word_eqI, goal_cases)
  case (1 n)
  then show ?case
    by (cases "n < 8"; cases "n < 16")
      (auto simp: bit_unsigned_iff bit_take_bit_iff bit_and_iff bit_or_iff bit_push_bit_iff
        bit_drop_bit_eq bit_mask_iff not_less)
qed

text \<open>
  (C14) The descriptor codec.  Decoding the encoding of any in-range descriptor gives it back, and
  whatever word an untrusted caller sends, a successful decode has counts within the register
  and transfer arrays and re-encodes to the low 48 bits of that word (nothing else is read).
\<close>

theorem message_info_codec:
  "(info_ok i \<longrightarrow> message_info_decode (message_info_encode i) = Inr i)
   \<and> (\<forall>j. message_info_decode w = Inr j \<longrightarrow> info_ok j \<and> message_info_encode j = w AND mask 48)"
proof (intro conjI allI impI)
  show "message_info_decode (message_info_encode i) = Inr i" if "info_ok i"
    using that by (simp add: message_info_decode_def decode_fields message_info_new_Inr)
next
  fix j assume "message_info_decode w = Inr j"
  then have j: "j = \<lparr>label = ucast (drop_bit 16 w AND 0xFFFFFFFF), n_regs = ucast (w AND 0xFF),
      n_caps = ucast (drop_bit 8 w AND 0xFF)\<rparr>" and ok: "info_ok j"
    unfolding message_info_decode_def message_info_new_Inr by blast+
  show "info_ok j" by (rule ok)
  show "message_info_encode j = w AND mask 48" unfolding j by (rule encode_fields) simp_all
qed

theorem message_info_codec_witness:
  "message_info_decode (message_info_encode \<lparr>label = 0xABCD, n_regs = 3, n_caps = 1\<rparr>)
     = Inr \<lparr>label = 0xABCD, n_regs = 3, n_caps = 1\<rparr>"
  using message_info_codec [of "\<lparr>label = 0xABCD, n_regs = 3, n_caps = 1\<rparr>"]
  by (simp add: info_ok_def MSG_REGS_def MAX_CAPS_def)

lemma message_with_data_ok:
  "message_ok (message_with_data l ws)" "message_data (message_with_data l ws) = take MSG_REGS ws"
  "message_transfers (message_with_data l ws) = []"
proof -
  have "unat (of_nat (min (length ws) 4) :: u8) = min (length ws) 4"
    by (simp add: unat_of_nat min_def)
  then show "message_data (message_with_data l ws) = take MSG_REGS ws"
    by (auto simp: message_data_def message_with_data_def Let_def MSG_REGS_def min_def)
qed (simp_all add: message_ok_def message_with_data_def message_transfers_def Let_def MAX_CAPS_def)

end
