(* ===== verification/Ipc_Endpoint.thy ===== *)
theory Ipc_Endpoint
  imports Ipc_Message
begin

text \<open>
  The rendezvous endpoint, \<^verbatim>\<open>src/ipc/src/endpoint.rs\<close>, and the notification object,
  \<^verbatim>\<open>src/ipc/src/notification.rs\<close>.  Besides the documented state invariants, both are refined to what
  their clients rely on: an endpoint pairs the i-th sender with the i-th receiver, and a
  notification wakes its waiters in arrival order and never holds a signal back from one.
\<close>

type_synonym party_id = u64

record send_waiter =
  party :: party_id
  msg :: message

record endpoint_state =
  senders :: "send_waiter list"
  receivers :: "party_id list"

datatype send_outcome = Delivered party_id message | SendQueued
datatype recv_outcome = Received party_id message | RecvQueued

definition endpoint_new :: endpoint_state where
  "endpoint_new = \<lparr>senders = [], receivers = []\<rparr>"

definition ep_send :: "endpoint_state \<Rightarrow> party_id \<Rightarrow> message \<Rightarrow> send_outcome \<times> endpoint_state" where
  "ep_send ep from m =
     (case pop_front (receivers ep) of
        Some (receiver, rest) \<Rightarrow> (Delivered receiver m, ep\<lparr>receivers := rest\<rparr>)
      | None \<Rightarrow> (SendQueued, ep\<lparr>senders := push_back (senders ep) \<lparr>party = from, msg = m\<rparr>\<rparr>))"

definition ep_recv :: "endpoint_state \<Rightarrow> party_id \<Rightarrow> recv_outcome \<times> endpoint_state" where
  "ep_recv ep by_party =
     (case pop_front (senders ep) of
        Some (w, rest) \<Rightarrow> (Received (party w) (msg w), ep\<lparr>senders := rest\<rparr>)
      | None \<Rightarrow> (RecvQueued, ep\<lparr>receivers := push_back (receivers ep) by_party\<rparr>))"

definition ep_cancel :: "endpoint_state \<Rightarrow> party_id \<Rightarrow> bool \<times> endpoint_state" where
  "ep_cancel ep p =
     (let before = length (senders ep) + length (receivers ep);
          ep' = ep\<lparr>senders := filter (\<lambda>w. party w \<noteq> p) (senders ep),
                   receivers := filter (\<lambda>q. q \<noteq> p) (receivers ep)\<rparr> in
      (before \<noteq> length (senders ep') + length (receivers ep'), ep'))"

definition ep_is_idle :: "endpoint_state \<Rightarrow> bool" where
  "ep_is_idle ep \<longleftrightarrow> senders ep = [] \<and> receivers ep = []"

section \<open>The endpoint as a machine\<close>

datatype ep_op = Send party_id message | Recv party_id | Cancel party_id

fun ep_step :: "ep_op \<Rightarrow> endpoint_state \<Rightarrow> endpoint_state" where
  "ep_step (Send p m) ep = snd (ep_send ep p m)"
| "ep_step (Recv p) ep = snd (ep_recv ep p)"
| "ep_step (Cancel p) ep = snd (ep_cancel ep p)"

definition ep_inv :: "endpoint_state \<Rightarrow> bool" where
  "ep_inv ep \<longleftrightarrow> senders ep = [] \<or> receivers ep = []"

lemma ep_step_inv: "ep_inv ep \<Longrightarrow> ep_inv (ep_step op ep)"
  by (cases op; cases "senders ep"; cases "receivers ep")
    (simp_all add: ep_inv_def ep_send_def ep_recv_def ep_cancel_def Let_def push_back_def)

interpretation endpoint: guarded_machine ep_step "\<lambda>_ _. True" ep_inv
  by unfold_locales (rule ep_step_inv)

text \<open>The match an operation makes: (receiver, sender, message).\<close>

fun ep_match :: "ep_op \<Rightarrow> endpoint_state \<Rightarrow> (party_id \<times> party_id \<times> message) list" where
  "ep_match (Send p m) ep = (case fst (ep_send ep p m) of Delivered r m' \<Rightarrow> [(r, p, m')] | SendQueued \<Rightarrow> [])"
| "ep_match (Recv p) ep = (case fst (ep_recv ep p) of Received s m \<Rightarrow> [(p, s, m)] | RecvQueued \<Rightarrow> [])"
| "ep_match (Cancel p) ep = []"

fun ep_matches :: "ep_op list \<Rightarrow> endpoint_state \<Rightarrow> (party_id \<times> party_id \<times> message) list" where
  "ep_matches [] ep = []"
| "ep_matches (op # ops) ep = ep_match op ep @ ep_matches ops (ep_step op ep)"

fun sends :: "ep_op list \<Rightarrow> (party_id \<times> message) list" where
  "sends [] = []"
| "sends (Send p m # ops) = (p, m) # sends ops"
| "sends (_ # ops) = sends ops"

fun recvs :: "ep_op list \<Rightarrow> party_id list" where
  "recvs [] = []"
| "recvs (Recv p # ops) = p # recvs ops"
| "recvs (_ # ops) = recvs ops"

fun is_cancel :: "ep_op \<Rightarrow> bool" where
  "is_cancel (Cancel p) = True"
| "is_cancel _ = False"

abbreviation waiting :: "endpoint_state \<Rightarrow> (party_id \<times> message) list" where
  "waiting ep \<equiv> map (\<lambda>w. (party w, msg w)) (senders ep)"

lemma ep_refines_zip:
  assumes "ep_inv ep" "list_all (\<lambda>op. \<not> is_cancel op) ops"
  defines "S \<equiv> waiting ep @ sends ops" and "R \<equiv> receivers ep @ recvs ops"
  shows "ep_matches ops ep = zip R S
    \<and> waiting (run_ops ep_step ops ep) = drop (length R) S
    \<and> receivers (run_ops ep_step ops ep) = drop (length S) R"
  using assms(1,2) unfolding S_def R_def
proof (induction ops arbitrary: ep)
  case Nil
  then show ?case by (auto simp: ep_inv_def)
next
  case (Cons op ops)
  have i: "ep_inv (ep_step op ep)" using Cons.prems by (intro ep_step_inv) simp
  note IH = Cons.IH [OF i]
  show ?case
  proof (cases op)
    case (Send p m)
    then show ?thesis
      using Cons.prems IH by (cases "receivers ep") (auto simp: ep_inv_def ep_send_def push_back_def)
  next
    case (Recv p)
    then show ?thesis
      using Cons.prems IH by (cases "senders ep") (auto simp: ep_inv_def ep_recv_def push_back_def)
  qed (use Cons.prems in simp)
qed

text \<open>
  (C15) Rendezvous order.  On a fresh endpoint, over any sequence of sends and receives, the i-th
  message sent is handed to the i-th receive call, with the right sender, receiver and message,
  and what is left waiting is exactly the unmatched rest, on one side only.
\<close>

theorem endpoint_pairs_in_order:
  assumes "list_all (\<lambda>op. \<not> is_cancel op) ops"
  shows "ep_matches ops endpoint_new = zip (recvs ops) (sends ops)
    \<and> waiting (run_ops ep_step ops endpoint_new) = drop (length (recvs ops)) (sends ops)
    \<and> receivers (run_ops ep_step ops endpoint_new) = drop (length (sends ops)) (recvs ops)"
  using ep_refines_zip [OF _ assms, of endpoint_new] by (simp add: endpoint_new_def ep_inv_def)

theorem endpoint_pairs_in_order_witness:
  "ep_matches [Send 10 (message_empty 1), Send 11 (message_empty 2), Recv 2, Recv 2] endpoint_new
     = [(2, 10, message_empty 1), (2, 11, message_empty 2)]"
  using endpoint_pairs_in_order [of "[Send 10 (message_empty 1), Send 11 (message_empty 2), Recv 2, Recv 2]"]
  by simp

text \<open>
  (C16) The endpoint's state invariant with cancellation: after any sequence of sends, receives and
  cancellations senders and receivers are never both waiting, and a cancelled party is in neither
  queue afterwards, so no stale waiter can be matched.
\<close>

theorem endpoint_invariant:
  "ep_inv (run_ops ep_step ops endpoint_new)
   \<and> (let ep = run_ops ep_step (ops @ [Cancel p]) endpoint_new in
        p \<notin> party ` set (senders ep) \<and> p \<notin> set (receivers ep)
        \<and> fst (ep_cancel ep p) = False)"
proof -
  have "ep_inv (run_ops ep_step ops endpoint_new)"
    by (rule endpoint.run_inv [OF _ pre_ops_True]) (simp add: endpoint_new_def ep_inv_def)
  then show ?thesis by (auto simp: run_ops_append ep_cancel_def Let_def)
qed

section \<open>Notifications\<close>

record notification_state =
  pending :: bool
  waiters :: "party_id list"

datatype signal_outcome = Woke party_id | Latched
datatype wait_outcome = Ready | WaitQueued

definition notification_new :: notification_state where
  "notification_new = \<lparr>pending = False, waiters = []\<rparr>"

definition nf_signal :: "notification_state \<Rightarrow> signal_outcome \<times> notification_state" where
  "nf_signal n =
     (case pop_front (waiters n) of
        Some (p, rest) \<Rightarrow> (Woke p, n\<lparr>waiters := rest\<rparr>)
      | None \<Rightarrow> (Latched, n\<lparr>pending := True\<rparr>))"

definition nf_wait :: "notification_state \<Rightarrow> party_id \<Rightarrow> wait_outcome \<times> notification_state" where
  "nf_wait n by_party =
     (if pending n then (Ready, n\<lparr>pending := False\<rparr>)
      else (WaitQueued, n\<lparr>waiters := push_back (waiters n) by_party\<rparr>))"

definition nf_cancel :: "notification_state \<Rightarrow> party_id \<Rightarrow> bool \<times> notification_state" where
  "nf_cancel n p =
     (let before = length (waiters n); n' = n\<lparr>waiters := filter (\<lambda>q. q \<noteq> p) (waiters n)\<rparr> in
      (before \<noteq> length (waiters n'), n'))"

datatype nf_op = Signal | Wait party_id | NCancel party_id

fun nf_step :: "nf_op \<Rightarrow> notification_state \<Rightarrow> notification_state" where
  "nf_step Signal n = snd (nf_signal n)"
| "nf_step (Wait p) n = snd (nf_wait n p)"
| "nf_step (NCancel p) n = snd (nf_cancel n p)"

definition nf_inv :: "notification_state \<Rightarrow> bool" where
  "nf_inv n \<longleftrightarrow> \<not> (pending n \<and> waiters n \<noteq> [])"

lemma nf_step_inv: "nf_inv n \<Longrightarrow> nf_inv (nf_step op n)"
  by (cases op; cases "waiters n")
    (simp_all add: nf_inv_def nf_signal_def nf_wait_def nf_cancel_def Let_def push_back_def)

interpretation notification: guarded_machine nf_step "\<lambda>_ _. True" nf_inv
  by unfold_locales (rule nf_step_inv)

text \<open>The parties that blocked, and the parties woken, in order.\<close>

fun nf_blocked :: "nf_op list \<Rightarrow> notification_state \<Rightarrow> party_id list" where
  "nf_blocked [] n = []"
| "nf_blocked (op # ops) n =
     (case op of Wait p \<Rightarrow> (case fst (nf_wait n p) of WaitQueued \<Rightarrow> [p] | Ready \<Rightarrow> []) | _ \<Rightarrow> [])
     @ nf_blocked ops (nf_step op n)"

fun nf_woken :: "nf_op list \<Rightarrow> notification_state \<Rightarrow> party_id list" where
  "nf_woken [] n = []"
| "nf_woken (op # ops) n =
     (case op of Signal \<Rightarrow> (case fst (nf_signal n) of Woke p \<Rightarrow> [p] | Latched \<Rightarrow> []) | _ \<Rightarrow> [])
     @ nf_woken ops (nf_step op n)"

fun is_ncancel :: "nf_op \<Rightarrow> bool" where
  "is_ncancel (NCancel p) = True"
| "is_ncancel _ = False"

lemma nf_fifo:
  "list_all (\<lambda>op. \<not> is_ncancel op) ops \<Longrightarrow>
     nf_woken ops n @ waiters (run_ops nf_step ops n) = waiters n @ nf_blocked ops n"
proof (induction ops arbitrary: n)
  case (Cons op ops)
  then have IH: "nf_woken ops (nf_step op n) @ waiters (run_ops nf_step ops (nf_step op n))
      = waiters (nf_step op n) @ nf_blocked ops (nf_step op n)" by simp
  show ?case
    using IH Cons.prems
    by (cases op; cases "waiters n") (auto simp: nf_signal_def nf_wait_def push_back_def)
qed simp



end
