(* ===== verification/Sched_Executor.thy ===== *)
theory Sched_Executor
  imports Budget "HOL-Library.Finite_Map"
begin

text \<open>
  The cooperative executor, \<^verbatim>\<open>src/sched/src/executor.rs\<close>, \<^verbatim>\<open>task.rs\<close> and the ready queue and wakers of
  \<^verbatim>\<open>waker.rs\<close>.  A task's future is client code: polling it is the parameter \<open>pollf\<close> of the run loop,
  an arbitrary function of the future, the task's id and an outside world \<open>'w\<close>, which says whether
  the future completed, its next state, and the ids it woke (in order) through wakers.  Nothing
  is assumed of \<open>pollf\<close>: that the run loop ends, that budgets gate every poll and that no
  ready task is forgotten hold whatever the tasks do.  The task table is a finite map;
  \<open>polled\<close> records the ids polled, in order, and is read by no operation.
\<close>

type_synonym task_id = u64

datatype poll = PollReady | PollPending

record 'f task =
  tid :: task_id
  fut :: 'f
  tbudget :: budget

record 'f executor =
  tasks :: "(task_id, 'f task) fmap"
  ready :: "task_id list"
  parked :: "task_id list"
  polled :: "task_id list"

text \<open>\<open>TaskId::allocate\<close>: the value of the process-wide counter and its next value (a wrapping
  \<open>fetch_add\<close>).\<close>

definition allocate :: "u64 \<Rightarrow> task_id \<times> u64" where
  "allocate next = (next, next + 1)"

definition task_new :: "u64 \<Rightarrow> 'f \<Rightarrow> budget \<Rightarrow> 'f task \<times> u64" where
  "task_new next f b = (let (i, next') = allocate next in (\<lparr>tid = i, fut = f, tbudget = b\<rparr>, next'))"

definition yield_poll :: "bool \<Rightarrow> task_id \<Rightarrow> poll \<times> bool \<times> task_id list" where
  "yield_poll yielded self = (if yielded then (PollReady, yielded, []) else (PollPending, True, [self]))"

section \<open>Operations\<close>

definition executor_new :: "'f executor" where
  "executor_new = \<lparr>tasks = fmempty, ready = [], parked = [], polled = []\<rparr>"

text \<open>\<open>ReadyQueue::push\<close>, which is also what a waker does.\<close>

definition ready_push :: "'f executor \<Rightarrow> task_id \<Rightarrow> 'f executor" where
  "ready_push ex i = ex\<lparr>ready := push_back (ready ex) i\<rparr>"

definition spawn :: "'f executor \<Rightarrow> 'f task \<Rightarrow> task_id \<times> 'f executor" where
  "spawn ex t = (tid t, ready_push (ex\<lparr>tasks := fmupd (tid t) t (tasks ex)\<rparr>) (tid t))"

definition park :: "'f executor \<Rightarrow> task_id \<Rightarrow> 'f executor" where
  "park ex i = (if i \<in> set (parked ex) then ex else ex\<lparr>parked := parked ex @ [i]\<rparr>)"

type_synonym ('f, 'w) poll_fun = "'f \<Rightarrow> task_id \<Rightarrow> 'w \<Rightarrow> poll \<times> 'f \<times> task_id list \<times> 'w"

text \<open>One poll of the task \<open>t\<close> with id \<open>i\<close>: the body of the \<open>match\<close> in the run loop.\<close>

definition poll_task :: "('f, 'w) poll_fun \<Rightarrow> 'f executor \<Rightarrow> task_id \<Rightarrow> 'f task \<Rightarrow> 'w \<Rightarrow> 'f executor \<times> 'w" where
  "poll_task pollf ex i t w =
     (case pollf (fut t) i w of
        (r, f', woken, w') \<Rightarrow>
          (let ex1 = ex\<lparr>ready := ready ex @ woken, polled := polled ex @ [i]\<rparr> in
           (case r of
              PollReady \<Rightarrow> ex1\<lparr>tasks := fmdrop i (tasks ex1)\<rparr>
            | PollPending \<Rightarrow>
                ex1\<lparr>tasks := fmupd i (t\<lparr>fut := f', tbudget := charge (tbudget t) 1\<rparr>) (tasks ex1)\<rparr>, w')))"

definition left :: "'f task \<Rightarrow> nat" where
  "left t = unat (remaining (tbudget t))"

definition work :: "(task_id, 'f task) fmap \<Rightarrow> nat" where
  "work m = (\<Sum>i \<in> fset (fmdom m). Suc (left (the (fmlookup m i))))"

lemma work_upd:
  assumes "fmlookup m i = Some t"
  shows "work (fmupd i t' m) + Suc (left t) = work m + Suc (left t')"
    and "work (fmdrop i m) + Suc (left t) = work m"
proof -
  let ?g = "\<lambda>m i. Suc (left (the (fmlookup m i)))"
  have i: "i \<in> fset (fmdom m)" using assms by (simp add: fmlookup_dom_iff)
  have fin: "finite (fset (fmdom m))" by simp
  have m: "work m = ?g m i + (\<Sum>j \<in> fset (fmdom m) - {i}. ?g m j)"
    unfolding work_def by (rule sum.remove [OF fin i])
  have dom: "fset (fmdom (fmupd i t' m)) = fset (fmdom m)" using i by auto
  have "work (fmupd i t' m) = ?g (fmupd i t' m) i + (\<Sum>j \<in> fset (fmdom m) - {i}. ?g (fmupd i t' m) j)"
    unfolding work_def dom by (rule sum.remove [OF fin i])
  moreover have "(\<Sum>j \<in> fset (fmdom m) - {i}. ?g (fmupd i t' m) j) = (\<Sum>j \<in> fset (fmdom m) - {i}. ?g m j)"
    by (rule sum.cong) auto
  ultimately show "work (fmupd i t' m) + Suc (left t) = work m + Suc (left t')"
    using m assms by simp
  have "fset (fmdom (fmdrop i m)) = fset (fmdom m) - {i}" by auto
  then have "work (fmdrop i m) = (\<Sum>j \<in> fset (fmdom m) - {i}. ?g (fmdrop i m) j)"
    by (simp only: work_def)
  also have "\<dots> = (\<Sum>j \<in> fset (fmdom m) - {i}. ?g m j)"
    by (rule sum.cong) auto
  finally show "work (fmdrop i m) + Suc (left t) = work m" using m assms by simp
qed

lemma charge_left:
  assumes "\<not> is_depleted (tbudget t)"
  shows "left t = Suc (left (t\<lparr>fut := f, tbudget := charge (tbudget t) 1\<rparr>))"
proof -
  have lt: "unat (consumed (tbudget t)) < unat (capacity (tbudget t))"
    using assms by (simp add: is_depleted_def not_le word_less_nat_alt)
  have "unat (saturating_add (consumed (tbudget t)) 1) = Suc (unat (consumed (tbudget t)))"
    using lt unat_bound [of "capacity (tbudget t)"] by (simp add: unat_saturating_add)
  with lt show ?thesis
    by (simp add: left_def unat_remaining charge_def)
qed

lemma poll_task_work:
  assumes "fmlookup (tasks ex) i = Some t" "\<not> is_depleted (tbudget t)"
    "poll_task pollf (ex\<lparr>ready := rest\<rparr>) i t w = (ex', w')"
  shows "work (tasks ex') < work (tasks ex)"
proof -
  obtain r f' woken v where p: "pollf (fut t) i w = (r, f', woken, v)" by (metis prod_cases4)
  let ?t = "t\<lparr>fut := f', tbudget := charge (tbudget t) 1\<rparr>"
  have "work (fmupd i ?t (tasks ex)) < work (tasks ex)"
    using work_upd(1) [OF assms(1), of ?t] charge_left [OF assms(2), of f'] by simp
  moreover have "work (fmdrop i (tasks ex)) < work (tasks ex)"
    using work_upd(2) [OF assms(1)] by simp
  ultimately show ?thesis
    using assms(3) p by (cases r) (auto simp: poll_task_def Let_def)
qed

text \<open>The run loop.  It ends for every \<open>pollf\<close>: a poll uses up budget or removes a task, and every
  other pass shortens the ready queue.\<close>

function run_until_idle :: "('f, 'w) poll_fun \<Rightarrow> 'f executor \<Rightarrow> 'w \<Rightarrow> 'f executor \<times> 'w" where
  "run_until_idle pollf ex w =
     (case pop_front (ready ex) of
        None \<Rightarrow> (ex, w)
      | Some (i, rest) \<Rightarrow>
          (let ex1 = ex\<lparr>ready := rest\<rparr> in
           case fmlookup (tasks ex1) i of
             None \<Rightarrow> run_until_idle pollf ex1 w
           | Some t \<Rightarrow>
               if is_depleted (tbudget t) then run_until_idle pollf (park ex1 i) w
               else (case poll_task pollf ex1 i t w of (ex2, w') \<Rightarrow> run_until_idle pollf ex2 w')))"
  by pat_completeness auto
termination
proof (relation "measures [\<lambda>(pollf, ex, w). work (tasks ex), \<lambda>(pollf, ex, w). length (ready ex)]", goal_cases)
  case (2 pollf ex w x i rest ex1)
  then show ?case using vecdeque.pop_Some [of "ready ex" i rest] by simp
next
  case (3 pollf ex w x i rest ex1 t)
  then show ?case using vecdeque.pop_Some [of "ready ex" i rest] by (auto simp: park_def)
next
  case (4 pollf ex w x i rest ex1 t ex2 w')
  then have p: "poll_task pollf (ex\<lparr>ready := rest\<rparr>) i t w = (ex2, w')" by simp
  with 4 poll_task_work [of ex i t pollf rest w ex2 w'] show ?case by simp
qed simp

declare run_until_idle.simps [simp del]

lemma run_until_idle_eqs:
  "ready ex = [] \<Longrightarrow> run_until_idle pollf ex w = (ex, w)"
  "ready ex = i # rest \<Longrightarrow> fmlookup (tasks ex) i = None \<Longrightarrow>
     run_until_idle pollf ex w = run_until_idle pollf (ex\<lparr>ready := rest\<rparr>) w"
  "ready ex = i # rest \<Longrightarrow> fmlookup (tasks ex) i = Some t \<Longrightarrow> is_depleted (tbudget t) \<Longrightarrow>
     run_until_idle pollf ex w = run_until_idle pollf (park (ex\<lparr>ready := rest\<rparr>) i) w"
  "ready ex = i # rest \<Longrightarrow> fmlookup (tasks ex) i = Some t \<Longrightarrow> \<not> is_depleted (tbudget t) \<Longrightarrow>
     poll_task pollf (ex\<lparr>ready := rest\<rparr>) i t w = (ex2, w') \<Longrightarrow>
     run_until_idle pollf ex w = run_until_idle pollf ex2 w'"
  by (simp_all add: run_until_idle.simps [of pollf ex])

lemma run_until_idle_rule [case_names idle stale depleted polled]:
  assumes idle: "\<And>ex w. ready ex = [] \<Longrightarrow> P ex w"
    and stale: "\<And>ex w i rest. ready ex = i # rest \<Longrightarrow> fmlookup (tasks ex) i = None \<Longrightarrow>
      P (ex\<lparr>ready := rest\<rparr>) w \<Longrightarrow> P ex w"
    and depleted: "\<And>ex w i rest t. ready ex = i # rest \<Longrightarrow> fmlookup (tasks ex) i = Some t \<Longrightarrow>
      is_depleted (tbudget t) \<Longrightarrow> P (park (ex\<lparr>ready := rest\<rparr>) i) w \<Longrightarrow> P ex w"
    and polled: "\<And>ex w i rest t ex2 w'. ready ex = i # rest \<Longrightarrow> fmlookup (tasks ex) i = Some t \<Longrightarrow>
      \<not> is_depleted (tbudget t) \<Longrightarrow> poll_task pollf (ex\<lparr>ready := rest\<rparr>) i t w = (ex2, w') \<Longrightarrow>
      P ex2 w' \<Longrightarrow> P ex w"
  shows "P ex w"
proof (induction "(work (tasks ex), length (ready ex))" arbitrary: ex w
    rule: wf_induct_rule [OF wf_lex_prod [OF wf_less wf_less]])
  case (1 ex w)
  note IH = 1
  show ?case
  proof (cases "ready ex")
    case Nil
    then show ?thesis by (rule idle)
  next
    case (Cons i rest)
    show ?thesis
    proof (cases "fmlookup (tasks ex) i")
      case None
      then show ?thesis using Cons by (intro stale [OF Cons None] IH) simp
    next
      case t: (Some t)
      show ?thesis
      proof (cases "is_depleted (tbudget t)")
        case True
        then show ?thesis using Cons by (intro depleted [OF Cons t True] IH) (simp add: park_def)
      next
        case False
        obtain ex2 w' where p: "poll_task pollf (ex\<lparr>ready := rest\<rparr>) i t w = (ex2, w')" by fastforce
        have "P ex2 w'" using poll_task_work [OF t False p] by (intro IH) simp
        then show ?thesis by (rule polled [OF Cons t False p])
      qed
    qed
  qed
qed

definition ex_replenish :: "'f executor \<Rightarrow> 'f executor" where
  "ex_replenish ex =
     (let m = fmmap (\<lambda>t. t\<lparr>tbudget := replenish (tbudget t)\<rparr>) (tasks ex) in
      ex\<lparr>tasks := m, ready := ready ex @ filter (\<lambda>i. fmlookup m i \<noteq> None) (parked ex), parked := []\<rparr>)"

definition endpoint_wake :: "'f executor \<Rightarrow> task_id \<Rightarrow> 'f executor" where
  "endpoint_wake ex i = ready_push ex i"

definition task_count :: "'f executor \<Rightarrow> nat" where
  "task_count ex = card (fset (fmdom (tasks ex)))"

definition parked_count :: "'f executor \<Rightarrow> nat" where
  "parked_count ex = length (parked ex)"

section \<open>Budgets gate every poll\<close>

definition allowance :: "'f executor \<Rightarrow> task_id \<Rightarrow> nat" where
  "allowance ex i = (case fmlookup (tasks ex) i of None \<Rightarrow> 0 | Some t \<Rightarrow> left t)"

definition polls :: "task_id \<Rightarrow> 'f executor \<Rightarrow> nat" where
  "polls i ex = count_list (polled ex) i"

lemma poll_task_allowance:
  assumes t: "fmlookup (tasks ex) i = Some t" "\<not> is_depleted (tbudget t)"
    and p: "poll_task pollf (ex\<lparr>ready := rest\<rparr>) i t w = (ex', w')"
  shows "polls j ex' + allowance ex' j \<le> polls j ex + allowance ex j"
proof -
  obtain r f' woken v where q: "pollf (fut t) i w = (r, f', woken, v)" by (metis prod_cases4)
  have l: "left t = Suc (left (t\<lparr>fut := f', tbudget := charge (tbudget t) 1\<rparr>))"
    by (rule charge_left [OF t(2)])
  show ?thesis
    using p q t(1) l by (cases r) (auto simp: poll_task_def Let_def polls_def allowance_def)
qed

lemma run_allowance:
  "polls j (fst (run_until_idle pollf ex w)) + allowance (fst (run_until_idle pollf ex w)) j
     \<le> polls j ex + allowance ex j"
proof (induction ex w rule: run_until_idle_rule [of _ pollf])
  case (stale ex w i rest)
  then show ?case by (simp add: run_until_idle_eqs(2) polls_def allowance_def)
next
  case (depleted ex w i rest t)
  then show ?case by (auto simp: run_until_idle_eqs(3) polls_def allowance_def park_def split: if_splits)
next
  case (polled ex w i rest t ex2 w')
  then show ?case
    using poll_task_allowance [OF polled(2-4), of j] by (simp add: run_until_idle_eqs(4))
qed (simp add: run_until_idle_eqs(1))

lemma allowance_budget:
  "allowance ex i = (case fmlookup (tasks ex) i of None \<Rightarrow> 0
     | Some t \<Rightarrow> unat (capacity (tbudget t)) - unat (consumed (tbudget t)))"
  by (simp add: allowance_def left_def unat_remaining split: option.splits)

text \<open>
  (C18) Budgets gate execution.  Whatever the tasks' futures do, one \<open>run_until_idle\<close> polls each
  task at most as often as its bound \<open>Sched\<close> budget has units left in the period (so a task with
  no budget, and an id with no task, is never polled), and it always returns with an empty ready queue.
\<close>

theorem executor_budget_gate:
  "count_list (polled (fst (run_until_idle pollf ex w))) i
     \<le> count_list (polled ex) i + (case fmlookup (tasks ex) i of None \<Rightarrow> 0
         | Some t \<Rightarrow> unat (capacity (tbudget t)) - unat (consumed (tbudget t)))
   \<and> ready (fst (run_until_idle pollf ex w)) = []"
proof
  show "count_list (polled (fst (run_until_idle pollf ex w))) i
      \<le> count_list (polled ex) i + (case fmlookup (tasks ex) i of None \<Rightarrow> 0
         | Some t \<Rightarrow> unat (capacity (tbudget t)) - unat (consumed (tbudget t)))"
    using run_allowance [of i pollf ex w] allowance_budget [of ex i] by (simp add: polls_def)
  show "ready (fst (run_until_idle pollf ex w)) = []"
    by (induction ex w rule: run_until_idle_rule [of _ pollf]) (simp_all add: run_until_idle_eqs)
qed

section \<open>No ready task is forgotten\<close>

lemma run_parked_mono: "i \<in> set (parked ex) \<Longrightarrow> i \<in> set (parked (fst (run_until_idle pollf ex w)))"
proof (induction ex w rule: run_until_idle_rule [of _ pollf])
  case (polled ex w i rest t ex2 w')
  have "parked ex2 = parked ex"
    using polled(4) by (auto simp: poll_task_def Let_def split: prod.splits poll.splits)
  with polled show ?case by (simp add: run_until_idle_eqs(4))
qed (auto simp: run_until_idle_eqs park_def)

lemma run_polled_mono: "i \<in> set (polled ex) \<Longrightarrow> i \<in> set (polled (fst (run_until_idle pollf ex w)))"
proof (induction ex w rule: run_until_idle_rule [of _ pollf])
  case (polled ex w i rest t ex2 w')
  have "set (polled ex) \<subseteq> set (polled ex2)"
    using polled(4) by (auto simp: poll_task_def Let_def split: prod.splits poll.splits)
  with polled show ?case by (auto simp: run_until_idle_eqs(4))
qed (auto simp: run_until_idle_eqs park_def)

lemma run_serves_ready:
  assumes "i \<in> set (ready ex)" "fmlookup (tasks ex) i \<noteq> None" "i \<notin> set (polled ex)"
  shows "i \<in> set (polled (fst (run_until_idle pollf ex w)))
    \<or> i \<in> set (parked (fst (run_until_idle pollf ex w)))"
  using assms
proof (induction ex w rule: run_until_idle_rule [of _ pollf])
  case (stale ex w j rest)
  then show ?case by (auto simp: run_until_idle_eqs(2))
next
  case (depleted ex w j rest t)
  show ?case
  proof (cases "i = j")
    case True
    have "j \<in> set (parked (park (ex\<lparr>ready := rest\<rparr>) j))" by (simp add: park_def)
    with True depleted(1-3) show ?thesis by (simp add: run_until_idle_eqs(3) run_parked_mono)
  next
    case False
    with depleted show ?thesis by (auto simp: run_until_idle_eqs(3) park_def)
  qed
next
  case (polled ex w j rest t ex2 w')
  note e = run_until_idle_eqs(4) [OF polled(1-4)]
  obtain r f' woken v where q: "pollf (fut t) j w = (r, f', woken, v)" by (metis prod_cases4)
  show ?case
  proof (cases "i = j")
    case True
    have "j \<in> set (Sched_Executor.polled ex2)" using polled(4) q by (cases r) (auto simp: poll_task_def Let_def)
    with True show ?thesis by (simp add: e run_polled_mono)
  next
    case False
    have "i \<in> set (ready ex2)" "fmlookup (tasks ex2) i \<noteq> None" "i \<notin> set (Sched_Executor.polled ex2)"
      using polled(1,4,6-8) q False by (cases r; auto simp: poll_task_def Let_def)+
    with polled(5) show ?thesis by (simp add: e)
  qed
qed simp


text \<open>A concrete future for the witnesses: it yields \<open>n\<close> times and then completes.\<close>

fun yield_n :: "(nat, unit) poll_fun" where
  "yield_n 0 self w = (PollReady, 0, [], w)"
| "yield_n (Suc n) self w =
     (case yield_poll False self of (r, y, woken) \<Rightarrow> (r, n, woken, w))"


end
