(* ===== verification/Mem_Retype.thy ===== *)
theory Mem_Retype
  imports Prelude
begin

text \<open>
  Physical frames, \<^verbatim>\<open>src/mem/src/frame.rs\<close>, and the untyped-region accounting of
  \<^verbatim>\<open>src/mem/src/retype.rs\<close>: a bump allocator whose only reclamation is a reset of the whole region.
\<close>

definition PAGE_SIZE :: u64 where "PAGE_SIZE = 4096"
definition PAGE_SHIFT :: nat where "PAGE_SHIFT = 12"

type_synonym pfn = u32

definition PFN_NIL :: pfn where "PFN_NIL = - 1"

definition pfn_to_phys :: "pfn \<Rightarrow> u64" where
  "pfn_to_phys p = push_bit PAGE_SHIFT (ucast p)"

definition phys_to_pfn :: "u64 \<Rightarrow> pfn" where
  "phys_to_pfn a = ucast (drop_bit PAGE_SHIFT a)"

lemma phys_to_pfn_to_phys: "phys_to_pfn (pfn_to_phys p) = p"
  unfolding phys_to_pfn_def pfn_to_phys_def PAGE_SHIFT_def
  by (rule bit_word_eqI) (auto simp: bit_unsigned_iff bit_drop_bit_eq bit_push_bit_iff dest: bit_imp_le_length)

record untyped =
  ubase :: pfn
  uframes :: pfn
  uwatermark :: pfn

definition untyped_new :: "pfn \<Rightarrow> pfn \<Rightarrow> untyped" where
  "untyped_new b n = \<lparr>ubase = b, uframes = n, uwatermark = 0\<rparr>"

definition untyped_base :: "untyped \<Rightarrow> pfn" where "untyped_base u = ubase u"
definition untyped_frames :: "untyped \<Rightarrow> pfn" where "untyped_frames u = uframes u"
definition untyped_used :: "untyped \<Rightarrow> pfn" where "untyped_used u = uwatermark u"

definition untyped_remaining :: "untyped \<Rightarrow> pfn option" where
  "untyped_remaining u = checked_sub (uframes u) (uwatermark u)"

text \<open>\<open>retype\<close>: \<open>Ok None\<close> and \<open>Ok (Some start)\<close> are the source's \<open>None\<close> and \<open>Some\<close>; \<open>Panic\<close> a trap.\<close>

definition untyped_retype :: "untyped \<Rightarrow> pfn \<Rightarrow> pfn \<Rightarrow> (unit, pfn option) outcome \<times> untyped" where
  "untyped_retype u fpo count =
     (case checked_mul fpo count of
        None \<Rightarrow> (Ok None, u)
      | Some need \<Rightarrow>
          (case untyped_remaining u of
             None \<Rightarrow> (Panic, u)
           | Some avail \<Rightarrow>
               if avail < need then (Ok None, u)
               else (case checked_add (ubase u) (uwatermark u) of
                       None \<Rightarrow> (Panic, u)
                     | Some start \<Rightarrow>
                         (case checked_add (uwatermark u) need of
                            None \<Rightarrow> (Panic, u)
                          | Some wm \<Rightarrow> (Ok (Some start), u\<lparr>uwatermark := wm\<rparr>)))))"

definition untyped_reset :: "untyped \<Rightarrow> untyped" where
  "untyped_reset u = u\<lparr>uwatermark := 0\<rparr>"

text \<open>The region lies below the top of the frame space and is not over-used.\<close>

definition untyped_ok :: "untyped \<Rightarrow> bool" where
  "untyped_ok u \<longleftrightarrow> unat (ubase u) + unat (uframes u) < 2 ^ 32 \<and> uwatermark u \<le> uframes u"

lemma untyped_retype_eq:
  assumes "untyped_ok u"
  shows "untyped_retype u fpo count =
    (if unat (uwatermark u) + unat fpo * unat count \<le> unat (uframes u)
     then (Ok (Some (ubase u + uwatermark u)), u\<lparr>uwatermark := uwatermark u + fpo * count\<rparr>)
     else (Ok None, u))"
proof -
  have le: "unat (uwatermark u) \<le> unat (uframes u)" and top: "unat (ubase u) + unat (uframes u) < 2 ^ 32"
    using assms by (auto simp: untyped_ok_def word_le_nat_alt)
  have rem: "untyped_remaining u = Some (uframes u - uwatermark u)"
    using assms by (simp add: untyped_remaining_def checked_sub_def untyped_ok_def)
  have sub: "unat (uframes u - uwatermark u) = unat (uframes u) - unat (uwatermark u)"
    using assms by (simp add: unat_sub untyped_ok_def)
  have st: "checked_add (ubase u) (uwatermark u) = Some (ubase u + uwatermark u)"
    using le top by (simp add: checked_add_def)
  show ?thesis
  proof (cases "unat fpo * unat count < 2 ^ 32")
    case False
    then have "checked_mul fpo count = None" by (simp add: checked_mul_def)
    with False unat_bound [of "uframes u"] show ?thesis
      by (auto simp: untyped_retype_def simp del: unsigned_less)
  next
    case True
    then have m: "checked_mul fpo count = Some (fpo * count)" and n: "unat (fpo * count) = unat fpo * unat count"
      by (simp_all add: checked_mul_def unat_word_ariths)
    have w: "checked_add (uwatermark u) (fpo * count) = Some (uwatermark u + fpo * count)"
      if "unat (uwatermark u) + unat fpo * unat count \<le> unat (uframes u)"
      using that n unat_bound [of "uframes u"] by (auto simp: checked_add_def simp del: unsigned_less)
    show ?thesis
      using m n rem sub st w le
      by (auto simp: untyped_retype_def word_less_nat_alt)
  qed
qed

section \<open>Runs\<close>

datatype ut_op = URetype pfn pfn | UReset

fun ut_step :: "ut_op \<Rightarrow> untyped \<Rightarrow> untyped" where
  "ut_step (URetype f c) u = snd (untyped_retype u f c)"
| "ut_step UReset u = untyped_reset u"

text \<open>The frame ranges (start, length) handed out since the last reset.\<close>

fun ut_live :: "(nat \<times> nat) list \<Rightarrow> ut_op list \<Rightarrow> untyped \<Rightarrow> (nat \<times> nat) list" where
  "ut_live acc [] u = acc"
| "ut_live acc (UReset # ops) u = ut_live [] ops (untyped_reset u)"
| "ut_live acc (URetype f c # ops) u =
     ut_live (case fst (untyped_retype u f c) of
                Ok (Some s) \<Rightarrow> acc @ [(unat s, unat f * unat c)] | _ \<Rightarrow> acc)
       ops (snd (untyped_retype u f c))"

definition ranges_ok :: "untyped \<Rightarrow> (nat \<times> nat) list \<Rightarrow> bool" where
  "ranges_ok u rs \<longleftrightarrow>
     sorted_wrt (\<lambda>(s, n) (s', n'). s + n \<le> s') rs
     \<and> (\<forall>(s, n) \<in> set rs. unat (ubase u) \<le> s \<and> s + n \<le> unat (ubase u) + unat (uwatermark u))"

lemma ut_step_ok: "untyped_ok u \<Longrightarrow> untyped_ok (ut_step op u)"
proof (cases op)
  case (URetype f c)
  assume u: "untyped_ok u"
  show ?thesis
  proof (cases "unat (uwatermark u) + unat f * unat c \<le> unat (uframes u)")
    case True
    then have "unat (uwatermark u + f * c) = unat (uwatermark u) + unat f * unat c"
      using unat_bound [of "uframes u"] by (auto simp: unat_word_ariths simp del: unsigned_less)
    with True u URetype show ?thesis
      by (simp add: untyped_retype_eq untyped_ok_def word_le_nat_alt)
  qed (use u URetype in \<open>simp add: untyped_retype_eq\<close>)
qed (simp add: untyped_reset_def untyped_ok_def)

interpretation untyped_machine: guarded_machine ut_step "\<lambda>_ _. True" untyped_ok
  by unfold_locales (rule ut_step_ok)

lemma ut_live_ok:
  "untyped_ok u \<Longrightarrow> ranges_ok u rs \<Longrightarrow> ranges_ok (run_ops ut_step ops u) (ut_live rs ops u)"
proof (induction ops arbitrary: u rs)
  case (Cons op ops)
  note ok = ut_step_ok [OF Cons.prems(1), of op]
  show ?case
  proof (cases op)
    case UReset
    have "ranges_ok (untyped_reset u) []" by (simp add: ranges_ok_def)
    with Cons.IH UReset ok show ?thesis by simp
  next
    case (URetype f c)
    show ?thesis
    proof (cases "unat (uwatermark u) + unat f * unat c \<le> unat (uframes u)")
      case False
      with URetype Cons show ?thesis by (simp add: untyped_retype_eq)
    next
      case True
      have w: "unat (uwatermark u + f * c) = unat (uwatermark u) + unat f * unat c"
        using True unat_bound [of "uframes u"] by (auto simp: unat_word_ariths simp del: unsigned_less)
      have s: "unat (ubase u + uwatermark u) = unat (ubase u) + unat (uwatermark u)"
        using Cons.prems(1) by (auto simp: untyped_ok_def unat_word_ariths word_le_nat_alt)
      have "ranges_ok (u\<lparr>uwatermark := uwatermark u + f * c\<rparr>)
          (rs @ [(unat (ubase u + uwatermark u), unat f * unat c)])"
        using Cons.prems(2) w s by (fastforce simp: ranges_ok_def sorted_wrt_append)
      with Cons.IH URetype True ok Cons.prems(1) show ?thesis by (simp add: untyped_retype_eq)
    qed
  qed
qed simp

text \<open>
  (C20) The untyped bump allocator.  Over any sequence of retypes and resets on a region below the
  top of the frame space, no call traps, and the ranges handed out since the last reset are
  disjoint, in increasing order, and inside the used part of the region.
\<close>

theorem untyped_ranges_disjoint:
  assumes "untyped_ok u" "uwatermark u = 0"
  shows "untyped_ok (run_ops ut_step ops u) \<and> ranges_ok (run_ops ut_step ops u) (ut_live [] ops u)
    \<and> fst (untyped_retype (run_ops ut_step ops u) f c) \<noteq> Panic"
proof -
  have ok: "untyped_ok (run_ops ut_step ops u)"
    by (rule untyped_machine.run_inv [OF assms(1) pre_ops_True])
  moreover have "ranges_ok (run_ops ut_step ops u) (ut_live [] ops u)"
    by (rule ut_live_ok [OF assms(1)]) (simp add: ranges_ok_def)
  ultimately show ?thesis by (simp add: untyped_retype_eq)
qed

theorem untyped_ranges_disjoint_witness:
  "ranges_ok (run_ops ut_step [URetype 1 4, URetype 2 2] (untyped_new 100 10))
     (ut_live [] [URetype 1 4, URetype 2 2] (untyped_new 100 10))
   \<and> ut_live [] [URetype 1 4, URetype 2 2] (untyped_new 100 10) = [(100, 4), (104, 4)]"
proof -
  have ok: "untyped_ok (untyped_new 100 10)" "uwatermark (untyped_new 100 10) = 0"
    by (simp_all add: untyped_ok_def untyped_new_def)
  have "ut_live [] [URetype 1 4, URetype 2 2] (untyped_new 100 10) = [(100, 4), (104, 4)]"
    by code_simp
  with untyped_ranges_disjoint [OF ok, of "[URetype 1 4, URetype 2 2]"] show ?thesis by simp
qed

end
