(* ===== verification/Bytes.thy ===== *)
theory Bytes
  imports Prelude
begin

text \<open>
  Byte buffers: little-endian encoding of unsigned integers (both targets are little-endian, so
  this is also the native order), and reading and writing a run of bytes at an offset, where
  \<open>None\<close> is the slice-index trap.  The locale \<open>field_codec\<close> is the interface between a record
  field and its bytes: whatever codec satisfies it, a field read back after it was written is the
  value written, and writes to other places do not disturb it.
\<close>

type_synonym bytes = "u8 list"

fun le_enc :: "nat \<Rightarrow> nat \<Rightarrow> bytes" where
  "le_enc 0 v = []"
| "le_enc (Suc n) v = of_nat (v mod 256) # le_enc n (v div 256)"

fun le_dec :: "bytes \<Rightarrow> nat" where
  "le_dec [] = 0"
| "le_dec (b # bs) = unat b + 256 * le_dec bs"

definition get_bytes :: "bytes \<Rightarrow> nat \<Rightarrow> nat \<Rightarrow> bytes option" where
  "get_bytes m off n = (if off + n \<le> length m then Some (take n (drop off m)) else None)"

definition put_bytes :: "bytes \<Rightarrow> nat \<Rightarrow> bytes \<Rightarrow> bytes option" where
  "put_bytes m off bs =
     (if off + length bs \<le> length m then Some (take off m @ bs @ drop (off + length bs) m) else None)"

lemma length_le_enc [simp]: "length (le_enc n v) = n"
  by (induction n arbitrary: v) simp_all

lemma le_dec_enc: "le_dec (le_enc n v) = v mod 256 ^ n"
proof (induction n arbitrary: v)
  case (Suc n)
  have "unat (of_nat (v mod 256) :: u8) = v mod 256"
    by (simp add: unat_of_nat)
  with Suc show ?case
    by (simp add: mod_mult2_eq [of v 256 "256 ^ n"])
qed simp

lemma le_dec_enc_small: "v < 256 ^ n \<Longrightarrow> le_dec (le_enc n v) = v"
  by (simp add: le_dec_enc)

lemma le_dec_bound: "le_dec bs < 256 ^ length bs"
proof (induction bs)
  case (Cons b bs)
  have "unat b < 256" using unat_bound [of b] by simp
  with Cons show ?case by simp
qed simp

lemma le_enc_dec: "le_enc (length bs) (le_dec bs) = bs"
proof (induction bs)
  case (Cons b bs)
  have "unat b < 256" using unat_bound [of b] by simp
  with Cons show ?case by simp
qed simp

lemma put_bytes_length: "put_bytes m off bs = Some m' \<Longrightarrow> length m' = length m"
  by (auto simp: put_bytes_def split: if_splits)

lemma get_put_same:
  "put_bytes m off bs = Some m' \<Longrightarrow> get_bytes m' off (length bs) = Some bs"
  by (auto simp: put_bytes_def get_bytes_def split: if_splits)

lemma nth_put:
  assumes "put_bytes m off bs = Some m'" "i < length m"
  shows "m' ! i = (if off \<le> i \<and> i < off + length bs then bs ! (i - off) else m ! i)"
  using assms by (auto simp: put_bytes_def nth_append split: if_splits)

lemma get_bytes_cong:
  assumes "length m' = length m" "\<And>i. off \<le> i \<Longrightarrow> i < off + n \<Longrightarrow> i < length m \<Longrightarrow> m' ! i = m ! i"
  shows "get_bytes m' off n = get_bytes m off n"
  using assms by (auto simp: get_bytes_def intro!: nth_equalityI)

lemma get_put_other:
  assumes "put_bytes m off bs = Some m'" "off' + n \<le> off \<or> off + length bs \<le> off'"
  shows "get_bytes m' off' n = get_bytes m off' n"
  by (rule get_bytes_cong) (use assms put_bytes_length nth_put [OF assms(1)] in auto)

locale field_codec =
  fixes enc :: "'v \<Rightarrow> bytes"
    and dec :: "bytes \<Rightarrow> 'v"
    and len :: nat
  assumes length_enc: "length (enc v) = len"
    and dec_enc: "dec (enc v) = v"
begin

lemma get_after_put:
  "put_bytes m off (enc v) = Some m' \<Longrightarrow> map_option dec (get_bytes m' off len) = Some v"
  using get_put_same [of m off "enc v" m'] by (simp add: length_enc dec_enc)

lemma get_other_put:
  assumes "put_bytes m off (enc v) = Some m'" "off' + n \<le> off \<or> off + len \<le> off'"
  shows "get_bytes m' off' n = get_bytes m off' n"
  using get_put_other [OF assms(1)] assms(2) by (simp add: length_enc)

lemma enc_inj: "enc v = enc w \<Longrightarrow> v = w"
  by (metis dec_enc)

end

text \<open>The fixed-width words of the ABI.\<close>

definition word_enc :: "nat \<Rightarrow> 'a::len word \<Rightarrow> bytes" where
  "word_enc n w = le_enc n (unat w)"

definition word_dec :: "bytes \<Rightarrow> 'a::len word" where
  "word_dec bs = of_nat (le_dec bs)"

lemma word_dec_enc: "LENGTH('a) = 8 * n \<Longrightarrow> word_dec (word_enc n w) = w" for w :: "'a::len word"
proof -
  assume l: "LENGTH('a) = 8 * n"
  have "(256 :: nat) ^ n = 2 ^ LENGTH('a)" by (simp add: l power_mult)
  then have "le_dec (le_enc n (unat w)) = unat w"
    using unat_bound [of w] by (simp add: le_dec_enc)
  then show ?thesis by (simp add: word_dec_def word_enc_def)
qed

interpretation u16_field: field_codec "word_enc 2 :: u16 \<Rightarrow> bytes" word_dec 2
  by unfold_locales (simp_all add: word_enc_def word_dec_enc [unfolded word_enc_def])

interpretation u32_field: field_codec "word_enc 4 :: u32 \<Rightarrow> bytes" word_dec 4
  by unfold_locales (simp_all add: word_enc_def word_dec_enc [unfolded word_enc_def])

interpretation u64_field: field_codec "word_enc 8 :: u64 \<Rightarrow> bytes" word_dec 8
  by unfold_locales (simp_all add: word_enc_def word_dec_enc [unfolded word_enc_def])

end
