(* ===== verification/Mem_Slab.thy ===== *)
theory Mem_Slab
  imports Bytes
begin

text \<open>
  The slab cache, \<^verbatim>\<open>src/mem/src/slab.rs\<close>: fixed-size slots in a byte region, with the free list
  threaded through the free slots' own bytes.  The cache record and the region are passed and
  returned explicitly; \<open>None\<close> is a trap (slice index, overflow).  The invariant \<open>slab_inv\<close> follows
  the chain in memory and abstracts it to the list of free offsets, which refines the
  \<open>object_pool\<close> interface: no slot is handed out twice and none is lost.
\<close>

section \<open>The interface of an object pool\<close>

locale object_pool =
  fixes alloc :: "'s \<Rightarrow> ('o option \<times> 's) option"
    and free :: "'s \<Rightarrow> 'o \<Rightarrow> 's option"
    and avail :: "'s \<Rightarrow> 'o set"
    and universe :: "'s \<Rightarrow> 'o set"
    and inv :: "'s \<Rightarrow> bool"
  assumes avail_subset: "inv s \<Longrightarrow> avail s \<subseteq> universe s"
    and alloc_total: "inv s \<Longrightarrow> alloc s \<noteq> None"
    and alloc_None: "inv s \<Longrightarrow> alloc s = Some (None, s') \<Longrightarrow> s' = s \<and> avail s = {}"
    and alloc_Some: "inv s \<Longrightarrow> alloc s = Some (Some x, s') \<Longrightarrow>
      inv s' \<and> universe s' = universe s \<and> x \<in> avail s \<and> avail s' = avail s - {x}"
    and free_ok: "inv s \<Longrightarrow> x \<in> universe s - avail s \<Longrightarrow>
      \<exists>s'. free s x = Some s' \<and> inv s' \<and> universe s' = universe s \<and> avail s' = insert x (avail s)"
begin

text \<open>The objects in use never overlap the free ones: what \<open>alloc\<close> returns was not in use, and
  returning it makes it available again.\<close>

lemma alloc_fresh:
  assumes "inv s" "alloc s = Some (Some x, s')"
  shows "x \<notin> universe s - avail s" and "universe s' - avail s' = insert x (universe s - avail s)"
  using alloc_Some [OF assms] avail_subset [OF assms(1)] by auto

lemma alloc_free:
  assumes "inv s" "alloc s = Some (Some x, s')"
  shows "\<exists>s''. free s' x = Some s'' \<and> inv s'' \<and> avail s'' = avail s \<and> universe s'' = universe s"
proof -
  have "x \<in> universe s' - avail s'"
    using alloc_Some [OF assms] avail_subset [OF assms(1)] by auto
  from free_ok [OF _ this] show ?thesis
    using alloc_Some [OF assms] by auto
qed

lemma alloc_succeeds: "inv s \<Longrightarrow> avail s \<noteq> {} \<Longrightarrow> \<exists>x s'. alloc s = Some (Some x, s')"
  using alloc_total [of s] alloc_None [of s] by (metis option.exhaust surj_pair)

end

section \<open>The slab cache\<close>

definition NIL_OFF :: usize where "NIL_OFF = usize_max"

definition USIZE_BYTES :: nat where "USIZE_BYTES = 8"

record slab_cache =
  slot_size :: usize
  capacity :: usize
  free_head :: usize
  free_count :: usize

text \<open>\<open>(x + align - 1) & !(align - 1)\<close> on 64-bit words; \<open>None\<close> when the sum overflows.\<close>

definition round_up :: "usize \<Rightarrow> usize \<Rightarrow> usize option" where
  "round_up x align =
     (case checked_add_usize x align of
        None \<Rightarrow> None
      | Some s \<Rightarrow> Some (unat ((of_nat (s - 1) :: u64) AND NOT (of_nat (align - 1)))))"

definition slab_new :: "usize \<Rightarrow> usize \<Rightarrow> usize \<Rightarrow> slab_cache option" where
  "slab_new obj_size align region_len =
     (case round_up (max obj_size USIZE_BYTES) (max align USIZE_BYTES) of
        None \<Rightarrow> None
      | Some ss \<Rightarrow>
          Some \<lparr>slot_size = ss, capacity = (if ss = 0 then 0 else region_len div ss),
                free_head = NIL_OFF, free_count = 0\<rparr>)"

definition slab_slot_size :: "slab_cache \<Rightarrow> usize" where "slab_slot_size c = slot_size c"
definition slab_capacity :: "slab_cache \<Rightarrow> usize" where "slab_capacity c = capacity c"
definition slab_free_count :: "slab_cache \<Rightarrow> usize" where "slab_free_count c = free_count c"

definition write_link :: "bytes \<Rightarrow> usize \<Rightarrow> usize \<Rightarrow> bytes option" where
  "write_link m off val = put_bytes m off (le_enc USIZE_BYTES val)"

definition read_link :: "bytes \<Rightarrow> usize \<Rightarrow> usize option" where
  "read_link m off = map_option le_dec (get_bytes m off USIZE_BYTES)"

text \<open>The loop of \<open>init\<close> over the remaining slot numbers.\<close>

fun slab_init_loop :: "usize list \<Rightarrow> slab_cache \<Rightarrow> bytes \<Rightarrow> (slab_cache \<times> bytes) option" where
  "slab_init_loop [] c m = Some (c, m)"
| "slab_init_loop (i # is) c m =
     (case checked_mul_usize i (slot_size c) of
        None \<Rightarrow> None
      | Some off \<Rightarrow>
          (case write_link m off (free_head c) of
             None \<Rightarrow> None
           | Some m' \<Rightarrow>
               slab_init_loop is (c\<lparr>free_head := off, free_count := free_count c + 1\<rparr>) m'))"

definition slab_init :: "slab_cache \<Rightarrow> bytes \<Rightarrow> (slab_cache \<times> bytes) option" where
  "slab_init c m = slab_init_loop (rev [0..<capacity c]) (c\<lparr>free_head := NIL_OFF, free_count := 0\<rparr>) m"

definition slab_alloc :: "slab_cache \<Rightarrow> bytes \<Rightarrow> (usize option \<times> slab_cache) option" where
  "slab_alloc c m =
     (if free_head c = NIL_OFF then Some (None, c)
      else (case read_link m (free_head c) of
              None \<Rightarrow> None
            | Some nxt \<Rightarrow>
                if free_count c = 0 then None
                else Some (Some (free_head c), c\<lparr>free_head := nxt, free_count := free_count c - 1\<rparr>)))"

definition slab_free :: "slab_cache \<Rightarrow> bytes \<Rightarrow> usize \<Rightarrow> (slab_cache \<times> bytes) option" where
  "slab_free c m off =
     (case write_link m off (free_head c) of
        None \<Rightarrow> None
      | Some m' \<Rightarrow>
          (case checked_add_usize (free_count c) 1 of
             None \<Rightarrow> None
           | Some n \<Rightarrow> Some (c\<lparr>free_head := off, free_count := n\<rparr>, m')))"

section \<open>The free list in memory\<close>

fun chain :: "bytes \<Rightarrow> usize \<Rightarrow> usize list \<Rightarrow> bool" where
  "chain m h [] \<longleftrightarrow> h = NIL_OFF"
| "chain m h (x # xs) \<longleftrightarrow> h = x \<and> (\<exists>n. read_link m x = Some n \<and> chain m n xs)"

definition slots_of :: "slab_cache \<Rightarrow> usize set" where
  "slots_of c = {i * slot_size c | i. i < capacity c}"

definition slab_ok :: "slab_cache \<Rightarrow> bytes \<Rightarrow> usize list \<Rightarrow> bool" where
  "slab_ok c m fl \<longleftrightarrow> USIZE_BYTES \<le> slot_size c \<and> capacity c * slot_size c \<le> length m
     \<and> length m \<le> usize_max \<and> chain m (free_head c) fl \<and> distinct fl \<and> set fl \<subseteq> slots_of c
     \<and> free_count c = length fl"

lemma chain_unique: "chain m h xs \<Longrightarrow> chain m h ys \<Longrightarrow> NIL_OFF \<notin> set xs \<Longrightarrow> NIL_OFF \<notin> set ys \<Longrightarrow> xs = ys"
proof (induction xs arbitrary: h ys)
  case Nil
  then show ?case by (cases ys) auto
next
  case (Cons x xs)
  then show ?case by (cases ys) auto
qed

lemma slot_bounds:
  assumes "x \<in> slots_of c" "capacity c * slot_size c \<le> length m"
  shows "x + slot_size c \<le> length m" and "slot_size c dvd x"
proof -
  from assms obtain i where i: "x = i * slot_size c" "i < capacity c" by (auto simp: slots_of_def)
  have "Suc i * slot_size c \<le> capacity c * slot_size c" using i by (intro mult_le_mono1) simp
  with i assms show "x + slot_size c \<le> length m" "slot_size c dvd x" by auto
qed

lemma slots_disjoint:
  assumes "x \<in> slots_of c" "y \<in> slots_of c" "x \<noteq> y"
  shows "x + slot_size c \<le> y \<or> y + slot_size c \<le> x"
proof -
  from assms obtain i j where ij: "x = i * slot_size c" "y = j * slot_size c" by (auto simp: slots_of_def)
  then consider "Suc i \<le> j" | "Suc j \<le> i" using assms(3) by (metis nat_neq_iff Suc_leI)
  then show ?thesis
  proof cases
    case 1
    then have "Suc i * slot_size c \<le> j * slot_size c" by (rule mult_le_mono1)
    with ij show ?thesis by simp
  next
    case 2
    then have "Suc j * slot_size c \<le> i * slot_size c" by (rule mult_le_mono1)
    with ij show ?thesis by simp
  qed
qed

lemma slot_not_NIL:
  "slab_ok c m fl \<Longrightarrow> x \<in> slots_of c \<Longrightarrow> x \<noteq> NIL_OFF"
  using slot_bounds(1) [of x c m] by (auto simp: slab_ok_def NIL_OFF_def USIZE_BYTES_def)

lemma write_link_total: "off + USIZE_BYTES \<le> length m \<Longrightarrow> \<exists>m'. write_link m off v = Some m'"
  by (simp add: write_link_def put_bytes_def)

lemma read_write_link:
  assumes "write_link m off v = Some m'"
  shows "v \<le> usize_max \<Longrightarrow> read_link m' off = Some v"
    and "off' + USIZE_BYTES \<le> off \<or> off + USIZE_BYTES \<le> off' \<Longrightarrow> read_link m' off' = read_link m off'"
    and "length m' = length m"
proof -
  have p: "put_bytes m off (le_enc USIZE_BYTES v) = Some m'" using assms by (simp add: write_link_def)
  show "read_link m' off = Some v" if "v \<le> usize_max"
  proof -
    have "v < 256 ^ USIZE_BYTES" using that by (simp add: usize_max_def USIZE_BYTES_def)
    then show ?thesis using get_put_same [OF p] by (simp add: read_link_def le_dec_enc_small)
  qed
  show "read_link m' off' = read_link m off'" if "off' + USIZE_BYTES \<le> off \<or> off + USIZE_BYTES \<le> off'"
    using get_put_other [OF p, of off' USIZE_BYTES] that by (simp add: read_link_def)
  show "length m' = length m" by (rule put_bytes_length [OF p])
qed

lemma chain_cong:
  "(\<And>x. x \<in> set xs \<Longrightarrow> read_link m' x = read_link m x) \<Longrightarrow> chain m' h xs = chain m h xs"
  by (induction xs arbitrary: h) auto

text \<open>Writing a free slot's link, or anything inside slots in use, keeps the rest of the chain.\<close>

lemma slab_ok_push:
  assumes ok: "slab_ok c m fl" and x: "x \<in> slots_of c - set fl"
    and w: "write_link m x (free_head c) = Some m'"
  shows "slab_ok (c\<lparr>free_head := x, free_count := Suc (free_count c)\<rparr>) m' (x # fl)"
proof -
  have "read_link m' y = read_link m y" if "y \<in> set fl" for y
  proof (rule read_write_link(2) [OF w])
    have "y \<in> slots_of c" "y \<noteq> x" using ok x that by (auto simp: slab_ok_def)
    with slots_disjoint [of y c x] x ok show "y + USIZE_BYTES \<le> x \<or> x + USIZE_BYTES \<le> y"
      by (auto simp: slab_ok_def)
  qed
  then have "chain m' (free_head c) fl" using ok chain_cong [of fl m' m "free_head c"] by (simp add: slab_ok_def)
  moreover have "free_head c \<le> usize_max"
  proof (cases fl)
    case Nil
    then show ?thesis using ok by (simp add: slab_ok_def NIL_OFF_def)
  next
    case (Cons y ys)
    then have "free_head c \<in> slots_of c" using ok by (simp add: slab_ok_def)
    then show ?thesis using slot_bounds(1) [of "free_head c" c m] ok by (simp add: slab_ok_def)
  qed
  ultimately show ?thesis
    using ok x read_write_link(1,3) [OF w] by (simp add: slab_ok_def slots_of_def)
qed

lemma slab_ok_client_write:
  assumes ok: "slab_ok c m fl" and len: "length m' = length m"
    and same: "\<And>x i. x \<in> set fl \<Longrightarrow> x \<le> i \<Longrightarrow> i < x + USIZE_BYTES \<Longrightarrow> m' ! i = m ! i"
  shows "slab_ok c m' fl"
proof -
  have "read_link m' x = read_link m x" if "x \<in> set fl" for x
    using get_bytes_cong [OF len, of x USIZE_BYTES] same [OF that] by (simp add: read_link_def)
  then have "chain m' (free_head c) fl" using ok chain_cong [of fl m' m "free_head c"] by (simp add: slab_ok_def)
  with ok len show ?thesis by (simp add: slab_ok_def)
qed

lemma slab_init_loop_ok:
  assumes "slab_ok c m fl" "i \<le> capacity c" "set fl = {j * slot_size c | j. i \<le> j \<and> j < capacity c}"
  shows "\<exists>c' m' fl'. slab_init_loop (rev [0..<i]) c m = Some (c', m') \<and> slab_ok c' m' fl'
    \<and> set fl' = slots_of c \<and> slot_size c' = slot_size c \<and> capacity c' = capacity c"
  using assms
proof (induction i arbitrary: c m fl)
  case 0
  then show ?case by (auto simp: slots_of_def)
next
  case (Suc i)
  let ?x = "i * slot_size c"
  have x: "?x \<in> slots_of c" using Suc.prems by (auto simp: slots_of_def)
  have "?x \<notin> set fl"
  proof
    assume "?x \<in> set fl"
    then obtain j where "i * slot_size c = j * slot_size c" "Suc i \<le> j" using Suc.prems(3) by auto
    moreover have "0 < slot_size c" using Suc.prems(1) by (simp add: slab_ok_def USIZE_BYTES_def)
    ultimately show False by simp
  qed
  then have xs: "?x \<in> slots_of c - set fl" using x by simp
  have b: "?x + slot_size c \<le> length m" "length m \<le> usize_max" "USIZE_BYTES \<le> slot_size c"
    using slot_bounds(1) [OF x] Suc.prems(1) by (auto simp: slab_ok_def)
  obtain m1 where w: "write_link m ?x (free_head c) = Some m1"
    using write_link_total [of ?x m] b by auto
  let ?c1 = "c\<lparr>free_head := ?x, free_count := Suc (free_count c)\<rparr>"
  have "set (?x # fl) = {j * slot_size ?c1 | j. i \<le> j \<and> j < capacity ?c1}"
    using Suc.prems(2,3) by (auto simp: Suc_le_eq le_eq_less_or_eq)
  from Suc.IH [OF slab_ok_push [OF Suc.prems(1) xs w] _ this] Suc.prems(2)
  obtain c' m' fl' where "slab_init_loop (rev [0..<i]) ?c1 m1 = Some (c', m')" "slab_ok c' m' fl'"
    "set fl' = slots_of ?c1" "slot_size c' = slot_size c" "capacity c' = capacity c" by auto
  moreover have "checked_mul_usize i (slot_size c) = Some ?x"
    using b by (simp add: checked_mul_usize_def)
  ultimately show ?case
    using w by (auto simp: slots_of_def)
qed

lemma slab_init_ok:
  assumes "USIZE_BYTES \<le> slot_size c" "capacity c * slot_size c \<le> length m" "length m \<le> usize_max"
  shows "\<exists>c' m' fl. slab_init c m = Some (c', m') \<and> slab_ok c' m' fl \<and> set fl = slots_of c
    \<and> slot_size c' = slot_size c \<and> capacity c' = capacity c"
proof -
  have "slab_ok (c\<lparr>free_head := NIL_OFF, free_count := 0\<rparr>) m []"
    using assms by (simp add: slab_ok_def)
  from slab_init_loop_ok [OF this order_refl] show ?thesis
    by (auto simp: slab_init_def slots_of_def)
qed

lemma slab_alloc_ok:
  assumes ok: "slab_ok c m fl"
  shows "case fl of
      [] \<Rightarrow> slab_alloc c m = Some (None, c)
    | x # xs \<Rightarrow> \<exists>c'. slab_alloc c m = Some (Some x, c') \<and> slab_ok c' m xs
        \<and> slot_size c' = slot_size c \<and> capacity c' = capacity c"
proof (cases fl)
  case Nil
  with ok show ?thesis by (simp add: slab_alloc_def slab_ok_def)
next
  case (Cons x xs)
  then obtain n where n: "free_head c = x" "read_link m x = Some n" "chain m n xs"
    using ok by (auto simp: slab_ok_def)
  have "x \<noteq> NIL_OFF" using slot_not_NIL [OF ok] ok Cons by (auto simp: slab_ok_def)
  with n ok Cons show ?thesis
    by (auto simp: slab_alloc_def slab_ok_def slots_of_def)
qed

lemma slab_free_ok:
  assumes ok: "slab_ok c m fl" and x: "x \<in> slots_of c - set fl"
  shows "\<exists>c' m'. slab_free c m x = Some (c', m') \<and> slab_ok c' m' (x # fl)
    \<and> slot_size c' = slot_size c \<and> capacity c' = capacity c"
proof -
  have b: "x + USIZE_BYTES \<le> length m" using slot_bounds(1) [of x c m] ok x by (auto simp: slab_ok_def)
  then obtain m' where w: "write_link m x (free_head c) = Some m'" using write_link_total by blast
  have "card (set fl) \<le> card (slots_of c)"
    using ok by (intro card_mono) (auto simp: slab_ok_def slots_of_def)
  moreover have "card (slots_of c) \<le> capacity c"
  proof -
    have "slots_of c = (\<lambda>i. i * slot_size c) ` {..<capacity c}" by (auto simp: slots_of_def)
    then show ?thesis by (metis card_image_le card_lessThan finite_lessThan)
  qed
  moreover have "free_count c = card (set fl)" using ok by (simp add: slab_ok_def distinct_card)
  moreover have "capacity c < usize_max"
  proof -
    have "8 * capacity c \<le> capacity c * slot_size c"
      using mult_le_mono2 [of 8 "slot_size c" "capacity c"] ok by (simp add: slab_ok_def USIZE_BYTES_def mult.commute)
    then have "8 * capacity c \<le> usize_max" using ok unfolding slab_ok_def by linarith
    then show ?thesis by (simp add: usize_max_def)
  qed
  ultimately have "checked_add_usize (free_count c) 1 = Some (Suc (free_count c))"
    by (simp add: checked_add_usize_def)
  with w slab_ok_push [OF ok x w] show ?thesis by (simp add: slab_free_def)
qed

section \<open>The slab cache is an object pool\<close>

text \<open>The state as the caller holds it: the cache and its region, with the free list they encode.\<close>

definition pool_list :: "slab_cache \<times> bytes \<Rightarrow> usize list" where
  "pool_list s = (THE fl. slab_ok (fst s) (snd s) fl)"

definition pool_inv :: "slab_cache \<times> bytes \<Rightarrow> bool" where
  "pool_inv s \<longleftrightarrow> (\<exists>fl. slab_ok (fst s) (snd s) fl)"

definition pool_alloc :: "slab_cache \<times> bytes \<Rightarrow> (usize option \<times> slab_cache \<times> bytes) option" where
  "pool_alloc s = map_option (\<lambda>(r, c). (r, c, snd s)) (slab_alloc (fst s) (snd s))"

definition pool_free :: "slab_cache \<times> bytes \<Rightarrow> usize \<Rightarrow> (slab_cache \<times> bytes) option" where
  "pool_free s x = slab_free (fst s) (snd s) x"

lemma slab_ok_unique: "slab_ok c m fl \<Longrightarrow> slab_ok c m fl' \<Longrightarrow> fl = fl'"
proof (rule chain_unique [of m "free_head c"])
  assume a: "slab_ok c m fl" "slab_ok c m fl'"
  have n: "NIL_OFF \<notin> set l" if "slab_ok c m l" for l
    using slot_not_NIL [OF that] that [unfolded slab_ok_def] by blast
  show "NIL_OFF \<notin> set fl" "NIL_OFF \<notin> set fl'" using n a by blast+
qed (simp_all add: slab_ok_def)

lemma pool_list_eq: "slab_ok c m fl \<Longrightarrow> pool_list (c, m) = fl"
  unfolding pool_list_def by (rule the_equality) (auto intro: slab_ok_unique)

interpretation slab_pool: object_pool pool_alloc pool_free "\<lambda>s. set (pool_list s)" "\<lambda>s. slots_of (fst s)" pool_inv
proof unfold_locales
  fix s :: "slab_cache \<times> bytes" assume "pool_inv s"
  then obtain c m fl where s: "s = (c, m)" and ok: "slab_ok c m fl" by (cases s) (auto simp: pool_inv_def)
  note L = pool_list_eq [OF ok] and A = slab_alloc_ok [OF ok]
  show "set (pool_list s) \<subseteq> slots_of (fst s)" using ok s L by (simp add: slab_ok_def)
  show "pool_alloc s \<noteq> None" using A s by (auto simp: pool_alloc_def split: list.splits)
  show "s' = s \<and> set (pool_list s) = {}" if "pool_alloc s = Some (None, s')" for s'
    using A that s L by (auto simp: pool_alloc_def split: list.splits)
  show "pool_inv s' \<and> slots_of (fst s') = slots_of (fst s) \<and> x \<in> set (pool_list s)
      \<and> set (pool_list s') = set (pool_list s) - {x}" if a: "pool_alloc s = Some (Some x, s')" for x s'
  proof (cases fl)
    case Nil
    then show ?thesis using A a s by (auto simp: pool_alloc_def)
  next
    case (Cons y ys)
    then obtain c' where c': "slab_alloc c m = Some (Some y, c')" "slab_ok c' m ys"
      "slot_size c' = slot_size c" "capacity c' = capacity c" using A by auto
    then have "x = y" "s' = (c', m)" using a s by (auto simp: pool_alloc_def)
    moreover have "distinct fl" using ok by (simp add: slab_ok_def)
    ultimately show ?thesis
      using c' L s Cons pool_list_eq [OF c'(2)] by (auto simp: pool_inv_def slots_of_def)
  qed
  show "\<exists>s'. pool_free s x = Some s' \<and> pool_inv s' \<and> slots_of (fst s') = slots_of (fst s)
      \<and> set (pool_list s') = insert x (set (pool_list s))" if "x \<in> slots_of (fst s) - set (pool_list s)" for x
  proof -
    have "x \<in> slots_of c - set fl" using that s L by simp
    from slab_free_ok [OF ok this] obtain c' m' where "slab_free c m x = Some (c', m')" "slab_ok c' m' (x # fl)"
      "slot_size c' = slot_size c" "capacity c' = capacity c" by blast
    then show ?thesis
      using s L pool_list_eq [of c' m' "x # fl"] by (auto simp: pool_free_def pool_inv_def slots_of_def)
  qed
qed

section \<open>Slot layout\<close>

lemma and_not_mask_unat:
  "unat (w AND NOT (mask k)) = unat w div 2 ^ k * 2 ^ k" for w :: u64
proof -
  have "w AND NOT (mask k) = push_bit k (drop_bit k w)"
    by (rule bit_word_eqI) (auto simp: bit_and_iff bit_not_iff bit_mask_iff bit_push_bit_iff bit_drop_bit_eq)
  moreover have "unat w div 2 ^ k * 2 ^ k < 2 ^ 64"
    using unat_bound [of w] by (simp add: le_less_trans [OF div_times_less_eq_dividend] del: unsigned_less)
  moreover have "unat (push_bit k (drop_bit k w)) = take_bit 64 (push_bit k (drop_bit k (unat w)))"
    unfolding unsigned_push_bit_eq unsigned_drop_bit_eq
    using unat_bound [of w] by (simp add: take_bit_nat_eq_self del: unsigned_less)
  ultimately show ?thesis
    by (simp only: drop_bit_eq_div push_bit_eq_mult take_bit_nat_eq_self)
qed

lemma round_up_pow2:
  assumes "k < 64" "x + 2 ^ k \<le> usize_max"
  shows "\<exists>s. round_up x (2 ^ k) = Some s \<and> x \<le> s \<and> s < x + 2 ^ k \<and> 2 ^ k dvd s"
proof -
  let ?a = "(2 :: nat) ^ k" and ?n = "x + 2 ^ k - 1"
  have n: "?n < 2 ^ 64" using assms(2) by (simp add: usize_max_def)
  have a: "?a - 1 < 2 ^ 64" using assms(1) power_strict_increasing [of k 64 "2 :: nat"] by simp
  have m: "(of_nat (?a - 1) :: u64) = mask k" by (simp add: mask_eq_exp_minus_1 of_nat_diff)
  have u: "unat (of_nat ?n :: u64) = ?n" using n by (simp add: unat_of_nat)
  have e: "unat ((of_nat ?n :: u64) AND NOT (of_nat (?a - 1))) = ?n div ?a * ?a"
    unfolding m and_not_mask_unat u ..
  have r: "round_up x ?a = Some (?n div ?a * ?a)"
    by (simp only: round_up_def checked_add_usize_def assms(2) if_True option.case e)
  have "?n = ?n div ?a * ?a + ?n mod ?a" by (rule div_mult_mod_eq [symmetric])
  moreover have "?n mod ?a < ?a" by simp
  ultimately have "x \<le> ?n div ?a * ?a" "?n div ?a * ?a < x + ?a" by linarith+
  with r show ?thesis by simp
qed

lemma slab_new_ok:
  assumes k: "3 \<le> k" "k < 64" and fit: "max obj_size USIZE_BYTES + 2 ^ k \<le> usize_max"
  shows "\<exists>c. slab_new obj_size (2 ^ k) region_len = Some c \<and> obj_size \<le> slot_size c
    \<and> USIZE_BYTES \<le> slot_size c \<and> 2 ^ k dvd slot_size c \<and> capacity c * slot_size c \<le> region_len
    \<and> region_len < (capacity c + 1) * slot_size c"
proof -
  have "(8 :: nat) \<le> 2 ^ k" using power_increasing [OF k(1), of "2 :: nat"] by simp
  then have m: "max (2 ^ k) USIZE_BYTES = 2 ^ k" by (simp add: USIZE_BYTES_def)
  obtain s where s: "round_up (max obj_size USIZE_BYTES) (2 ^ k) = Some s" "max obj_size USIZE_BYTES \<le> s" "2 ^ k dvd s"
    using round_up_pow2 [OF k(2) fit] by blast
  have "0 < s" using s(2) by (simp add: USIZE_BYTES_def)
  moreover from this have "region_len < (region_len div s + 1) * s"
    using div_mult_mod_eq [of region_len s] mod_less_divisor [of s region_len]
    unfolding add_mult_distrib by linarith
  ultimately show ?thesis
    using s by (simp add: slab_new_def m)
qed

section \<open>Runs\<close>

text \<open>A client of the cache: it allocates, frees slots it holds, and writes into slots it holds.
  The third component of the state is the list of slots it holds.\<close>

datatype slab_op = SAlloc | SFree usize | SWrite bytes

fun slab_step :: "slab_op \<Rightarrow> slab_cache \<times> bytes \<times> usize list \<Rightarrow> slab_cache \<times> bytes \<times> usize list" where
  "slab_step SAlloc (c, m, h) =
     (case slab_alloc c m of Some (Some x, c') \<Rightarrow> (c', m, x # h) | _ \<Rightarrow> (c, m, h))"
| "slab_step (SFree x) (c, m, h) =
     (case slab_free c m x of Some (c', m') \<Rightarrow> (c', m', remove1 x h) | None \<Rightarrow> (c, m, h))"
| "slab_step (SWrite m') (c, m, h) = (c, m', h)"

fun slab_pre :: "slab_op \<Rightarrow> slab_cache \<times> bytes \<times> usize list \<Rightarrow> bool" where
  "slab_pre SAlloc (c, m, h) \<longleftrightarrow> True"
| "slab_pre (SFree x) (c, m, h) \<longleftrightarrow> x \<in> set h"
| "slab_pre (SWrite m') (c, m, h) \<longleftrightarrow> length m' = length m
     \<and> (\<forall>i<length m. m' ! i \<noteq> m ! i \<longrightarrow> (\<exists>x\<in>set h. x \<le> i \<and> i < x + slot_size c))"

fun slab_inv :: "slab_cache \<times> bytes \<times> usize list \<Rightarrow> bool" where
  "slab_inv (c, m, h) \<longleftrightarrow> (\<exists>fl. slab_ok c m fl \<and> distinct h \<and> set h \<inter> set fl = {} \<and> set h \<union> set fl = slots_of c)"

lemma slab_step_inv: "slab_inv s \<Longrightarrow> slab_pre op s \<Longrightarrow> slab_inv (slab_step op s)"
proof -
  obtain c m h where s: "s = (c, m, h)" by (cases s)
  assume "slab_inv s" and pre: "slab_pre op s"
  then obtain fl where ok: "slab_ok c m fl" and h: "distinct h" "set h \<inter> set fl = {}" "set h \<union> set fl = slots_of c"
    using s by auto
  show ?thesis
  proof (cases op)
    case SAlloc
    show ?thesis
    proof (cases fl)
      case Nil
      then show ?thesis using slab_alloc_ok [OF ok] ok h SAlloc s by auto
    next
      case (Cons x xs)
      then obtain c' where c': "slab_alloc c m = Some (Some x, c')" "slab_ok c' m xs"
        "slot_size c' = slot_size c" "capacity c' = capacity c" using slab_alloc_ok [OF ok] by auto
      have "distinct fl" using ok by (simp add: slab_ok_def)
      then have "distinct (x # h) \<and> set (x # h) \<inter> set xs = {} \<and> set (x # h) \<union> set xs = slots_of c'"
        using h Cons c' by (auto simp: slots_of_def)
      with c' SAlloc s show ?thesis by auto
    qed
  next
    case (SFree x)
    then have x: "x \<in> set h" "x \<in> slots_of c - set fl" using pre s h by auto
    from slab_free_ok [OF ok x(2)] obtain c' m' where c': "slab_free c m x = Some (c', m')" "slab_ok c' m' (x # fl)"
      "slot_size c' = slot_size c" "capacity c' = capacity c" by blast
    have "distinct (remove1 x h) \<and> set (remove1 x h) \<inter> set (x # fl) = {}
        \<and> set (remove1 x h) \<union> set (x # fl) = slots_of c'"
      using h x c' by (auto simp: slots_of_def)
    with c' SFree s show ?thesis by (auto intro!: exI [of _ "x # fl"])
  next
    case (SWrite m')
    have "slab_ok c m' fl"
    proof (rule slab_ok_client_write [OF ok])
      show "length m' = length m" using pre SWrite s by simp
      fix x i assume x: "x \<in> set fl" "x \<le> i" "i < x + USIZE_BYTES"
      have xs: "x \<in> slots_of c" "USIZE_BYTES \<le> slot_size c" using ok x(1) by (auto simp: slab_ok_def)
      have il: "i < length m" using slot_bounds(1) [OF xs(1), of m] ok x xs by (auto simp: slab_ok_def)
      show "m' ! i = m ! i"
      proof (rule ccontr)
        assume "m' ! i \<noteq> m ! i"
        then obtain y where y: "y \<in> set h" "y \<le> i" "i < y + slot_size c" using pre SWrite s il by auto
        then have "y \<noteq> x" "y \<in> slots_of c" using h x by auto
        with slots_disjoint [OF _ xs(1)] y x xs show False by fastforce
      qed
    qed
    with h SWrite s show ?thesis by auto
  qed
qed

interpretation slab_machine: guarded_machine slab_step slab_pre slab_inv
  by unfold_locales (rule slab_step_inv)

text \<open>
  (C21) The slab cache is safe.  For a power-of-two alignment, a fresh cache over a region holds as
  many disjoint, aligned slots of at least the object size as fit.  After initialisation, over any
  sequence of allocations, frees of held slots and writes into held slots, no call traps, every
  allocation returns a slot that nobody holds, aligned and inside the region, and it fails only
  when every slot is held.
\<close>

theorem slab_cache_safe:
  assumes k: "3 \<le> k" "k < 64" and fit: "max obj_size USIZE_BYTES + 2 ^ k \<le> usize_max"
    and m: "length m \<le> usize_max"
  shows "\<exists>c c0 m0. slab_new obj_size (2 ^ k) (length m) = Some c \<and> slab_init c m = Some (c0, m0)
    \<and> obj_size \<le> slot_size c \<and> length m < (capacity c + 1) * slot_size c
    \<and> (\<forall>ops c1 m1 h. pre_ops slab_step slab_pre ops (c0, m0, []) \<and> run_ops slab_step ops (c0, m0, []) = (c1, m1, h)
        \<longrightarrow> distinct h \<and> (\<forall>x\<in>set h. \<exists>c2 m2. slab_free c1 m1 x = Some (c2, m2))
          \<and> (case slab_alloc c1 m1 of
               None \<Rightarrow> False
             | Some (None, c2) \<Rightarrow> set h = slots_of c1
             | Some (Some x, c2) \<Rightarrow> x \<notin> set h \<and> 2 ^ k dvd slot_size c1 \<and> slot_size c1 dvd x
                 \<and> obj_size \<le> slot_size c1 \<and> x + slot_size c1 \<le> length m1))"
proof -
  obtain c where c: "slab_new obj_size (2 ^ k) (length m) = Some c" "obj_size \<le> slot_size c"
    "USIZE_BYTES \<le> slot_size c" "2 ^ k dvd slot_size c" "capacity c * slot_size c \<le> length m"
    "length m < (capacity c + 1) * slot_size c"
    using slab_new_ok [OF k fit] by blast
  obtain c0 m0 fl0 where i: "slab_init c m = Some (c0, m0)" "slab_ok c0 m0 fl0" "set fl0 = slots_of c"
    "slot_size c0 = slot_size c" "capacity c0 = capacity c"
    using slab_init_ok [OF c(3,5) m] by blast
  have inv0: "slab_inv (c0, m0, []) \<and> slot_size c0 = slot_size c" using i by (auto simp: slots_of_def)
  have size: "slot_size (fst (slab_step op s)) = slot_size (fst s)" for op s
    by (cases op; cases s) (auto simp: slab_alloc_def slab_free_def split: option.splits prod.splits if_splits)
  have sizes: "slot_size (fst (run_ops slab_step ops s)) = slot_size (fst s)" for ops s
    by (induction ops arbitrary: s) (simp_all add: size)
  have "distinct h \<and> (\<forall>x\<in>set h. \<exists>c2 m2. slab_free c1 m1 x = Some (c2, m2))
      \<and> (case slab_alloc c1 m1 of None \<Rightarrow> False | Some (None, c2) \<Rightarrow> set h = slots_of c1
         | Some (Some x, c2) \<Rightarrow> x \<notin> set h \<and> 2 ^ k dvd slot_size c1 \<and> slot_size c1 dvd x
             \<and> obj_size \<le> slot_size c1 \<and> x + slot_size c1 \<le> length m1)"
    if pre: "pre_ops slab_step slab_pre ops (c0, m0, [])" and run: "run_ops slab_step ops (c0, m0, []) = (c1, m1, h)"
    for ops c1 m1 h
  proof -
    have inv: "slab_inv (c1, m1, h)" using slab_machine.run_inv [OF _ pre] inv0 run by metis
    have ss: "slot_size c1 = slot_size c" using sizes [of ops "(c0, m0, [])"] run inv0 by simp
    obtain fl where ok: "slab_ok c1 m1 fl" and h: "distinct h" "set h \<inter> set fl = {}" "set h \<union> set fl = slots_of c1"
      using inv by auto
    have fr: "\<exists>c2 m2. slab_free c1 m1 x = Some (c2, m2)" if "x \<in> set h" for x
      using slab_free_ok [OF ok, of x] h that by blast
    have b: "x + slot_size c1 \<le> length m1 \<and> slot_size c1 dvd x" if "x \<in> set fl" for x
      using slot_bounds [of x c1 m1] ok that by (auto simp: slab_ok_def)
    show ?thesis
      using slab_alloc_ok [OF ok] h fr b c ss by (cases fl) auto
  qed
  with c i show ?thesis by blast
qed

theorem slab_cache_safe_witness:
  "\<exists>c c0 m0. slab_new 64 8 4096 = Some c \<and> slab_init c (replicate 4096 0) = Some (c0, m0)
     \<and> 64 \<le> slot_size c
     \<and> (case slab_alloc c0 m0 of Some (Some x, c2) \<Rightarrow> x + slot_size c0 \<le> length m0 | _ \<Rightarrow> True)"
proof -
  from slab_cache_safe [of 3 64 "replicate 4096 0"]
  obtain c c0 m0 where a: "slab_new 64 8 4096 = Some c" "slab_init c (replicate 4096 0) = Some (c0, m0)" "64 \<le> slot_size c"
    and b: "\<And>ops c1 m1 h. pre_ops slab_step slab_pre ops (c0, m0, []) \<and> run_ops slab_step ops (c0, m0, []) = (c1, m1, h)
        \<longrightarrow> (case slab_alloc c1 m1 of None \<Rightarrow> False | Some (None, c2) \<Rightarrow> set h = slots_of c1
             | Some (Some x, c2) \<Rightarrow> x \<notin> set h \<and> 2 ^ 3 dvd slot_size c1 \<and> slot_size c1 dvd x
                 \<and> 64 \<le> slot_size c1 \<and> x + slot_size c1 \<le> length m1)"
    by (auto simp: USIZE_BYTES_def usize_max_def)
  from b [of "[]" c0 m0 "[]"] have "case slab_alloc c0 m0 of Some (Some x, c2) \<Rightarrow> x + slot_size c0 \<le> length m0 | _ \<Rightarrow> True"
    by (auto split: option.splits prod.splits)
  with a show ?thesis by blast
qed

end
