(* ===== verification/Trap.thy ===== *)
theory Trap
  imports Prelude "HOL-Library.Monad_Syntax"
begin

text \<open>
  The trapping fragment of Rust over natural numbers, for the components whose integers are best
  read as bounded naturals: an index out of range, a sum above the width, a difference below zero
  and a shift by the width or more are \<open>None\<close>, and a body is a sequence of such steps in the
  option monad.  The collection \<open>trap_ops\<close> opens them; \<open>trap_bind\<close> turns a successful body into
  its intermediate results.
\<close>

named_theorems trap_ops \<open>indexing and arithmetic that trap\<close>

definition idx :: "'a list \<Rightarrow> nat \<Rightarrow> 'a option" where
  [trap_ops]: "idx xs i = (if i < length xs then Some (xs ! i) else None)"

definition upd :: "'a list \<Rightarrow> nat \<Rightarrow> 'a \<Rightarrow> 'a list option" where
  [trap_ops]: "upd xs i v = (if i < length xs then Some (xs[i := v]) else None)"

definition add_w :: "nat \<Rightarrow> nat \<Rightarrow> nat \<Rightarrow> nat option" where
  [trap_ops]: "add_w w a b = (if a + b < 2 ^ w then Some (a + b) else None)"

definition sub_w :: "nat \<Rightarrow> nat \<Rightarrow> nat option" where
  [trap_ops]: "sub_w a b = (if b \<le> a then Some (a - b) else None)"

definition shl1_w :: "nat \<Rightarrow> nat \<Rightarrow> nat option" where
  [trap_ops]: "shl1_w w k = (if k < w then Some (2 ^ k) else None)"

text \<open>A \<open>for\<close> loop whose body may trap.\<close>

fun for_each :: "('a \<Rightarrow> 's \<Rightarrow> 's option) \<Rightarrow> 'a list \<Rightarrow> 's \<Rightarrow> 's option" where
  "for_each f [] s = Some s"
| "for_each f (x # xs) s = do { s' \<leftarrow> f x s; for_each f xs s' }"

lemma for_each_append [simp]: "for_each f (xs @ ys) s = do { s' \<leftarrow> for_each f xs s; for_each f ys s' }"
  by (induction xs arbitrary: s) (simp_all split: Option.bind_split)

lemma for_each_fold: "(\<And>x s. x \<in> set xs \<Longrightarrow> P s \<Longrightarrow> f x s = Some (g x s) \<and> P (g x s)) \<Longrightarrow> P s \<Longrightarrow> for_each f xs s = Some (fold g xs s) \<and> P (fold g xs s)"
  by (induction xs arbitrary: s) auto

lemmas trap_bind = bind_eq_Some_conv bind_eq_None_conv

lemma idx_Some [simp]: "idx xs i = Some x \<longleftrightarrow> i < length xs \<and> x = xs ! i"
  by (auto simp: idx_def)

lemma upd_Some [simp]: "upd xs i v = Some ys \<longleftrightarrow> i < length xs \<and> ys = xs[i := v]"
  by (auto simp: upd_def)

lemma idx_upd: "upd xs i v = Some ys \<Longrightarrow> idx ys j = (if i = j then Some v else idx xs j)"
  by (auto simp: idx_def nth_list_update)

lemma add_w_Some [simp]: "add_w w a b = Some c \<longleftrightarrow> a + b < 2 ^ w \<and> c = a + b"
  by (auto simp: add_w_def)

lemma sub_w_Some [simp]: "sub_w a b = Some c \<longleftrightarrow> b \<le> a \<and> c = a - b"
  by (auto simp: sub_w_def)

lemma shl1_w_Some [simp]: "shl1_w w k = Some c \<longleftrightarrow> k < w \<and> c = 2 ^ k"
  by (auto simp: shl1_w_def)

end
