(* ===== verification/Mem_Buddy.thy ===== *)
theory Mem_Buddy
  imports Trap
begin

text \<open>
  The binary buddy allocator of \<^verbatim>\<open>src/mem/src/buddy.rs\<close>.  A \<open>Pfn\<close> is a natural number below
  \<open>2 ^ 32\<close>, with the \<open>u32\<close> bounds of sums and shifts checked; \<open>None\<close> is a trap.  This theory holds
  the definitions and the list layer: each free list is a doubly-linked list threaded through the
  descriptor array (\<open>dll\<close>), \<open>insert\<close> pushes a block at its front and \<open>unlink\<close> removes a block from
  anywhere in it.
\<close>

definition NIL_FRAME :: nat where "NIL_FRAME = 4294967295"
definition MAX_ORDER :: nat where "MAX_ORDER = 18"

record frame_desc =
  fd_next :: nat
  fd_prev :: nat
  fd_order :: nat
  fd_free :: bool

definition RESERVED :: frame_desc where
  "RESERVED = \<lparr>fd_next = NIL_FRAME, fd_prev = NIL_FRAME, fd_order = 0, fd_free = False\<rparr>"

record buddy =
  desc :: "frame_desc list"
  heads :: "nat list"
  nframes :: nat
  bfree :: nat

definition buddy_new :: "frame_desc list \<Rightarrow> buddy" where
  "buddy_new d = \<lparr>desc = map (\<lambda>_. RESERVED) d, heads = replicate (MAX_ORDER + 1) NIL_FRAME,
     nframes = length d mod 2 ^ 32, bfree = 0\<rparr>"

definition free_frames :: "buddy \<Rightarrow> nat" where "free_frames b = bfree b"
definition total_frames :: "buddy \<Rightarrow> nat" where "total_frames b = nframes b"

definition buddy_insert :: "buddy \<Rightarrow> nat \<Rightarrow> nat \<Rightarrow> buddy option" where
  "buddy_insert b base order = do {
     head \<leftarrow> idx (heads b) order;
     d \<leftarrow> upd (desc b) base \<lparr>fd_next = head, fd_prev = NIL_FRAME, fd_order = order, fd_free = True\<rparr>;
     d' \<leftarrow> (if head \<noteq> NIL_FRAME then do { h \<leftarrow> idx d head; upd d head (h\<lparr>fd_prev := base\<rparr>) } else Some d);
     hs \<leftarrow> upd (heads b) order base;
     Some (b\<lparr>desc := d', heads := hs\<rparr>)
   }"

definition unlink :: "buddy \<Rightarrow> nat \<Rightarrow> nat \<Rightarrow> buddy option" where
  "unlink b base order = do {
     x \<leftarrow> idx (desc b) base;
     (d, hs) \<leftarrow> (if fd_prev x \<noteq> NIL_FRAME
       then do { p \<leftarrow> idx (desc b) (fd_prev x); d \<leftarrow> upd (desc b) (fd_prev x) (p\<lparr>fd_next := fd_next x\<rparr>); Some (d, heads b) }
       else do { hs \<leftarrow> upd (heads b) order (fd_next x); Some (desc b, hs) });
     d' \<leftarrow> (if fd_next x \<noteq> NIL_FRAME
       then do { n \<leftarrow> idx d (fd_next x); upd d (fd_next x) (n\<lparr>fd_prev := fd_prev x\<rparr>) }
       else Some d);
     y \<leftarrow> idx d' base;
     d'' \<leftarrow> upd d' base (y\<lparr>fd_free := False\<rparr>);
     Some (b\<lparr>desc := d'', heads := hs\<rparr>)
   }"

function coalesce :: "buddy \<Rightarrow> nat \<Rightarrow> nat \<Rightarrow> buddy option" where
  "coalesce b base order =
     (if order < MAX_ORDER then do {
        one \<leftarrow> shl1_w 32 order;
        let bud = base XOR one;
        if bud \<ge> nframes b then buddy_insert b base order
        else do {
          bd \<leftarrow> idx (desc b) bud;
          if \<not> fd_free bd \<or> fd_order bd \<noteq> order then buddy_insert b base order
          else do { b' \<leftarrow> unlink b bud order; coalesce b' (if bud < base then bud else base) (order + 1) }
        }
      } else buddy_insert b base order)"
  by pat_completeness auto
termination by (relation "measure (\<lambda>(b, base, order). MAX_ORDER - order)") auto

declare coalesce.simps [simp del]

definition buddy_free :: "buddy \<Rightarrow> nat \<Rightarrow> buddy option" where
  "buddy_free b base = do {
     x \<leftarrow> idx (desc b) base;
     one \<leftarrow> shl1_w 32 (fd_order x);
     f \<leftarrow> add_w 32 (bfree b) one;
     coalesce (b\<lparr>bfree := f\<rparr>) base (fd_order x)
   }"

function search_order :: "buddy \<Rightarrow> nat \<Rightarrow> nat option" where
  "search_order b ord =
     (if ord \<le> MAX_ORDER then do {
        h \<leftarrow> idx (heads b) ord;
        if h = NIL_FRAME then search_order b (ord + 1) else Some ord
      } else Some ord)"
  by pat_completeness auto
termination by (relation "measure (\<lambda>(b, ord). Suc MAX_ORDER - ord)") auto

declare search_order.simps [simp del]

fun split_down :: "buddy \<Rightarrow> nat \<Rightarrow> nat \<Rightarrow> nat \<Rightarrow> buddy option" where
  "split_down b base 0 order = Some b"
| "split_down b base (Suc ord) order =
     (if Suc ord > order then do {
        one \<leftarrow> shl1_w 32 ord;
        upper \<leftarrow> add_w 32 base one;
        b' \<leftarrow> buddy_insert b upper ord;
        split_down b' base ord order
      } else Some b)"

definition buddy_alloc :: "buddy \<Rightarrow> nat \<Rightarrow> (nat option \<times> buddy) option" where
  "buddy_alloc b order =
     (if order > MAX_ORDER then Some (None, b)
      else do {
        ord \<leftarrow> search_order b order;
        if ord > MAX_ORDER then Some (None, b)
        else do {
          base \<leftarrow> idx (heads b) ord;
          b1 \<leftarrow> unlink b base ord;
          b2 \<leftarrow> split_down b1 base ord order;
          x \<leftarrow> idx (desc b2) base;
          d \<leftarrow> upd (desc b2) base (x\<lparr>fd_order := order, fd_free := False\<rparr>);
          one \<leftarrow> shl1_w 32 order;
          f \<leftarrow> sub_w (bfree b2) one;
          Some (Some base, b2\<lparr>desc := d, bfree := f\<rparr>)
        }
      })"

fun trailing_zeros :: "nat \<Rightarrow> nat" where
  "trailing_zeros n = (if n = 0 then 32 else if odd n then 0 else Suc (trailing_zeros (n div 2)))"

fun ilog2 :: "nat \<Rightarrow> nat" where
  "ilog2 n = (if n \<le> 1 then 0 else Suc (ilog2 (n div 2)))"

declare trailing_zeros.simps [simp del] ilog2.simps [simp del]

definition run_order :: "nat \<Rightarrow> nat \<Rightarrow> nat" where
  "run_order base end =
     min (min (if base = 0 then MAX_ORDER else trailing_zeros base) (ilog2 (end - base))) MAX_ORDER"

function add_loop :: "buddy \<Rightarrow> nat \<Rightarrow> nat \<Rightarrow> buddy option" where
  "add_loop b base end =
     (if base < end then do {
        one \<leftarrow> shl1_w 32 (run_order base end);
        f \<leftarrow> add_w 32 (bfree b) one;
        b' \<leftarrow> buddy_insert (b\<lparr>bfree := f\<rparr>) base (run_order base end);
        base' \<leftarrow> add_w 32 base one;
        add_loop b' base' end
      } else Some b)"
  by pat_completeness auto
termination by (relation "measure (\<lambda>(b, base, end). end - base)") (auto intro!: diff_less_mono2)

declare add_loop.simps [simp del]

definition add_frames :: "buddy \<Rightarrow> nat \<Rightarrow> nat \<Rightarrow> buddy option" where
  "add_frames b start count =
     (if count = 0 then Some b else do { end \<leftarrow> add_w 32 start count; add_loop b start end })"


section \<open>Doubly-linked lists in the descriptor array\<close>

fun dll :: "frame_desc list \<Rightarrow> nat \<Rightarrow> nat \<Rightarrow> nat list \<Rightarrow> bool" where
  "dll d p c [] \<longleftrightarrow> c = NIL_FRAME"
| "dll d p c (x # xs) \<longleftrightarrow> c = x \<and> x < length d \<and> fd_prev (d ! x) = p \<and> dll d x (fd_next (d ! x)) xs"

lemma dll_cong:
  assumes "dll d p c xs" "length d' = length d"
    "\<And>x. x \<in> set xs \<Longrightarrow> fd_next (d' ! x) = fd_next (d ! x) \<and> fd_prev (d' ! x) = fd_prev (d ! x)"
  shows "dll d' p c xs"
  using assms by (induction xs arbitrary: p c) auto

lemma dll_bound: "dll d p c xs \<Longrightarrow> x \<in> set xs \<Longrightarrow> x < length d"
  by (induction xs arbitrary: p c) auto

lemma dll_head: "dll d p c xs \<Longrightarrow> length d \<le> NIL_FRAME \<Longrightarrow>
    (c = NIL_FRAME \<longleftrightarrow> xs = []) \<and> (c \<noteq> NIL_FRAME \<longrightarrow> c \<in> set xs)"
  by (cases xs) auto

lemma dll_next:
  "dll d p c xs \<Longrightarrow> y \<in> set xs \<Longrightarrow> fd_next (d ! y) = NIL_FRAME \<or>
     (fd_next (d ! y) \<in> set xs \<and> fd_prev (d ! fd_next (d ! y)) = y)"
proof (induction xs arbitrary: p c)
  case (Cons a xs)
  then show ?case by (cases xs) auto
qed simp

lemma dll_prev:
  "dll d p c xs \<Longrightarrow> distinct xs \<Longrightarrow> y \<in> set xs \<Longrightarrow>
     (if c = y then fd_prev (d ! y) = p else fd_prev (d ! y) \<in> set xs \<and> fd_next (d ! fd_prev (d ! y)) = y)"
proof (induction xs arbitrary: p c)
  case (Cons a xs)
  show ?case
  proof (cases "y = a")
    case False
    then have y: "y \<in> set xs" "c \<noteq> y" using Cons.prems by auto
    have "if fd_next (d ! a) = y then fd_prev (d ! y) = a
        else fd_prev (d ! y) \<in> set xs \<and> fd_next (d ! fd_prev (d ! y)) = y"
      using Cons.IH [of a "fd_next (d ! a)"] Cons.prems y by auto
    with y show ?thesis by (auto split: if_splits)
  qed (use Cons.prems in auto)
qed simp

lemma dll_remove:
  assumes "dll d p c (ys @ x # zs)" "distinct (ys @ x # zs)" "p \<noteq> x" "x \<noteq> NIL_FRAME" "length d' = length d"
    and links: "\<And>y. y \<in> set (ys @ zs) \<Longrightarrow>
      fd_next (d' ! y) = (if fd_next (d ! y) = x then fd_next (d ! x) else fd_next (d ! y))
      \<and> fd_prev (d' ! y) = (if fd_prev (d ! y) = x then fd_prev (d ! x) else fd_prev (d ! y))"
  shows "dll d' p (if c = x then fd_next (d ! x) else c) (ys @ zs)"
  using assms
proof (induction ys arbitrary: p c)
  case Nil
  show ?case
  proof (cases zs)
    case (Cons z zs')
    have tail: "dll d z (fd_next (d ! z)) zs'" "distinct zs'" using Nil.prems(1,2) Cons by auto
    have "fd_next (d' ! y) = fd_next (d ! y) \<and> fd_prev (d' ! y) = fd_prev (d ! y)" if y: "y \<in> set zs'" for y
      using dll_next [OF tail(1) y] dll_prev [OF tail y] Nil.prems(2,4) Nil.prems(6) [of y] Cons y
      by (auto split: if_splits)
    then have "dll d' z (fd_next (d ! z)) zs'" by (rule dll_cong [OF tail(1) Nil.prems(5)])
    moreover have "fd_next (d' ! z) = fd_next (d ! z)"
      using dll_next [of d x z zs z] Nil.prems Cons by auto
    ultimately show ?thesis using Nil.prems Cons by auto
  qed (use Nil.prems in simp)
next
  case (Cons a ys)
  have "dll d' a (if fd_next (d ! a) = x then fd_next (d ! x) else fd_next (d ! a)) (ys @ zs)"
    using Cons.prems by (intro Cons.IH) auto
  then show ?case using Cons.prems(1,2,3,5) Cons.prems(6) [of a] by auto
qed

section \<open>The free lists\<close>

text \<open>
  \<open>free_lists b F\<close>: the free list of order \<open>k\<close> holds exactly the block bases \<open>F k\<close>, and a descriptor
  is marked free precisely when its frame heads a listed block of the recorded order.
\<close>

definition free_lists :: "buddy \<Rightarrow> (nat \<Rightarrow> nat list) \<Rightarrow> bool" where
  "free_lists b F \<longleftrightarrow> length (desc b) = nframes b \<and> nframes b \<le> NIL_FRAME \<and> length (heads b) = MAX_ORDER + 1
     \<and> (\<forall>k\<le>MAX_ORDER. dll (desc b) NIL_FRAME (heads b ! k) (F k) \<and> distinct (F k))
     \<and> (\<forall>x<nframes b. \<forall>k\<le>MAX_ORDER. x \<in> set (F k) \<longleftrightarrow> fd_free (desc b ! x) \<and> fd_order (desc b ! x) = k)
     \<and> (\<forall>x<nframes b. fd_free (desc b ! x) \<longrightarrow> fd_order (desc b ! x) \<le> MAX_ORDER)"

definition same_marks :: "nat \<Rightarrow> buddy \<Rightarrow> buddy \<Rightarrow> bool" where
  "same_marks base b b' \<longleftrightarrow> nframes b' = nframes b \<and> bfree b' = bfree b \<and>
     (\<forall>x<nframes b. x \<noteq> base \<longrightarrow> fd_order (desc b' ! x) = fd_order (desc b ! x) \<and> fd_free (desc b' ! x) = fd_free (desc b ! x))"

lemma free_listsD:
  assumes "free_lists b F" "k \<le> MAX_ORDER"
  shows "dll (desc b) NIL_FRAME (heads b ! k) (F k)" "distinct (F k)" "k < length (heads b)"
    "x \<in> set (F k) \<Longrightarrow> x < nframes b" "x \<in> set (F k) \<Longrightarrow> fd_free (desc b ! x) \<and> fd_order (desc b ! x) = k"
    "heads b ! k = NIL_FRAME \<longleftrightarrow> F k = []" "heads b ! k \<noteq> NIL_FRAME \<Longrightarrow> heads b ! k \<in> set (F k)"
proof -
  show d: "dll (desc b) NIL_FRAME (heads b ! k) (F k)" "distinct (F k)" "k < length (heads b)"
    using assms by (auto simp: free_lists_def)
  show n: "x < nframes b" if "x \<in> set (F k)"
    using dll_bound [OF d(1) that] assms(1) by (simp add: free_lists_def)
  show "fd_free (desc b ! x) \<and> fd_order (desc b ! x) = k" if "x \<in> set (F k)"
    using n [OF that] that assms by (auto simp: free_lists_def)
  show "heads b ! k = NIL_FRAME \<longleftrightarrow> F k = []" "heads b ! k \<noteq> NIL_FRAME \<Longrightarrow> heads b ! k \<in> set (F k)"
    using dll_head [OF d(1)] assms(1) by (auto simp: free_lists_def)
qed

lemma dll_push:
  assumes d: "dll d p h xs" "distinct xs" and base: "base \<notin> set xs" "base < length d" and n: "length d \<le> NIL_FRAME"
    and d1: "d1 = d[base := \<lparr>fd_next = h, fd_prev = p, fd_order = k, fd_free = True\<rparr>]"
    and d2: "d2 = (if h \<noteq> NIL_FRAME then d1[h := (d1 ! h)\<lparr>fd_prev := base\<rparr>] else d1)"
  shows "dll d2 p base (base # xs)"
proof (cases xs)
  case (Cons x ys)
  have x: "h = x" "x < length d" "x \<noteq> base" "x \<noteq> NIL_FRAME" using d base n Cons by auto
  have "dll d2 x (fd_next (d ! x)) ys"
    by (rule dll_cong [of d]) (use d base Cons x d1 d2 in \<open>auto simp: nth_list_update\<close>)
  then show ?thesis using x d base Cons d1 d2 by (simp add: nth_list_update)
qed (use assms in simp)

lemma buddy_insert_ok:
  assumes fl: "free_lists b F" and base: "base < nframes b" "\<not> fd_free (desc b ! base)" and k: "k \<le> MAX_ORDER"
  shows "\<exists>b'. buddy_insert b base k = Some b' \<and> free_lists b' (F(k := base # F k)) \<and> same_marks base b b'
    \<and> fd_free (desc b' ! base) \<and> fd_order (desc b' ! base) = k"
proof -
  note D = free_listsD [OF fl]
  define h where "h = heads b ! k"
  define d1 where "d1 = (desc b)[base := \<lparr>fd_next = h, fd_prev = NIL_FRAME, fd_order = k, fd_free = True\<rparr>]"
  define d2 where "d2 = (if h \<noteq> NIL_FRAME then d1[h := (d1 ! h)\<lparr>fd_prev := base\<rparr>] else d1)"
  define b' where "b' = b\<lparr>desc := d2, heads := (heads b)[k := base]\<rparr>"
  have len: "length (desc b) = nframes b" "nframes b \<le> NIL_FRAME" using fl by (auto simp: free_lists_def)
  have nb: "base \<notin> set (F j)" if "j \<le> MAX_ORDER" for j using D(5) [OF that] base(2) by blast
  have h: "h \<noteq> NIL_FRAME \<Longrightarrow> h \<in> set (F k) \<and> h < nframes b \<and> h \<noteq> base"
    using D(4,7) [OF k] nb [OF k] h_def by auto
  have "buddy_insert b base k = Some b'"
    using h len base k D(3) [OF k] by (auto simp: buddy_insert_def trap_bind b'_def d2_def d1_def h_def idx_def upd_def)
  moreover have marks: "fd_free (d2 ! x) = (if x = base then True else fd_free (desc b ! x))
      \<and> fd_order (d2 ! x) = (if x = base then k else fd_order (desc b ! x))" if "x < nframes b" for x
    using that h len base by (auto simp: d2_def d1_def nth_list_update)
  have "dll d2 NIL_FRAME base (base # F k)"
    using dll_push [OF D(1,2) [OF k] nb [OF k] _ _ d1_def [unfolded h_def] d2_def [unfolded h_def]] base len by simp
  moreover have "dll d2 NIL_FRAME (heads b ! j) (F j)" if j: "j \<le> MAX_ORDER" "j \<noteq> k" for j
  proof (rule dll_cong [OF D(1) [OF j(1)]])
    show "fd_next (d2 ! x) = fd_next (desc b ! x) \<and> fd_prev (d2 ! x) = fd_prev (desc b ! x)" if "x \<in> set (F j)" for x
    proof -
      have "x \<noteq> base" "h \<noteq> NIL_FRAME \<Longrightarrow> x \<noteq> h"
        using nb [OF j(1)] that h D(5) [OF j(1) that] D(5) [OF k, of h] j(2) by auto
      then show ?thesis by (auto simp: d2_def d1_def nth_list_update)
    qed
  qed (simp add: d2_def d1_def)
  ultimately have "free_lists b' (F(k := base # F k))"
    using fl k nb D(3) [OF k] marks len base
    by (auto simp: free_lists_def b'_def d2_def d1_def nth_list_update)
  then show ?thesis
    using \<open>buddy_insert b base k = Some b'\<close> marks base by (auto simp: same_marks_def b'_def)
qed

lemma unlink_ok:
  assumes fl: "free_lists b F" and x: "x \<in> set (F k)" and k: "k \<le> MAX_ORDER"
  shows "\<exists>b'. unlink b x k = Some b' \<and> free_lists b' (F(k := remove1 x (F k))) \<and> same_marks x b b' \<and> \<not> fd_free (desc b' ! x)"
proof -
  note D = free_listsD [OF fl]
  define n p where "n = fd_next (desc b ! x)" "p = fd_prev (desc b ! x)"
  define d1 where "d1 = (if p \<noteq> NIL_FRAME then (desc b)[p := (desc b ! p)\<lparr>fd_next := n\<rparr>] else desc b)"
  define d2 where "d2 = (if n \<noteq> NIL_FRAME then d1[n := (d1 ! n)\<lparr>fd_prev := p\<rparr>] else d1)"
  define d3 where "d3 = d2[x := (d2 ! x)\<lparr>fd_free := False\<rparr>]"
  define hs where "hs = (if p \<noteq> NIL_FRAME then heads b else (heads b)[k := n])"
  have len: "length (desc b) = nframes b" "nframes b \<le> NIL_FRAME" using fl by (auto simp: free_lists_def)
  have xb: "x < nframes b" "x \<noteq> NIL_FRAME" using D(4) [OF k x] len by auto
  have n: "n \<noteq> NIL_FRAME \<Longrightarrow> n \<in> set (F k) \<and> n < nframes b \<and> fd_prev (desc b ! n) = x"
    using dll_next [OF D(1) [OF k] x] D(4) [OF k, of n] by (auto simp: n_p_def)
  have p: "if heads b ! k = x then p = NIL_FRAME else p \<in> set (F k) \<and> p < nframes b \<and> p \<noteq> NIL_FRAME \<and> fd_next (desc b ! p) = x"
    using dll_prev [OF D(1,2) [OF k] x] D(4) [OF k, of p] len by (auto simp: n_p_def split: if_splits)
  have "unlink b x k = Some (b\<lparr>desc := d3, heads := hs\<rparr>)"
    using n p len xb D(3) [OF k]
    by (auto simp: unlink_def trap_bind d3_def d2_def d1_def hs_def n_p_def [symmetric] idx_def upd_def split: if_splits)
  obtain ys zs where F: "F k = ys @ x # zs" using x by (meson split_list)
  then have nin: "x \<notin> set ys" "x \<notin> set zs" using D(2) [OF k] by auto
  then have rem: "remove1 x (F k) = ys @ zs" by (simp add: F remove1_append)
  have link: "fd_next (d3 ! y) = (if fd_next (desc b ! y) = x then n else fd_next (desc b ! y))
      \<and> fd_prev (d3 ! y) = (if fd_prev (desc b ! y) = x then p else fd_prev (desc b ! y))"
    if "y \<in> set (F j)" "y \<noteq> x" "j \<le> MAX_ORDER" for y j
  proof -
    have y: "y < nframes b" "y \<noteq> NIL_FRAME" using D(4) [OF that(3,1)] len by auto
    have "fd_next (desc b ! y) = x \<longleftrightarrow> y = p \<and> p \<noteq> NIL_FRAME"
      using dll_next [OF D(1) [OF that(3)] that(1)] p xb(2) y(2) by (auto simp: n_p_def split: if_splits)
    moreover have "fd_prev (desc b ! y) = x \<longleftrightarrow> y = n \<and> n \<noteq> NIL_FRAME"
      using dll_prev [OF D(1,2) [OF that(3)] that(1)] n xb(2) y(2) by (auto simp: n_p_def split: if_splits)
    ultimately show ?thesis
      using that(2) y len n p by (auto simp: d3_def d2_def d1_def nth_list_update)
  qed
  have marks: "fd_order (d3 ! y) = fd_order (desc b ! y) \<and> fd_free (d3 ! y) = (y \<noteq> x \<and> fd_free (desc b ! y))" if "y < nframes b" for y
    using that n p len xb by (auto simp: d3_def d2_def d1_def nth_list_update split: if_splits)
  have lend: "length d3 = length (desc b)" by (simp add: d3_def d2_def d1_def)
  have "dll d3 NIL_FRAME (if heads b ! k = x then fd_next (desc b ! x) else heads b ! k) (ys @ zs)"
  proof (rule dll_remove [OF D(1) [OF k, unfolded F] D(2) [OF k, unfolded F] xb(2) [symmetric] xb(2) lend])
    fix y assume "y \<in> set (ys @ zs)"
    then have "y \<in> set (F k)" "y \<noteq> x" using nin F by auto
    from link [OF this k] show "fd_next (d3 ! y) = (if fd_next (desc b ! y) = x then fd_next (desc b ! x) else fd_next (desc b ! y))
      \<and> fd_prev (d3 ! y) = (if fd_prev (desc b ! y) = x then fd_prev (desc b ! x) else fd_prev (desc b ! y))"
      by (simp add: n_p_def)
  qed
  then have "dll d3 NIL_FRAME (hs ! k) (ys @ zs)"
    using p D(3) [OF k] by (cases "heads b ! k = x") (simp_all add: hs_def n_p_def)
  moreover have "dll d3 NIL_FRAME (hs ! j) (F j)" if j: "j \<le> MAX_ORDER" "j \<noteq> k" for j
  proof -
    have out: "x \<notin> set (F j)" using D(5) [OF j(1)] D(5) [OF k x] j(2) by blast
    have "dll d3 NIL_FRAME (heads b ! j) (F j)"
    proof (rule dll_cong [OF D(1) [OF j(1)] lend])
      fix y assume y: "y \<in> set (F j)"
      show "fd_next (d3 ! y) = fd_next (desc b ! y) \<and> fd_prev (d3 ! y) = fd_prev (desc b ! y)"
      proof -
        have "y \<noteq> x" "fd_next (desc b ! y) \<noteq> x" "fd_prev (desc b ! y) \<noteq> x"
          using out y dll_next [OF D(1) [OF j(1)] y] dll_prev [OF D(1,2) [OF j(1)] y] xb(2) by (auto split: if_splits)
        then show ?thesis using link [OF y _ j(1)] by simp
      qed
    qed
    then show ?thesis using j(2) by (simp add: hs_def)
  qed
  moreover have "y \<in> set ((F(k := remove1 x (F k))) j) \<longleftrightarrow> fd_free (d3 ! y) \<and> fd_order (d3 ! y) = j"
    if "y < nframes b" "j \<le> MAX_ORDER" for y j
  proof -
    have "y \<in> set (F j) \<longleftrightarrow> fd_free (desc b ! y) \<and> fd_order (desc b ! y) = j"
      using fl that by (auto simp: free_lists_def)
    then show ?thesis using marks [OF that(1)] D(5) [OF k x] D(2) [OF k] by (auto simp: fun_upd_apply)
  qed
  moreover have "distinct ((F(k := remove1 x (F k))) j)" if "j \<le> MAX_ORDER" for j
    using D(2) [OF that] by (auto simp: distinct_remove1)
  moreover have "dll d3 NIL_FRAME (hs ! j) ((F(k := remove1 x (F k))) j)" if "j \<le> MAX_ORDER" for j
    using calculation(1,2) that rem by auto
  moreover have "length hs = MAX_ORDER + 1" using fl by (simp add: free_lists_def hs_def)
  ultimately have "free_lists (b\<lparr>desc := d3, heads := hs\<rparr>) (F(k := remove1 x (F k)))"
    using len lend fl marks unfolding free_lists_def by (auto simp del: fun_upd_apply)
  then show ?thesis
    using \<open>unlink b x k = _\<close> marks xb by (auto simp: same_marks_def)
qed

end
