(* ===== verification/Mem_Buddy_Inv.thy ===== *)
theory Mem_Buddy_Inv
  imports Mem_Buddy
begin

text \<open>
  The block layer of the buddy allocator: free and allocated blocks are pairs of a base frame and an
  order, naturally aligned and pairwise disjoint.  Merging a block with its buddy and splitting a
  block keep that; the operations of \<^verbatim>\<open>Mem_Buddy\<close> are shown to act on the set of free blocks this
  way, without trapping.
\<close>

section \<open>Aligned blocks and their buddies\<close>

type_synonym blk = "nat \<times> nat"

definition frames :: "blk \<Rightarrow> nat set" where
  "frames = (\<lambda>(x, k). {x..<x + 2 ^ k})"

definition frames_of :: "blk set \<Rightarrow> nat set" where
  "frames_of B = \<Union> (frames ` B)"

definition blk_ok :: "nat \<Rightarrow> blk \<Rightarrow> bool" where
  "blk_ok n = (\<lambda>(x, k). k \<le> MAX_ORDER \<and> 2 ^ k dvd x \<and> x + 2 ^ k \<le> n)"

definition blocks_ok :: "nat \<Rightarrow> blk set \<Rightarrow> bool" where
  "blocks_ok n B \<longleftrightarrow> (\<forall>a\<in>B. blk_ok n a) \<and> (\<forall>a\<in>B. \<forall>c\<in>B. a \<noteq> c \<longrightarrow> frames a \<inter> frames c = {})"

definition no_pairs :: "blk set \<Rightarrow> bool" where
  "no_pairs B \<longleftrightarrow> (\<forall>x k. (x, k) \<in> B \<and> (x XOR 2 ^ k, k) \<in> B \<longrightarrow> k = MAX_ORDER)"

lemma mem_frames: "x \<in> frames (y, k) \<longleftrightarrow> y \<le> x \<and> x < y + 2 ^ k"
  by (auto simp: frames_def)

lemma card_frames [simp]: "card (frames (x, k)) = 2 ^ k" "finite (frames (x, k))"
  by (simp_all add: frames_def)

lemma frames_of_simps [simp]:
  "frames_of {} = {}" "frames_of (insert a B) = frames a \<union> frames_of B" "frames_of (A \<union> B) = frames_of A \<union> frames_of B"
  by (auto simp: frames_of_def)

lemma base_in_frames [simp, intro]: "x \<in> frames (x, k)"
  by (simp add: mem_frames)

lemma xor_buddy:
  fixes x :: nat assumes "2 ^ k dvd x"
  shows "x XOR 2 ^ k = (if 2 ^ Suc k dvd x then x + 2 ^ k else x - 2 ^ k)"
proof -
  obtain m where m: "x = 2 ^ k * m" using assms by blast
  have "m XOR 1 = (if even m then m + 1 else m - 1)"
    using xor_one_eq [of m] by (cases "even m") simp_all
  moreover have "x XOR 2 ^ k = 2 ^ k * (m XOR 1)"
    using push_bit_xor [of k m 1] by (simp add: m push_bit_eq_mult ac_simps)
  ultimately show ?thesis by (auto simp: m algebra_simps)
qed

lemma buddy_facts:
  fixes x :: nat assumes al: "2 ^ k dvd x"
  defines "y \<equiv> x XOR 2 ^ k"
  shows "2 ^ k dvd y" "y \<noteq> x" "2 ^ Suc k dvd min x y" "frames (min x y, Suc k) = frames (x, k) \<union> frames (y, k)"
    "y XOR 2 ^ k = x"
proof -
  have pos: "0 < (2::nat) ^ k" by simp
  have le: "\<not> 2 ^ Suc k dvd x \<Longrightarrow> 2 ^ k \<le> x" using al by (cases "x = 0") (auto dest: dvd_imp_le)
  have y: "y = (if 2 ^ Suc k dvd x then x + 2 ^ k else x - 2 ^ k)" unfolding y_def by (rule xor_buddy [OF al])
  have cs: "2 ^ Suc k dvd x \<and> y = x + 2 ^ k \<and> min x y = x \<or> \<not> 2 ^ Suc k dvd x \<and> x = y + 2 ^ k \<and> min x y = y"
    unfolding y using le by (cases "2 ^ Suc k dvd x") (simp_all only: if_True if_False, auto)
  show "2 ^ k dvd y" using al by (simp add: y)
  show "y \<noteq> x" using cs pos by linarith
  have "2 ^ Suc k dvd y" if "\<not> 2 ^ Suc k dvd x" "x = y + 2 ^ k"
  proof -
    obtain m where m: "x = 2 ^ k * m" using al by blast
    then have "odd m" using that(1) by auto
    then obtain j where "m = 2 * j + 1" by (blast elim: oddE)
    then have "y = 2 ^ Suc k * j" using that(2) by (simp add: m algebra_simps)
    then show ?thesis by simp
  qed
  then show "2 ^ Suc k dvd min x y" using cs by auto
  have "frames (z, Suc k) = frames (z, k) \<union> frames (z + 2 ^ k, k)" for z by (auto simp: frames_def)
  then show "frames (min x y, Suc k) = frames (x, k) \<union> frames (y, k)" using cs by (metis sup_commute)
  show "y XOR 2 ^ k = x" by (simp add: y_def xor.assoc)
qed

lemma blocks_ok_subset: "blocks_ok n B \<Longrightarrow> C \<subseteq> B \<Longrightarrow> blocks_ok n C"
  unfolding blocks_ok_def by blast

lemma blocks_ok_insert:
  "blocks_ok n (insert a B) \<longleftrightarrow> blocks_ok n B \<and> blk_ok n a \<and> (a \<in> B \<or> frames a \<inter> frames_of B = {})"
proof (cases "a \<in> B")
  case False
  then have ne: "\<forall>c\<in>B. (a = c) = False \<and> (c = a) = False" by auto
  have d: "frames a \<inter> frames_of B = {} \<longleftrightarrow> (\<forall>c\<in>B. frames a \<inter> frames c = {})" by (auto simp: frames_of_def)
  have "(\<forall>c\<in>B. frames c \<inter> frames a = {}) \<longleftrightarrow> (\<forall>c\<in>B. frames a \<inter> frames c = {})" by (simp add: Int_commute)
  then show ?thesis using False ne unfolding blocks_ok_def d by (auto simp: ball_conj_distrib)
qed (auto simp: insert_absorb blocks_ok_def)

lemma blocks_same_base:
  assumes "blocks_ok n B" "(x, k) \<in> B" "(x, j) \<in> B" shows "k = j"
proof (rule ccontr)
  assume "k \<noteq> j"
  then have "frames (x, k) \<inter> frames (x, j) = {}" using assms by (auto simp: blocks_ok_def)
  then show False using base_in_frames [of x k] base_in_frames [of x j] by blast
qed

lemma blocks_range: "blocks_ok n B \<Longrightarrow> frames_of B \<subseteq> {..<n}"
  by (fastforce simp: blocks_ok_def blk_ok_def frames_of_def frames_def)

lemma merge_ok:
  assumes ok: "blocks_ok n (insert (x, k) B)" "(x, k) \<notin> B" and y: "(x XOR 2 ^ k, k) \<in> B" and k: "k < MAX_ORDER"
  defines "B' \<equiv> B - {(x XOR 2 ^ k, k)}" and "a \<equiv> (min x (x XOR 2 ^ k), Suc k)"
  shows "blocks_ok n (insert a B')" "a \<notin> B'" "frames_of (insert a B') = frames_of (insert (x, k) B)"
proof -
  define y where "y = x XOR 2 ^ k"
  have al: "2 ^ k dvd x" using ok(1) by (auto simp: blocks_ok_def blk_ok_def)
  note bf = buddy_facts [OF al, folded y_def]
  have B: "B = insert (y, k) B'" using y by (auto simp: B'_def y_def)
  have fr: "frames a = frames (x, k) \<union> frames (y, k)" using bf(4) by (simp add: a_def y_def)
  show eq: "frames_of (insert a B') = frames_of (insert (x, k) B)" using B fr by auto
  have dis: "frames a \<inter> frames_of B' = {}"
  proof -
    have "(y, k) \<notin> B'" by (simp add: B'_def y_def)
    moreover have "blocks_ok n (insert (x, k) (insert (y, k) B'))" "(x, k) \<notin> insert (y, k) B'" using ok B by simp_all
    ultimately show ?thesis unfolding fr blocks_ok_insert frames_of_simps by blast
  qed
  have "frames a \<noteq> {}" using base_in_frames [of x k] fr by blast
  with dis show "a \<notin> B'" unfolding frames_of_def by blast
  have "x + 2 ^ k \<le> n" "y + 2 ^ k \<le> n" using ok(1) y by (auto simp: blocks_ok_def blk_ok_def y_def)
  moreover have "min x y + 2 ^ Suc k \<le> n"
  proof -
    have "0 < (2::nat) ^ k" by simp
    then have "z + 2 ^ Suc k - 1 \<in> frames (z, Suc k)" for z unfolding mem_frames power_Suc by linarith
    then have "min x y + 2 ^ Suc k - 1 \<in> frames (x, k) \<union> frames (y, k)" unfolding bf(4) [symmetric] by blast
    with calculation show ?thesis by (auto simp: mem_frames)
  qed
  ultimately have "blk_ok n a" using k bf(3) by (simp add: blk_ok_def a_def y_def)
  with dis show "blocks_ok n (insert a B')"
    using blocks_ok_subset [OF ok(1), of B'] by (auto simp: blocks_ok_insert B)
qed

lemma split_ok:
  assumes ok: "blocks_ok n (insert (x, Suc k) B)" "(x, Suc k) \<notin> B"
  shows "blocks_ok n (insert (x, k) (insert (x + 2 ^ k, k) B))" "(x, k) \<notin> insert (x + 2 ^ k, k) B" "(x + 2 ^ k, k) \<notin> B"
    "frames (x, Suc k) = frames (x, k) \<union> frames (x + 2 ^ k, k)"
proof -
  show fr: "frames (x, Suc k) = frames (x, k) \<union> frames (x + 2 ^ k, k)" by (auto simp: frames_def)
  have dis: "frames (x, Suc k) \<inter> frames_of B = {}" using ok by (auto simp: blocks_ok_insert)
  then have "a \<notin> B" if "frames a \<subseteq> frames (x, Suc k)" "frames a \<noteq> {}" for a
    using that unfolding frames_of_def by blast
  then show "(x, k) \<notin> insert (x + 2 ^ k, k) B" "(x + 2 ^ k, k) \<notin> B"
    using base_in_frames unfolding fr by fastforce+
  have "2 ^ Suc k dvd x" using ok(1) by (auto simp: blocks_ok_def blk_ok_def)
  then have "(2::nat) ^ k dvd x" by (rule dvd_trans [rotated]) simp
  then have "blk_ok n (x, k)" "blk_ok n (x + 2 ^ k, k)" using ok(1) by (auto simp: blocks_ok_def blk_ok_def)
  moreover have "frames (x, k) \<inter> frames (x + 2 ^ k, k) = {}" by (auto simp: frames_def)
  ultimately show "blocks_ok n (insert (x, k) (insert (x + 2 ^ k, k) B))"
    using ok dis by (auto simp: blocks_ok_insert fr)
qed

section \<open>The operations on blocks\<close>

text \<open>
  \<open>blocks b F A\<close>: the free lists \<open>F\<close> and the blocks \<open>A\<close> held outside them are aligned, in range and
  pairwise disjoint.  \<open>keeps\<close>: an operation leaves the orders recorded for the blocks of \<open>A\<close> alone.
\<close>

definition free_blocks :: "(nat \<Rightarrow> nat list) \<Rightarrow> blk set" where
  "free_blocks F = {(x, k). k \<le> MAX_ORDER \<and> x \<in> set (F k)}"

definition blocks :: "buddy \<Rightarrow> (nat \<Rightarrow> nat list) \<Rightarrow> blk set \<Rightarrow> bool" where
  "blocks b F A \<longleftrightarrow> free_lists b F \<and> blocks_ok (nframes b) (free_blocks F \<union> A) \<and> free_blocks F \<inter> A = {}"

definition keeps :: "blk set \<Rightarrow> buddy \<Rightarrow> buddy \<Rightarrow> bool" where
  "keeps A b b' \<longleftrightarrow> nframes b' = nframes b \<and> bfree b' = bfree b
     \<and> (\<forall>(x, k)\<in>A. fd_order (desc b' ! x) = fd_order (desc b ! x))"

lemma keeps_trans [trans]: "keeps A b b' \<Longrightarrow> keeps A b' b'' \<Longrightarrow> keeps A b b''"
  by (fastforce simp: keeps_def)

lemma keeps_subset: "keeps A b b' \<Longrightarrow> B \<subseteq> A \<Longrightarrow> keeps B b b'"
  by (auto simp: keeps_def)

lemma blk_okD: "blk_ok n (x, k) \<Longrightarrow> x < n"
  by (auto simp: blk_ok_def) (metis add_leE le_neq_implies_less not_add_less1 zero_less_numeral zero_less_power less_add_same_cancel1 order_less_le_trans)

lemma blocks_base:
  assumes "blocks b F A" "(x, k) \<in> A"
  shows "x < nframes b" "\<not> fd_free (desc b ! x)" "k \<le> MAX_ORDER"
proof -
  have "blk_ok (nframes b) (x, k)" using assms by (auto simp: blocks_def blocks_ok_def)
  then show n: "x < nframes b" and "k \<le> MAX_ORDER" by (rule blk_okD, simp add: blk_ok_def)
  show "\<not> fd_free (desc b ! x)"
  proof
    assume "fd_free (desc b ! x)"
    then have f: "(x, fd_order (desc b ! x)) \<in> free_blocks F"
      using n assms by (auto simp: blocks_def free_lists_def free_blocks_def)
    then have "fd_order (desc b ! x) = k"
      using blocks_same_base [of "nframes b" "free_blocks F \<union> A" x _ k] assms by (auto simp: blocks_def)
    with f assms show False by (auto simp: blocks_def)
  qed
qed

lemma insert_block:
  assumes bl: "blocks b F (insert (x, k) A)" and n: "(x, k) \<notin> A"
  shows "\<exists>b' F'. buddy_insert b x k = Some b' \<and> blocks b' F' A \<and> free_blocks F' = insert (x, k) (free_blocks F) \<and> keeps A b b'"
proof -
  note x = blocks_base [OF bl insertI1]
  from buddy_insert_ok [OF _ x(1,2,3), of F] bl obtain b' where b': "buddy_insert b x k = Some b'"
    "free_lists b' (F(k := x # F k))" "same_marks x b b'" by (auto simp: blocks_def)
  have fb: "free_blocks (F(k := x # F k)) = insert (x, k) (free_blocks F)"
    using x(3) by (auto simp: free_blocks_def)
  have "y \<noteq> x" if "(y, j) \<in> A" for y j
    using blocks_same_base [of "nframes b" "free_blocks F \<union> insert (x, k) A" y j k] bl n that by (auto simp: blocks_def)
  then have "keeps A b b'" using b'(3) blocks_base(1) [OF bl] by (fastforce simp: keeps_def same_marks_def)
  moreover have "blocks b' (F(k := x # F k)) A"
    using b'(2,3) bl n unfolding blocks_def fb by (auto simp: same_marks_def)
  ultimately show ?thesis using b'(1) fb by blast
qed

lemma unlink_block:
  assumes bl: "blocks b F A" and x: "(x, k) \<in> free_blocks F"
  shows "\<exists>b' F'. unlink b x k = Some b' \<and> blocks b' F' (insert (x, k) A) \<and> free_blocks F' = free_blocks F - {(x, k)}
    \<and> (x, k) \<notin> A \<and> keeps A b b'"
proof -
  have k: "k \<le> MAX_ORDER" "x \<in> set (F k)" using x by (auto simp: free_blocks_def)
  from unlink_ok [of b F x k] k bl obtain b' where b': "unlink b x k = Some b'"
    "free_lists b' (F(k := remove1 x (F k)))" "same_marks x b b'" by (auto simp: blocks_def)
  have "distinct (F k)" using bl k by (auto simp: blocks_def free_lists_def)
  then have fb: "free_blocks (F(k := remove1 x (F k))) = free_blocks F - {(x, k)}"
    by (auto simp: free_blocks_def split: if_splits)
  have n: "(x, k) \<notin> A" using bl x by (auto simp: blocks_def)
  have "y \<noteq> x" if "(y, j) \<in> A" for y j
    using blocks_same_base [of "nframes b" "free_blocks F \<union> A" y j k] bl n x that by (auto simp: blocks_def)
  then have "keeps A b b'" using b'(3) blocks_base(1) [OF bl] by (fastforce simp: keeps_def same_marks_def)
  moreover have "free_blocks F - {(x, k)} \<union> insert (x, k) A = free_blocks F \<union> A" using x by auto
  then have "blocks b' (F(k := remove1 x (F k))) (insert (x, k) A)"
    using b'(2,3) bl unfolding blocks_def fb by (auto simp: same_marks_def)
  ultimately show ?thesis using b'(1) fb n by blast
qed

lemma free_head:
  assumes "blocks b F A" "y < nframes b" "fd_free (desc b ! y)" "fd_order (desc b ! y) = k"
  shows "(y, k) \<in> free_blocks F"
  using assms by (auto simp: blocks_def free_lists_def free_blocks_def)

lemma no_pairs_insert:
  assumes "no_pairs B" "k = MAX_ORDER \<or> (x XOR 2 ^ k, k) \<notin> B" "2 ^ k dvd x" shows "no_pairs (insert (x, k) B)"
proof -
  have "y = x XOR 2 ^ k" if "x = y XOR 2 ^ k" for y using that by (simp add: xor.assoc)
  then show ?thesis using assms buddy_facts(2) [OF assms(3)] unfolding no_pairs_def by (metis insert_iff prod.inject)
qed

lemma no_pairs_subset: "no_pairs B \<Longrightarrow> C \<subseteq> B \<Longrightarrow> no_pairs C"
  unfolding no_pairs_def by blast

lemma coalesce_ok:
  assumes "blocks b F (insert (x, k) A)" "(x, k) \<notin> A"
  shows "\<exists>b' F'. coalesce b x k = Some b' \<and> blocks b' F' A
    \<and> frames_of (free_blocks F') = frames (x, k) \<union> frames_of (free_blocks F) \<and> keeps A b b'
    \<and> (no_pairs (free_blocks F) \<longrightarrow> no_pairs (free_blocks F'))"
  using assms
proof (induction "MAX_ORDER - k" arbitrary: b F x k)
  case 0
  have k: "k = MAX_ORDER" using blocks_base(3) [OF 0(2) insertI1] 0(1) by simp
  obtain b' F' where r: "buddy_insert b x k = Some b'" "blocks b' F' A" "free_blocks F' = insert (x, k) (free_blocks F)" "keeps A b b'"
    using insert_block [OF 0(2,3)] by blast
  have "2 ^ k dvd x" using 0(2) by (auto simp: blocks_def blocks_ok_def blk_ok_def)
  then have "no_pairs (free_blocks F) \<longrightarrow> no_pairs (free_blocks F')" unfolding r(3) using k no_pairs_insert by blast
  moreover have "coalesce b x k = Some b'" using r(1) k coalesce.simps [of b x k] by simp
  ultimately show ?case using r by auto
next
  case (Suc m)
  note bl = Suc(3) and n = Suc(4)
  have k: "k < MAX_ORDER" "k < 32" and al: "2 ^ k dvd x"
    using Suc(2) blocks_base(3) [OF bl insertI1] bl by (auto simp: MAX_ORDER_def blocks_def blocks_ok_def blk_ok_def)
  define y where "y = x XOR 2 ^ k"
  show ?case
  proof (cases "y < nframes b \<and> fd_free (desc b ! y) \<and> fd_order (desc b ! y) = k")
    case True
    then have y: "(y, k) \<in> free_blocks F" using free_head [OF bl] by blast
    obtain b1 F1 where b1: "unlink b y k = Some b1" "blocks b1 F1 (insert (y, k) (insert (x, k) A))"
      "free_blocks F1 = free_blocks F - {(y, k)}" "(y, k) \<notin> insert (x, k) A" "keeps (insert (x, k) A) b b1"
      using unlink_block [OF bl y] by blast
    have B: "free_blocks F \<union> A - {(y, k)} = free_blocks F1 \<union> A" using b1(3,4) by auto
    have ok: "blocks_ok (nframes b) (insert (x, k) (free_blocks F \<union> A))" "(x, k) \<notin> free_blocks F \<union> A"
      using bl n by (auto simp: blocks_def)
    note mo = merge_ok [OF ok _ k(1), folded y_def, unfolded B]
    have nf: "nframes b1 = nframes b" using b1(5) by (simp add: keeps_def)
    have "blocks b1 F1 (insert (min x y, Suc k) A)" "(min x y, Suc k) \<notin> A"
      using mo(1,2) y b1(2,3) bl unfolding blocks_def nf by auto
    with Suc(1) [of "Suc k" b1 F1 "min x y"] Suc(2) obtain b' F' where r: "coalesce b1 (min x y) (Suc k) = Some b'"
      "blocks b' F' A" "frames_of (free_blocks F') = frames (min x y, Suc k) \<union> frames_of (free_blocks F1)" "keeps A b1 b'"
      "no_pairs (free_blocks F1) \<longrightarrow> no_pairs (free_blocks F')" by (metis diff_Suc_Suc Suc_diff_Suc diff_Suc_1 k(1))
    have "coalesce b x k = Some b'"
      using True k r(1) b1(1) bl by (auto simp: coalesce.simps [of b x k] shl1_w_def Let_def y_def [symmetric] idx_def blocks_def free_lists_def min_def not_less
          split: if_splits)
    moreover have "frames_of (free_blocks F) = frames (y, k) \<union> frames_of (free_blocks F1)" using y b1(3) by (metis frames_of_simps(2) insert_Diff)
    then have "frames_of (free_blocks F') = frames (x, k) \<union> frames_of (free_blocks F)"
      using r(3) buddy_facts(4) [OF al] by (auto simp: y_def)
    ultimately show ?thesis
      using r b1(3) keeps_trans [OF keeps_subset [OF b1(5)] r(4)] no_pairs_subset [of "free_blocks F" "free_blocks F1"] by blast
  next
    case False
    have ny: "(y, k) \<notin> free_blocks F"
      using False blocks_base(1) free_listsD(4,5) [of b F k y] bl by (auto simp: free_blocks_def blocks_def)
    obtain b' F' where r: "buddy_insert b x k = Some b'" "blocks b' F' A" "free_blocks F' = insert (x, k) (free_blocks F)" "keeps A b b'"
      using insert_block [OF bl n] by blast
    have "coalesce b x k = Some b'"
      using False k r(1) bl by (auto simp: coalesce.simps [of b x k] shl1_w_def Let_def y_def [symmetric] idx_def blocks_def free_lists_def)
    with r ny al show ?thesis by (auto simp: y_def intro!: no_pairs_insert)
  qed
qed

end
