(* ===== verification/Mem_Buddy_Ops.thy ===== *)
theory Mem_Buddy_Ops
  imports Mem_Buddy_Inv
begin

text \<open>
  The public operations of the buddy allocator over the block layer, the machine that runs any
  sequence of them, and the allocator's correctness properties: safety of what is handed out,
  conservation of frames, and full coalescing.
\<close>

section \<open>Allocation, release and initialisation\<close>

definition buddy_ok :: "nat \<Rightarrow> buddy \<Rightarrow> (nat \<Rightarrow> nat list) \<Rightarrow> blk set \<Rightarrow> nat set \<Rightarrow> bool" where
  "buddy_ok n b F A R \<longleftrightarrow> nframes b = n \<and> blocks b F A \<and> (\<forall>(x, k)\<in>A. fd_order (desc b ! x) = k)
     \<and> bfree b = card (frames_of (free_blocks F)) \<and> frames_of (free_blocks F) \<union> frames_of A = R"

lemma blocks_bfree [simp]: "blocks (b\<lparr>bfree := f\<rparr>) F A = blocks b F A"
  by (simp add: blocks_def free_lists_def)

lemma blocks_limit:
  assumes "blocks b F A"
  shows "frames_of (free_blocks F) \<union> frames_of A \<subseteq> {..<nframes b}" "nframes b < 2 ^ 32"
    "frames_of (free_blocks F) \<inter> frames_of A = {}"
proof -
  have ok: "blocks_ok (nframes b) (free_blocks F \<union> A)" "free_blocks F \<inter> A = {}" using assms by (auto simp: blocks_def)
  show "frames_of (free_blocks F) \<union> frames_of A \<subseteq> {..<nframes b}" using blocks_range [OF ok(1)] by simp
  show "nframes b < 2 ^ 32" using assms by (auto simp: blocks_def free_lists_def NIL_FRAME_def)
  have "frames a \<inter> frames c = {}" if "a \<in> free_blocks F" "c \<in> A" for a c
  proof -
    have "a \<noteq> c" using that ok(2) by blast
    then show ?thesis using ok(1) that unfolding blocks_ok_def by blast
  qed
  then show "frames_of (free_blocks F) \<inter> frames_of A = {}" unfolding frames_of_def by blast
qed

lemma card_frames_insert:
  assumes "blocks b F (insert (x, k) A)"
  shows "card (frames (x, k) \<union> frames_of (free_blocks F)) = 2 ^ k + card (frames_of (free_blocks F))"
    "2 ^ k + card (frames_of (free_blocks F)) < 2 ^ 32"
proof -
  note l = blocks_limit [OF assms]
  have f: "finite (frames_of (free_blocks F))" using l(1) finite_subset by blast
  show c: "card (frames (x, k) \<union> frames_of (free_blocks F)) = 2 ^ k + card (frames_of (free_blocks F))"
    using card_Un_disjoint [OF card_frames(2) f] l(3) by auto
  have "card (frames (x, k) \<union> frames_of (free_blocks F)) \<le> card {..<nframes b}"
    by (rule card_mono) (use l(1) in auto)
  with c l(2) show "2 ^ k + card (frames_of (free_blocks F)) < 2 ^ 32" by simp
qed

lemma buddy_free_ok:
  assumes ok: "buddy_ok n b F A R" and x: "(x, k) \<in> A"
  shows "\<exists>b' F'. buddy_free b x = Some b' \<and> buddy_ok n b' F' (A - {(x, k)}) R
    \<and> (no_pairs (free_blocks F) \<longrightarrow> no_pairs (free_blocks F'))"
proof -
  define A' where "A' = A - {(x, k)}"
  have A: "A = insert (x, k) A'" "(x, k) \<notin> A'" using x by (auto simp: A'_def)
  have bl: "blocks b F (insert (x, k) A')" using ok A by (simp add: buddy_ok_def)
  note xb = blocks_base [OF bl insertI1]
  have x: "x < length (desc b)" "fd_order (desc b ! x) = k" "k < 32"
    using ok x xb bl by (auto simp: buddy_ok_def blocks_def free_lists_def MAX_ORDER_def)
  define f where "f = bfree b + 2 ^ k"
  have bf: "bfree b = card (frames_of (free_blocks F))" using ok by (simp add: buddy_ok_def)
  from coalesce_ok [of "b\<lparr>bfree := f\<rparr>" F x k A'] bl A obtain b' F' where r: "coalesce (b\<lparr>bfree := f\<rparr>) x k = Some b'" "blocks b' F' A'"
    "frames_of (free_blocks F') = frames (x, k) \<union> frames_of (free_blocks F)" "keeps A' (b\<lparr>bfree := f\<rparr>) b'"
    "no_pairs (free_blocks F) \<longrightarrow> no_pairs (free_blocks F')" by auto
  have "buddy_free b x = Some b'"
    using x r(1) card_frames_insert(2) [OF bl] bf by (simp add: buddy_free_def idx_def shl1_w_def add_w_def f_def add.commute)
  moreover have "buddy_ok n b' F' A' R"
    unfolding buddy_ok_def using r(2,3,4) ok A card_frames_insert(1) [OF bl]
    by (auto simp: buddy_ok_def keeps_def f_def)
  ultimately show ?thesis using r(5) A'_def by blast
qed

lemma split_down_ok:
  assumes "blocks b F (insert (x, ord) A)" "(x, ord) \<notin> A" "k \<le> ord"
  shows "\<exists>b' F'. split_down b x ord k = Some b' \<and> blocks b' F' (insert (x, k) A) \<and> (x, k) \<notin> A
    \<and> frames (x, k) \<union> frames_of (free_blocks F') = frames (x, ord) \<union> frames_of (free_blocks F) \<and> keeps A b b'
    \<and> (no_pairs (free_blocks F) \<longrightarrow> no_pairs (free_blocks F'))"
  using assms
proof (induction ord arbitrary: b F)
  case 0
  then show ?case by (auto simp: keeps_def)
next
  case (Suc ord)
  show ?case
  proof (cases "k = Suc ord")
    case False
    define u where "u = x + 2 ^ ord"
    have ok: "blocks_ok (nframes b) (insert (x, Suc ord) (free_blocks F \<union> A))" "(x, Suc ord) \<notin> free_blocks F \<union> A"
      using Suc.prems(1,2) by (auto simp: blocks_def)
    note so = split_ok [OF ok, folded u_def]
    have bl: "blocks b F (insert (u, ord) (insert (x, ord) A))" "(u, ord) \<notin> insert (x, ord) A"
      using so Suc.prems(1) by (auto simp: blocks_def insert_commute)
    obtain b1 F1 where b1: "buddy_insert b u ord = Some b1" "blocks b1 F1 (insert (x, ord) A)"
      "free_blocks F1 = insert (u, ord) (free_blocks F)" "keeps (insert (x, ord) A) b b1"
      using insert_block [OF bl] by blast
    have nx: "(x, ord) \<notin> A" using so(2) by auto
    obtain b' F' where r: "split_down b1 x ord k = Some b'" "blocks b' F' (insert (x, k) A)" "(x, k) \<notin> A"
      "frames (x, k) \<union> frames_of (free_blocks F') = frames (x, ord) \<union> frames_of (free_blocks F1)" "keeps A b1 b'"
      "no_pairs (free_blocks F1) \<longrightarrow> no_pairs (free_blocks F')"
      using Suc.IH [OF b1(2) nx] False Suc.prems(3) by auto
    have "ord < 32" "u < 2 ^ 32"
      using blocks_base [OF bl(1) insertI1] blocks_limit(2) [OF bl(1)] by (auto simp: MAX_ORDER_def)
    then have "split_down b x (Suc ord) k = Some b'"
      using r(1) b1(1) False Suc.prems(3) by (simp add: shl1_w_def add_w_def u_def)
    moreover have "no_pairs (free_blocks F1)" if "no_pairs (free_blocks F)"
    proof -
      have al: "2 ^ Suc ord dvd x" "2 ^ ord dvd x" "2 ^ ord dvd u"
        using ok(1) by (auto simp: blocks_ok_def blk_ok_def u_def elim: dvd_mult_right)
      have "u XOR 2 ^ ord = x" using xor_buddy [OF al(2)] al(1) buddy_facts(5) [OF al(2)] by (simp add: u_def)
      moreover have "(x, ord) \<notin> free_blocks F" using bl(1) by (auto simp: blocks_def)
      ultimately show ?thesis unfolding b1(3) using no_pairs_insert [OF that _ al(3)] by simp
    qed
    moreover have "frames (x, k) \<union> frames_of (free_blocks F') = frames (x, Suc ord) \<union> frames_of (free_blocks F)"
      using r(4) so(4) b1(3) by auto
    ultimately show ?thesis
      using r keeps_trans [OF keeps_subset [OF b1(4)] r(5)] by blast
  qed (use Suc.prems in \<open>auto simp: keeps_def\<close>)
qed

lemma search_order_ok:
  assumes "free_lists b F" "k \<le> Suc MAX_ORDER"
  shows "\<exists>j. search_order b k = Some j \<and> k \<le> j \<and> (\<forall>i. k \<le> i \<and> i < j \<longrightarrow> F i = []) \<and> (j \<le> MAX_ORDER \<longrightarrow> F j \<noteq> [])"
  using assms
proof (induction "Suc MAX_ORDER - k" arbitrary: k)
  case 0
  then show ?case by (auto simp: search_order.simps [of b k])
next
  case (Suc m)
  then have k: "k \<le> MAX_ORDER" by simp
  note D = free_listsD [OF Suc.prems(1) k]
  show ?case
  proof (cases "F k = []")
    case True
    have "search_order b k = search_order b (k + 1)"
      using True k D(3,6) by (simp add: search_order.simps [of b k] idx_def)
    moreover obtain j where j: "search_order b (k + 1) = Some j" "k + 1 \<le> j"
      "\<forall>i. k + 1 \<le> i \<and> i < j \<longrightarrow> F i = []" "j \<le> MAX_ORDER \<longrightarrow> F j \<noteq> []"
    proof -
      have "m = Suc MAX_ORDER - (k + 1)" "k + 1 \<le> Suc MAX_ORDER" using Suc.hyps(2) k by auto
      from Suc.hyps(1) [OF this(1) Suc.prems(1) this(2)] show thesis using that by blast
    qed
    moreover have "F i = []" if "k \<le> i" "i < j" for i using that j(3) True by (cases "i = k") auto
    ultimately show ?thesis by auto
  qed (use k D(3,6) in \<open>auto simp: search_order.simps [of b k] idx_def\<close>)
qed

lemma free_lists_mark:
  assumes "free_lists b F" "x < nframes b" "\<not> fd_free (desc b ! x)"
  shows "free_lists (b\<lparr>desc := (desc b)[x := (desc b ! x)\<lparr>fd_order := k, fd_free := False\<rparr>], bfree := f\<rparr>) F"
proof -
  define d where "d = (desc b)[x := (desc b ! x)\<lparr>fd_order := k, fd_free := False\<rparr>]"
  have len: "length (desc b) = nframes b" using assms by (simp add: free_lists_def)
  have m: "fd_free (d ! y) = fd_free (desc b ! y) \<and> (fd_free (d ! y) \<longrightarrow> fd_order (d ! y) = fd_order (desc b ! y))
      \<and> fd_next (d ! y) = fd_next (desc b ! y) \<and> fd_prev (d ! y) = fd_prev (desc b ! y)" if "y < nframes b" for y
    using that assms len by (auto simp: d_def nth_list_update)
  have "dll d NIL_FRAME (heads b ! j) (F j)" if "j \<le> MAX_ORDER" for j
    by (rule dll_cong [OF free_listsD(1) [OF assms(1) that]]) (use m free_listsD(4) [OF assms(1) that] in \<open>auto simp: d_def\<close>)
  then show ?thesis unfolding d_def [symmetric] using assms(1) m by (auto simp: free_lists_def d_def)
qed

lemma buddy_alloc_ok:
  assumes ok: "buddy_ok n b F A R"
  shows "(\<exists>b' F' x. buddy_alloc b k = Some (Some x, b') \<and> (x, k) \<notin> A \<and> buddy_ok n b' F' (insert (x, k) A) R
       \<and> (no_pairs (free_blocks F) \<longrightarrow> no_pairs (free_blocks F')))
    \<or> buddy_alloc b k = Some (None, b) \<and> (MAX_ORDER < k \<or> (\<forall>j. k \<le> j \<and> j \<le> MAX_ORDER \<longrightarrow> F j = []))"
proof (cases "MAX_ORDER < k")
  case False
  have bl: "blocks b F A" using ok by (simp add: buddy_ok_def)
  then have fl: "free_lists b F" by (simp add: blocks_def)
  obtain j where j: "search_order b k = Some j" "k \<le> j" "\<forall>i. k \<le> i \<and> i < j \<longrightarrow> F i = []" "j \<le> MAX_ORDER \<longrightarrow> F j \<noteq> []"
    using search_order_ok [OF fl, of k] False by auto
  show ?thesis
  proof (cases "j \<le> MAX_ORDER")
    case True
    define x where "x = heads b ! j"
    have x: "(x, j) \<in> free_blocks F" "j < length (heads b)"
      using free_listsD(3,6,7) [OF fl True] j(4) True by (auto simp: x_def free_blocks_def)
    obtain b1 F1 where b1: "unlink b x j = Some b1" "blocks b1 F1 (insert (x, j) A)"
      "free_blocks F1 = free_blocks F - {(x, j)}" "(x, j) \<notin> A" "keeps A b b1"
      using unlink_block [OF bl x(1)] by blast
    obtain b2 F2 where b2: "split_down b1 x j k = Some b2" "blocks b2 F2 (insert (x, k) A)" "(x, k) \<notin> A"
      "frames (x, k) \<union> frames_of (free_blocks F2) = frames (x, j) \<union> frames_of (free_blocks F1)" "keeps A b1 b2"
      "no_pairs (free_blocks F1) \<longrightarrow> no_pairs (free_blocks F2)"
      using split_down_ok [OF b1(2,4) j(2)] by blast
    note xb = blocks_base [OF b2(2) insertI1]
    have fr: "frames (x, k) \<union> frames_of (free_blocks F2) = frames_of (free_blocks F)"
      using b2(4) b1(3) x(1) by (metis frames_of_simps(2) insert_Diff)
    have kp: "keeps A b b2" using keeps_trans [OF b1(5) b2(5)] .
    have card: "bfree b2 = 2 ^ k + card (frames_of (free_blocks F2))"
      using card_frames_insert(1) [OF b2(2)] fr ok kp by (simp add: buddy_ok_def keeps_def)
    have len: "x < length (desc b2)" using xb(1) b2(2) by (auto simp: blocks_def free_lists_def)
    define b' where "b' = b2\<lparr>desc := (desc b2)[x := (desc b2 ! x)\<lparr>fd_order := k, fd_free := False\<rparr>], bfree := bfree b2 - 2 ^ k\<rparr>"
    have "buddy_alloc b k = Some (Some x, b')"
      using False j True x b1(1) b2(1) len card xb(3)
      by (simp add: buddy_alloc_def idx_def upd_def shl1_w_def sub_w_def x_def [symmetric] b'_def MAX_ORDER_def)
    moreover have "blocks b' F2 (insert (x, k) A)"
      using free_lists_mark [of b2 F2 x "bfree b2 - 2 ^ k" k] b2(2) xb by (auto simp: blocks_def b'_def)
    moreover have "fd_order (desc b' ! y) = i" if "(y, i) \<in> insert (x, k) A" for y i
    proof (cases "(y, i) = (x, k)")
      case False
      then have "y \<noteq> x" using that b2(2,3) blocks_same_base [of "nframes b2" "free_blocks F2 \<union> insert (x, k) A" y i k] by (auto simp: blocks_def)
      then show ?thesis using that kp ok by (auto simp: b'_def keeps_def buddy_ok_def)
    qed (use len in \<open>simp add: b'_def\<close>)
    ultimately have "buddy_ok n b' F2 (insert (x, k) A) R"
      using card fr ok kp by (auto simp: buddy_ok_def b'_def keeps_def)
    with \<open>buddy_alloc b k = _\<close> b2(3,6) b1(3) no_pairs_subset [of "free_blocks F" "free_blocks F1"] show ?thesis by blast
  qed (use j False in \<open>auto simp: buddy_alloc_def\<close>)
qed (simp add: buddy_alloc_def)

lemma trailing_zeros_dvd: "n \<noteq> 0 \<Longrightarrow> 2 ^ trailing_zeros n dvd n"
proof (induction n rule: trailing_zeros.induct)
  case (1 n)
  show ?case
  proof (cases "odd n")
    case False
    then have "2 * 2 ^ trailing_zeros (n div 2) dvd 2 * (n div 2)" using 1 by (intro mult_dvd_mono) auto
    moreover have "2 * (n div 2) = n" using False by simp
    ultimately show ?thesis using False 1(2) by (simp only: trailing_zeros.simps [of n] if_False power_Suc)
  qed (simp add: trailing_zeros.simps [of n] 1(2))
qed

lemma ilog2_le: "1 \<le> n \<Longrightarrow> 2 ^ ilog2 n \<le> n"
proof (induction n rule: ilog2.induct)
  case (1 n)
  show ?case
  proof (cases "n \<le> 1")
    case False
    then have "2 ^ ilog2 (n div 2) \<le> n div 2" using 1(1) by simp
    then have "2 * 2 ^ ilog2 (n div 2) \<le> n" by linarith
    then show ?thesis using False by (simp add: ilog2.simps [of n])
  qed (use 1(2) in \<open>simp add: ilog2.simps [of n]\<close>)
qed

lemma run_order_ok:
  assumes "base < end"
  shows "run_order base end \<le> MAX_ORDER" "2 ^ run_order base end dvd base" "base + 2 ^ run_order base end \<le> end"
proof -
  define k where "k = run_order base end"
  show "run_order base end \<le> MAX_ORDER" by (simp add: run_order_def)
  have "base = 0 \<or> k \<le> trailing_zeros base" unfolding k_def run_order_def by (metis min.cobounded1 min.coboundedI1)
  then show "2 ^ run_order base end dvd base"
    unfolding k_def [symmetric] using trailing_zeros_dvd [of base] by (cases "base = 0") (auto intro: power_le_dvd)
  have "k \<le> ilog2 (end - base)" unfolding k_def run_order_def by (metis min.cobounded2 min.coboundedI1)
  then have "(2::nat) ^ k \<le> 2 ^ ilog2 (end - base)" by (simp add: power_increasing)
  then show "base + 2 ^ run_order base end \<le> end"
    unfolding k_def [symmetric] using ilog2_le [of "end - base"] assms by linarith
qed

lemma add_loop_ok:
  assumes "buddy_ok n b F A R" "base \<le> end" "end \<le> n" "{base..<end} \<inter> R = {}"
  shows "\<exists>b' F'. add_loop b base end = Some b' \<and> buddy_ok n b' F' A (R \<union> {base..<end})"
  using assms
proof (induction "end - base" arbitrary: b F base R rule: less_induct)
  case less
  show ?case
  proof (cases "base < end")
    case True
    define k where "k = run_order base end"
    note k = run_order_ok [OF True, folded k_def]
    have bl: "blocks b F A" and nf: "nframes b = n" and R: "R = frames_of (free_blocks F) \<union> frames_of A"
      using less.prems(1) by (auto simp: buddy_ok_def)
    have fr: "frames (base, k) \<inter> R = {}" using less.prems(4) k(3) by (auto simp: frames_def disjoint_iff)
    have new: "(base, k) \<notin> free_blocks F \<union> A" using fr R base_in_frames [of base k] unfolding frames_of_def by blast
    have bl1: "blocks b F (insert (base, k) A)"
      using bl new fr R k less.prems(3) nf by (auto simp: blocks_def blocks_ok_insert blk_ok_def Int_Un_distrib)
    note ci = card_frames_insert [OF bl1]
    define f where "f = bfree b + 2 ^ k"
    obtain b1 F1 where b1: "buddy_insert (b\<lparr>bfree := f\<rparr>) base k = Some b1" "blocks b1 F1 A"
      "free_blocks F1 = insert (base, k) (free_blocks F)" "keeps A (b\<lparr>bfree := f\<rparr>) b1"
      using insert_block [of "b\<lparr>bfree := f\<rparr>" F base k A] bl1 new by auto
    have ok1: "buddy_ok n b1 F1 A (R \<union> frames (base, k))"
      using b1 less.prems(1) ci(1) by (auto simp: buddy_ok_def keeps_def f_def)
    have "end < 2 ^ 32" using blocks_limit(2) [OF bl] less.prems(3) nf by simp
    then have eq: "add_loop b base end = add_loop b1 (base + 2 ^ k) end"
      using True k(1,3) b1(1) ci(2) less.prems(1)
      by (simp add: add_loop.simps [of b base] k_def [symmetric] shl1_w_def add_w_def MAX_ORDER_def f_def buddy_ok_def add.commute)
    have pos: "0 < (2::nat) ^ k" by simp
    have "{base..<end} = frames (base, k) \<union> {base + 2 ^ k..<end}" using k(3) by (auto simp: frames_def)
    then have u: "R \<union> frames (base, k) \<union> {base + 2 ^ k..<end} = R \<union> {base..<end}" by auto
    have "{base + 2 ^ k..<end} \<inter> (R \<union> frames (base, k)) = {}" using less.prems(4) by (auto simp: frames_def disjoint_iff)
    moreover have "end - (base + 2 ^ k) < end - base" using True pos by linarith
    ultimately show ?thesis using less.hyps [OF _ ok1 k(3) less.prems(3)] unfolding eq u by blast
  next
    case False
    then have "add_loop b base end = Some b" by (simp add: add_loop.simps [of b base])
    then show ?thesis using less.prems False by auto
  qed
qed

lemma add_frames_ok:
  assumes ok: "buddy_ok n b F A R" and run: "start + count \<le> n" "{start..<start + count} \<inter> R = {}"
  shows "\<exists>b' F'. add_frames b start count = Some b' \<and> buddy_ok n b' F' A (R \<union> {start..<start + count})"
proof (cases "count = 0")
  case False
  have "start + count < 2 ^ 32" using blocks_limit(2) [of b F A] ok run(1) by (auto simp: buddy_ok_def)
  then show ?thesis using add_loop_ok [OF ok _ run] False by (simp add: add_frames_def add_w_def)
qed (use ok in \<open>auto simp: add_frames_def\<close>)

lemma buddy_new_ok:
  assumes "length d \<le> NIL_FRAME" shows "buddy_ok (length d) (buddy_new d) (\<lambda>_. []) {} {}"
proof -
  have l: "length d mod 4294967296 = length d" using assms by (simp add: NIL_FRAME_def)
  have "free_lists (buddy_new d) (\<lambda>_. [])"
    using assms by (auto simp: free_lists_def buddy_new_def l RESERVED_def nth_Cons' MAX_ORDER_def simp del: replicate.simps)
  then show ?thesis by (auto simp: buddy_ok_def blocks_def blocks_ok_def free_blocks_def buddy_new_def l)
qed

section \<open>Runs of the allocator\<close>

datatype buddy_op = BAlloc nat | BFree nat | BAdd nat nat

type_synonym buddy_run = "buddy \<times> blk list \<times> (nat \<times> nat) list"

text \<open>A run keeps the blocks handed out and not yet freed, and the runs of frames released so far.\<close>

fun bd_step :: "buddy_op \<Rightarrow> buddy_run \<Rightarrow> buddy_run" where
  "bd_step (BAlloc k) (b, h, r) =
     (case buddy_alloc b k of Some (Some x, b') \<Rightarrow> (b', (x, k) # h, r) | Some (None, b') \<Rightarrow> (b', h, r) | None \<Rightarrow> (b, h, r))"
| "bd_step (BFree x) (b, h, r) =
     (case buddy_free b x of Some b' \<Rightarrow> (b', filter (\<lambda>(y, k). y \<noteq> x) h, r) | None \<Rightarrow> (b, h, r))"
| "bd_step (BAdd s c) (b, h, r) =
     (case add_frames b s c of Some b' \<Rightarrow> (b', h, (s, c) # r) | None \<Rightarrow> (b, h, r))"

definition released :: "(nat \<times> nat) list \<Rightarrow> nat set" where
  "released r = (\<Union>(s, c)\<in>set r. {s..<s + c})"

fun bd_pre :: "buddy_op \<Rightarrow> buddy_run \<Rightarrow> bool" where
  "bd_pre (BAlloc k) (b, h, r) = True"
| "bd_pre (BFree x) (b, h, r) = (x \<in> fst ` set h)"
| "bd_pre (BAdd s c) (b, h, r) = (s + c \<le> total_frames b \<and> (\<forall>(s', c')\<in>set r. s + c \<le> s' \<or> s' + c' \<le> s))"

fun bd_inv :: "nat \<Rightarrow> buddy_run \<Rightarrow> bool" where
  "bd_inv n (b, h, r) \<longleftrightarrow> distinct h \<and> (\<exists>F. buddy_ok n b F (set h) (released r))
     \<and> sum_list (map snd r) = card (released r) \<and> released r \<subseteq> {..<n}"

lemma held_same_base:
  assumes "buddy_ok n b F A R" "(x, k) \<in> A" "(x, j) \<in> A" shows "k = j"
  using blocks_same_base [of "nframes b" "free_blocks F \<union> A" x k j] assms by (auto simp: buddy_ok_def blocks_def)

lemma bd_step_inv: "bd_inv n s \<Longrightarrow> bd_pre op s \<Longrightarrow> bd_inv n (bd_step op s)"
proof -
  obtain b h r where s: "s = (b, h, r)" by (metis prod_cases3)
  assume inv: "bd_inv n s" and pre: "bd_pre op s"
  obtain F where ok: "buddy_ok n b F (set h) (released r)" using inv s by auto
  show ?thesis
  proof (cases op)
    case (BAlloc k)
    then show ?thesis using buddy_alloc_ok [OF ok, of k] inv by (auto simp: s)
  next
    case (BFree x)
    then obtain k where k: "(x, k) \<in> set h" using pre s by auto
    have "set (filter (\<lambda>(y, k). y \<noteq> x) h) = set h - {(x, k)}" using held_same_base [OF ok k] by auto
    then show ?thesis using buddy_free_ok [OF ok k] inv BFree by (auto simp: s)
  next
    case (BAdd a c)
    have t: "total_frames b = n" using ok by (simp add: buddy_ok_def total_frames_def)
    have new: "{a..<a + c} \<inter> released r = {}" using pre BAdd s by (fastforce simp: released_def)
    have r: "released ((a, c) # r) = released r \<union> {a..<a + c}" by (auto simp: released_def)
    have "finite (released r)" by (auto simp: released_def)
    then have "card (released ((a, c) # r)) = card (released r) + c" unfolding r using new by (subst card_Un_disjoint) auto
    moreover have "{a..<a + c} \<subseteq> {..<n}" using pre BAdd s t by auto
    moreover obtain b' F' where "add_frames b a c = Some b'" "buddy_ok n b' F' (set h) (released ((a, c) # r))"
      using add_frames_ok [OF ok _ new] pre BAdd s t r by auto
    ultimately show ?thesis using inv r BAdd by (auto simp: s)
  qed
qed

interpretation buddy_machine: guarded_machine bd_step bd_pre "bd_inv n" for n
  by unfold_locales (rule bd_step_inv)

lemma bd_inv_new: "length d \<le> NIL_FRAME \<Longrightarrow> bd_inv (length d) (buddy_new d, [], [])"
  using buddy_new_ok [of d] by (auto simp: released_def)

lemma held_total:
  assumes "blocks b F (set h)" "distinct h"
  shows "card (frames_of (set h)) = (\<Sum>(x, k)\<leftarrow>h. 2 ^ k)"
  using assms
proof (induction h)
  case (Cons a h)
  obtain x k where a: "a = (x, k)" by force
  have ok: "blocks_ok (nframes b) (insert a (set h))" "a \<notin> set h"
    using Cons.prems blocks_ok_subset [of "nframes b" "free_blocks F \<union> set (a # h)"] by (auto simp: blocks_def)
  then have "frames a \<inter> frames_of (set h) = {}" by (simp add: blocks_ok_insert)
  moreover have "finite (frames_of (set h))" using blocks_limit(1) [OF Cons.prems(1)] finite_subset by auto
  moreover have "blocks b F (set h)" using Cons.prems(1) blocks_ok_subset [of _ _ "free_blocks F \<union> set h"] by (auto simp: blocks_def)
  ultimately show ?case using Cons a by (simp add: card_Un_disjoint)
qed simp

section \<open>Full coalescing\<close>

lemma mem_frames_div:
  assumes "2 ^ k dvd x" shows "y \<in> frames (x, k) \<longleftrightarrow> y div 2 ^ k = x div 2 ^ k"
proof -
  obtain q where q: "x = 2 ^ k * q" using assms by blast
  have "y \<in> frames (x, k) \<longleftrightarrow> q * 2 ^ k \<le> y \<and> y < Suc q * 2 ^ k" by (auto simp: q frames_def ac_simps)
  also have "\<dots> \<longleftrightarrow> y div 2 ^ k = q" by (metis div_nat_eqI dividend_less_div_times div_times_less_eq_dividend zero_less_numeral zero_less_power mult.commute mult_Suc)
  finally show ?thesis by (simp add: q)
qed

lemma aligned_nest:
  assumes "2 ^ a dvd m" "2 ^ i dvd z" "a \<le> i" "y \<in> frames (m, a)" "y \<in> frames (z, i)"
  shows "frames (m, a) \<subseteq> frames (z, i)"
proof
  fix t assume "t \<in> frames (m, a)"
  have d: "w div 2 ^ i = w div 2 ^ a div 2 ^ (i - a)" for w :: nat
    using assms(3) by (simp add: div_mult2_eq [symmetric] power_add [symmetric])
  have "t div 2 ^ a = y div 2 ^ a" using assms(1,4) \<open>t \<in> _\<close> by (simp add: mem_frames_div)
  then have "t div 2 ^ i = y div 2 ^ i" by (simp add: d)
  then show "t \<in> frames (z, i)" using assms(2,5) by (simp add: mem_frames_div)
qed

lemma full_coalesce:
  assumes ok: "blocks_ok n B" and np: "no_pairs B" and fr: "frames_of B = {0..<2 ^ k}" and k: "k \<le> MAX_ORDER"
  shows "(0, k) \<in> B"
proof -
  have "0 \<in> frames_of B" unfolding fr by simp
  then have ex: "\<exists>j x. (x, j) \<in> B" by (auto simp: frames_of_def)
  define j where "j = (LEAST j. \<exists>x. (x, j) \<in> B)"
  obtain x where x: "(x, j) \<in> B" using LeastI_ex [OF ex] j_def by blast
  have least: "j \<le> i" if "(z, i) \<in> B" for z i using that Least_le [of "\<lambda>j. \<exists>x. (x, j) \<in> B"] j_def by blast
  have al: "2 ^ i dvd z" if "(z, i) \<in> B" for z i using ok that by (auto simp: blocks_ok_def blk_ok_def)
  have sub: "frames (x, j) \<subseteq> frames (0, k)"
  proof -
    have "frames (x, j) \<subseteq> frames_of B" using x by (auto simp: frames_of_def)
    then show ?thesis by (simp add: fr frames_def)
  qed
  have jk: "j \<le> k" using card_mono [OF card_frames(2) sub] by simp
  show ?thesis
  proof (cases "j = k")
    case True
    have "x + 2 ^ k \<le> 2 ^ k"
    proof -
      have "0 < (2::nat) ^ k" by simp
      then have "x + 2 ^ k - 1 \<in> frames (x, j)" unfolding mem_frames True by linarith
      with sub have "x + 2 ^ k - 1 < 2 ^ k" unfolding mem_frames subset_iff by force
      then show ?thesis by linarith
    qed
    then show ?thesis using x True by simp
  next
    case False
    define y where "y = x XOR 2 ^ j"
    note bf = buddy_facts [OF al [OF x], folded y_def]
    have yf: "y \<in> frames (min x y, Suc j)" "frames (x, j) \<subseteq> frames (min x y, Suc j)" using bf(4) by auto
    have "frames (min x y, Suc j) \<subseteq> frames (0, k)"
      by (rule aligned_nest [OF bf(3), of k 0 x]) (use False jk yf sub in auto)
    then have "y \<in> frames_of B" using yf fr by (auto simp: frames_def)
    then obtain z i where z: "(z, i) \<in> B" "y \<in> frames (z, i)" by (auto simp: frames_of_def)
    show ?thesis
    proof (cases "i = j")
      case True
      then have "frames (z, j) = frames (y, j)"
        using aligned_nest [OF bf(1) al [OF z(1)], of y] aligned_nest [OF al [OF z(1)] bf(1), of y] z(2) by auto
      then have "z \<in> frames (y, j)" "y \<in> frames (z, j)" using base_in_frames by metis+
      then have "z = y" by (simp add: mem_frames)
      then have "j = MAX_ORDER" using np x z(1) True unfolding no_pairs_def y_def by blast
      then show ?thesis using jk k False by simp
    next
      case 2: False
      then have "Suc j \<le> i" using least [OF z(1)] by simp
      then have "frames (x, j) \<subseteq> frames (z, i)" using aligned_nest [OF bf(3) al [OF z(1)] _ yf(1) z(2)] yf(2) by blast
      moreover have "frames (x, j) \<inter> frames (z, i) = {}"
      proof -
        have "(x, j) \<noteq> (z, i)" using 2 by simp
        then show ?thesis using ok x z(1) unfolding blocks_ok_def by blast
      qed
      ultimately show ?thesis using base_in_frames [of x j] by blast
    qed
  qed
qed

section \<open>Properties\<close>

text \<open>
  (C22) The buddy allocator is safe.  Start from a fresh allocator and run any sequence of releases of
  usable frames not released before, allocations, and frees of held blocks.  Then no call traps; the
  held blocks are naturally aligned, pairwise disjoint and made of released frames; the free counter
  plus the held frames is exactly the number of frames released; the next allocation returns an
  aligned block of released frames that no holder has, or fails leaving the state alone, and then no
  free list of a sufficient order has a block (for a single frame: no frame is free).
\<close>

theorem buddy_safe:
  assumes d: "length d \<le> NIL_FRAME" and pre: "pre_ops bd_step bd_pre ops (buddy_new d, [], [])"
    and run: "run_ops bd_step ops (buddy_new d, [], []) = (b, h, r)"
  shows "(\<forall>(x, k)\<in>set h. 2 ^ k dvd x \<and> frames (x, k) \<subseteq> released r)
    \<and> (\<forall>a\<in>set h. \<forall>c\<in>set h. a \<noteq> c \<longrightarrow> frames a \<inter> frames c = {})
    \<and> free_frames b + (\<Sum>(x, k)\<leftarrow>h. 2 ^ k) = sum_list (map snd r)
    \<and> (case buddy_alloc b k of None \<Rightarrow> False
       | Some (Some x, b') \<Rightarrow> 2 ^ k dvd x \<and> frames (x, k) \<subseteq> released r \<and> (\<forall>a\<in>set h. frames (x, k) \<inter> frames a = {})
       | Some (None, b') \<Rightarrow> b' = b \<and> (MAX_ORDER < k \<or> (\<forall>j. k \<le> j \<and> j \<le> MAX_ORDER \<longrightarrow> heads b ! j = NIL_FRAME))
           \<and> (k = 0 \<longrightarrow> free_frames b = 0))
    \<and> (\<forall>x\<in>fst ` set h. buddy_free b x \<noteq> None)
    \<and> (\<forall>s c. bd_pre (BAdd s c) (b, h, r) \<longrightarrow> add_frames b s c \<noteq> None)"
proof -
  have "bd_inv (length d) (b, h, r)" using buddy_machine.run_inv [OF bd_inv_new [OF d] pre] run by simp
  then obtain F where ok: "buddy_ok (length d) b F (set h) (released r)" and h: "distinct h" "sum_list (map snd r) = card (released r)"
    by auto
  have bl: "blocks b F (set h)" and fl: "free_lists b F" and bf: "bfree b = card (frames_of (free_blocks F))"
    using ok by (auto simp: buddy_ok_def blocks_def)
  have held: "2 ^ k dvd x \<and> frames (x, k) \<subseteq> released r" if "(x, k) \<in> A" "buddy_ok (length d) b' F' A (released r)" for x k A b' F'
    using that by (auto simp: buddy_ok_def blocks_def blocks_ok_def blk_ok_def frames_of_def)
  have disj: "frames a \<inter> frames c = {}" if "a \<in> A" "c \<in> A" "a \<noteq> c" "buddy_ok (length d) b' F' A R" for a c A b' F' R
    using that unfolding buddy_ok_def blocks_def blocks_ok_def by blast
  have total: "free_frames b + (\<Sum>(x, k)\<leftarrow>h. 2 ^ k) = sum_list (map snd r)"
  proof -
    note l = blocks_limit [OF bl]
    have "card (released r) = card (frames_of (free_blocks F)) + card (frames_of (set h))"
    proof -
      have "finite (frames_of (free_blocks F))" "finite (frames_of (set h))" using l(1) finite_subset [of _ "{..<nframes b}"] by auto
      then show ?thesis using card_Un_disjoint [OF _ _ l(3)] ok by (simp add: buddy_ok_def)
    qed
    then show ?thesis using held_total [OF bl h(1)] h(2) bf by (simp add: free_frames_def)
  qed
  have empty: "heads b ! j = NIL_FRAME" if "j \<le> MAX_ORDER" "F j = []" for j using free_listsD(6) [OF fl that(1)] that(2) by simp
  have none: "free_frames b = 0" if "\<forall>j. 0 \<le> j \<and> j \<le> MAX_ORDER \<longrightarrow> F j = []"
  proof -
    have "free_blocks F = {}" using that by (auto simp: free_blocks_def)
    then show ?thesis using bf by (simp add: free_frames_def)
  qed
  have alloc: "case buddy_alloc b k of None \<Rightarrow> False
       | Some (Some x, b') \<Rightarrow> 2 ^ k dvd x \<and> frames (x, k) \<subseteq> released r \<and> (\<forall>a\<in>set h. frames (x, k) \<inter> frames a = {})
       | Some (None, b') \<Rightarrow> b' = b \<and> (MAX_ORDER < k \<or> (\<forall>j. k \<le> j \<and> j \<le> MAX_ORDER \<longrightarrow> heads b ! j = NIL_FRAME))
           \<and> (k = 0 \<longrightarrow> free_frames b = 0)"
    using buddy_alloc_ok [OF ok, of k]
  proof (elim disjE exE conjE)
    fix b' F' x assume a: "buddy_alloc b k = Some (Some x, b')" "(x, k) \<notin> set h"
      "buddy_ok (length d) b' F' (insert (x, k) (set h)) (released r)"
    then show ?thesis using held [OF insertI1 a(3)] disj [OF insertI1 _ _ a(3)] by auto
  qed (use empty none in auto)
  have fre: "buddy_free b x \<noteq> None" if "x \<in> fst ` set h" for x using that buddy_free_ok [OF ok] by force
  have add: "add_frames b s c \<noteq> None" if "bd_pre (BAdd s c) (b, h, r)" for s c
  proof -
    have "{s..<s + c} \<inter> released r = {}" using that by (fastforce simp: released_def)
    then show ?thesis using add_frames_ok [OF ok] that ok by (fastforce simp: total_frames_def buddy_ok_def)
  qed
  have hs: "\<forall>(x, k)\<in>set h. 2 ^ k dvd x \<and> frames (x, k) \<subseteq> released r"
    and ds: "\<forall>a\<in>set h. \<forall>c\<in>set h. a \<noteq> c \<longrightarrow> frames a \<inter> frames c = {}"
    using held [OF _ ok] disj [OF _ _ _ ok] by auto
  show ?thesis by (intro conjI hs ds total alloc ballI fre allI impI add)
qed

definition demo_descs :: "frame_desc list" where
  "demo_descs = replicate 8 RESERVED"

theorem buddy_safe_witness:
  "pre_ops bd_step bd_pre [BAdd 0 4, BAdd 5 3, BAlloc 1, BAlloc 0] (buddy_new demo_descs, [], [])
   \<and> fst (snd (run_ops bd_step [BAdd 0 4, BAdd 5 3, BAlloc 1, BAlloc 0] (buddy_new demo_descs, [], []))) = [(5, 0), (6, 1)]
   \<and> frames (5, 0) \<inter> frames (6, 1) = {}"
proof -
  let ?ops = "[BAdd 0 4, BAdd 5 3, BAlloc 1, BAlloc 0]" and ?s = "(buddy_new demo_descs, [], [])"
  have pre: "pre_ops bd_step bd_pre ?ops ?s" and h: "fst (snd (run_ops bd_step ?ops ?s)) = [(5, 0), (6, 1)]"
    by code_simp+
  obtain b h' r where run: "run_ops bd_step ?ops ?s = (b, h', r)" by (metis prod_cases3)
  have d: "length demo_descs \<le> NIL_FRAME" by (simp add: demo_descs_def NIL_FRAME_def)
  show ?thesis using buddy_safe [OF d pre run, of 0] h run pre by auto
qed

fun bd_local :: "buddy_op \<Rightarrow> bool" where
  "bd_local (BAdd s c) = False"
| "bd_local op = True"

fun bd_inv_np :: "nat \<Rightarrow> nat \<Rightarrow> buddy_run \<Rightarrow> bool" where
  "bd_inv_np n k (b, h, r) \<longleftrightarrow> (\<exists>F. buddy_ok n b F (set h) {0..<2 ^ k} \<and> no_pairs (free_blocks F))"

interpretation buddy_local: guarded_machine bd_step "\<lambda>op s. bd_pre op s \<and> bd_local op" "bd_inv_np n k" for n k
proof
  fix s op assume inv: "bd_inv_np n k s" and pre: "bd_pre op s \<and> bd_local op"
  obtain b h r where s: "s = (b, h, r)" by (metis prod_cases3)
  obtain F where ok: "buddy_ok n b F (set h) {0..<2 ^ k}" "no_pairs (free_blocks F)" using inv s by auto
  show "bd_inv_np n k (bd_step op s)"
  proof (cases op)
    case (BAlloc j)
    then show ?thesis using buddy_alloc_ok [OF ok(1), of j] ok by (auto simp: s)
  next
    case (BFree x)
    then obtain j where j: "(x, j) \<in> set h" using pre s by auto
    have "set (filter (\<lambda>(y, i). y \<noteq> x) h) = set h - {(x, j)}" using held_same_base [OF ok(1) j] by auto
    moreover obtain b' F' where "buddy_free b x = Some b'" "buddy_ok n b' F' (set h - {(x, j)}) {0..<2 ^ k}" "no_pairs (free_blocks F')"
      using buddy_free_ok [OF ok(1) j] ok(2) by blast
    ultimately show ?thesis unfolding s BFree by auto
  qed (use pre in simp)
qed

lemma ilog2_pow2: "ilog2 (2 ^ k) = k"
proof (induction k)
  case (Suc k)
  have "0 < (2::nat) ^ k" by simp
  then have "\<not> 2 * 2 ^ k \<le> (1::nat)" by linarith
  then show ?case using Suc by (simp add: ilog2.simps [of "2 * 2 ^ k"])
qed (simp add: ilog2.simps)

lemma add_whole_block:
  assumes "length d \<le> NIL_FRAME" "k \<le> MAX_ORDER" "2 ^ k \<le> length d"
  shows "\<exists>b. add_frames (buddy_new d) 0 (2 ^ k) = Some b \<and> bd_inv_np (length d) k (b, [], r)"
proof -
  have ok: "buddy_ok (length d) (buddy_new d) (\<lambda>_. []) {} {}" by (rule buddy_new_ok [OF assms(1)])
  then have "blocks (buddy_new d) (\<lambda>_. []) (insert (0, k) {})"
    using assms by (auto simp: buddy_ok_def blocks_def blocks_ok_def blk_ok_def free_blocks_def)
  then have bl: "blocks ((buddy_new d)\<lparr>bfree := 2 ^ k\<rparr>) (\<lambda>_. []) (insert (0, k) {})" by simp
  obtain b F where b: "buddy_insert ((buddy_new d)\<lparr>bfree := 2 ^ k\<rparr>) 0 k = Some b" "blocks b F {}"
    "free_blocks F = {(0, k)}" "keeps {} ((buddy_new d)\<lparr>bfree := 2 ^ k\<rparr>) b"
    using insert_block [OF bl] by (auto simp: free_blocks_def)
  have ro: "run_order 0 (2 ^ k) = k" using assms(2) by (simp add: run_order_def ilog2_pow2)
  have lim: "(2::nat) ^ k < 2 ^ 32" by (rule power_strict_increasing) (use assms(2) in \<open>simp_all add: MAX_ORDER_def\<close>)
  have "add_frames (buddy_new d) 0 (2 ^ k) = add_loop b (2 ^ k) (2 ^ k)"
  proof -
    have "bfree (buddy_new d) = 0" "k < 32" using assms(2) by (simp_all add: buddy_new_def MAX_ORDER_def)
    then show ?thesis
      using b(1) lim by (simp add: add_frames_def add_loop.simps [of "buddy_new d" 0] ro add_w_def shl1_w_def)
  qed
  then have "add_frames (buddy_new d) 0 (2 ^ k) = Some b" by (simp add: add_loop.simps [of b])
  moreover have "no_pairs {(0, k)}" using buddy_facts(2) [of k 0] by (auto simp: no_pairs_def)
  moreover have "buddy_ok (length d) b F {} {0..<2 ^ k}"
    using b ok by (auto simp: buddy_ok_def keeps_def frames_def)
  ultimately show ?thesis using b(3) by (auto intro!: exI [of _ F])
qed

text \<open>
  (C23) Freed blocks coalesce completely.  Release the block of \<open>2 ^ k\<close> frames at frame 0, then
  allocate and free in any order until nothing is held: the whole block can be allocated again as one
  piece, however it was split in between.
\<close>

theorem buddy_coalesces:
  assumes d: "length d \<le> NIL_FRAME" "k \<le> MAX_ORDER" "2 ^ k \<le> length d"
    and pre: "pre_ops bd_step (\<lambda>op s. bd_pre op s \<and> bd_local op) ops (bd_step (BAdd 0 (2 ^ k)) (buddy_new d, [], []))"
    and run: "run_ops bd_step ops (bd_step (BAdd 0 (2 ^ k)) (buddy_new d, [], [])) = (b, [], r)"
  shows "\<exists>b'. buddy_alloc b k = Some (Some 0, b')"
proof -
  obtain b0 where b0: "add_frames (buddy_new d) 0 (2 ^ k) = Some b0" "bd_inv_np (length d) k (b0, [], [(0, 2 ^ k)])"
    using add_whole_block [OF d] by blast
  then have "bd_inv_np (length d) k (bd_step (BAdd 0 (2 ^ k)) (buddy_new d, [], []))" by simp
  from buddy_local.run_inv [OF this pre] obtain F where
    ok: "buddy_ok (length d) b F {} {0..<2 ^ k}" "no_pairs (free_blocks F)" unfolding run by auto
  then have "(0, k) \<in> free_blocks F"
    using full_coalesce [of "length d" "free_blocks F" k] d(2) by (auto simp: buddy_ok_def blocks_def)
  then have "F k \<noteq> []" by (auto simp: free_blocks_def)
  with buddy_alloc_ok [OF ok(1), of k] d(2) obtain x b' F' where
    a: "buddy_alloc b k = Some (Some x, b')" "buddy_ok (length d) b' F' {(x, k)} {0..<2 ^ k}" by fastforce
  then have "frames (x, k) \<subseteq> {0..<2 ^ k}" by (auto simp: buddy_ok_def)
  then have "x + 2 ^ k \<le> 2 ^ k" by (simp add: frames_def)
  with a(1) show ?thesis by auto
qed

theorem buddy_coalesces_witness:
  "\<exists>b'. buddy_alloc (fst (run_ops bd_step [BAlloc 0, BAlloc 1, BFree 0, BFree 2]
     (bd_step (BAdd 0 (2 ^ 3)) (buddy_new demo_descs, [], [])))) 3 = Some (Some 0, b')"
proof -
  let ?ops = "[BAlloc 0, BAlloc 1, BFree 0, BFree 2]" and ?s = "bd_step (BAdd 0 (2 ^ 3)) (buddy_new demo_descs, [], [])"
  have pre: "pre_ops bd_step (\<lambda>op s. bd_pre op s \<and> bd_local op) ?ops ?s"
    and h: "fst (snd (run_ops bd_step ?ops ?s)) = []" by code_simp+
  obtain b h' r where run: "run_ops bd_step ?ops ?s = (b, h', r)" by (metis prod_cases3)
  have d: "length demo_descs \<le> NIL_FRAME" "3 \<le> MAX_ORDER" "2 ^ 3 \<le> length demo_descs"
    by (simp_all add: demo_descs_def NIL_FRAME_def MAX_ORDER_def)
  have h': "h' = []" using h unfolding run by simp
  show ?thesis using buddy_coalesces [OF d pre run [unfolded h']] unfolding run by simp
qed

end
