(* ===== verification/Abi_Pex.thy ===== *)
theory Abi_Pex
  imports Bytes
begin

text \<open>
  The \<^verbatim>\<open>.pex\<close> executable format of \<^verbatim>\<open>src/abi/src/pex.rs\<close>: the parser of hostile images, with every
  refusal as a \<open>pex_error\<close> and every potential trap (a \<open>usize\<close> overflow, a failed assertion or
  \<open>expect\<close>) as \<open>Panic\<close>, and its accessors.  The parser is shown to be total and its result safe to
  use: whatever the bytes, no trap, and an accepted image is W\<open>^\<close>X, aligned, bounded and in range.
\<close>

definition PEX_MAGIC :: u32 where "PEX_MAGIC = 0x01584550"
definition PEX_VERSION :: u16 where "PEX_VERSION = 1"
definition ARCH_X86_64 :: u16 where "ARCH_X86_64 = 1"
definition ARCH_AARCH64 :: u16 where "ARCH_AARCH64 = 2"
definition HEADER_LEN :: usize where "HEADER_LEN = 48"
definition SEGMENT_LEN :: usize where "SEGMENT_LEN = 32"
definition MANIFEST_LEN :: usize where "MANIFEST_LEN = 32"
definition MAX_SEGMENTS :: usize where "MAX_SEGMENTS = 16"
definition MAX_MANIFEST :: usize where "MAX_MANIFEST = 32"
definition MAX_SEGMENT_PAGES :: u64 where "MAX_SEGMENT_PAGES = 4096"
definition PERM_R :: u8 where "PERM_R = 1"
definition PERM_W :: u8 where "PERM_W = 2"
definition PERM_X :: u8 where "PERM_X = 4"
definition MANIFEST_SCHED :: u8 where "MANIFEST_SCHED = 1"
definition MANIFEST_ENDPOINT :: u8 where "MANIFEST_ENDPOINT = 2"
definition MANIFEST_FRAME :: u8 where "MANIFEST_FRAME = 3"

datatype pex_error =
    TooShort | BadMagic | BadVersion | ArchMismatch | LenMismatch | TooManyRecords | TableOutOfBounds
  | SegmentOutOfBounds | BadMemSize | SegmentTooLarge | BadPermission | Unaligned | EntryNotExecutable
  | ReservedNonZero

type_synonym 'a pex_result = "(pex_error, 'a) outcome"

definition rd :: "nat \<Rightarrow> bytes \<Rightarrow> usize \<Rightarrow> bytes pex_result" where
  "rd n b off = obind (or_trap (checked_add_usize off n)) (\<lambda>_. or_err TooShort (get_bytes b off n))"

definition rd_u16 :: "bytes \<Rightarrow> usize \<Rightarrow> u16 pex_result" where
  "rd_u16 b off = obind (rd 2 b off) (\<lambda>s. Ok (word_dec s))"

definition rd_u32 :: "bytes \<Rightarrow> usize \<Rightarrow> u32 pex_result" where
  "rd_u32 b off = obind (rd 4 b off) (\<lambda>s. Ok (word_dec s))"

definition rd_u64 :: "bytes \<Rightarrow> usize \<Rightarrow> u64 pex_result" where
  "rd_u64 b off = obind (rd 8 b off) (\<lambda>s. Ok (word_dec s))"

definition rd_u8 :: "bytes \<Rightarrow> usize \<Rightarrow> u8 pex_result" where
  "rd_u8 b off = or_err TooShort (if off < length b then Some (b ! off) else None)"

record segment =
  file_off :: u32
  file_size :: u32
  vaddr :: u64
  mem_size :: u64
  perm :: u8

definition is_exec :: "segment \<Rightarrow> bool" where
  "is_exec s \<longleftrightarrow> perm s AND PERM_X \<noteq> 0"

definition is_write :: "segment \<Rightarrow> bool" where
  "is_write s \<longleftrightarrow> perm s AND PERM_W \<noteq> 0"

record manifest_entry =
  me_cap_type :: u8
  me_dest_slot :: u16
  me_rights :: u32
  me_param0 :: u64
  me_param1 :: u64

record pex =
  pbytes :: bytes
  pentry :: u64
  seg_off :: usize
  seg_count :: usize
  man_off :: usize
  man_count :: usize

definition table_fits :: "usize \<Rightarrow> usize \<Rightarrow> usize \<Rightarrow> usize \<Rightarrow> bool" where
  "table_fits len off count rec_len =
     (case Option.bind (checked_mul_usize count rec_len) (\<lambda>w. checked_add_usize off w) of
        Some end \<Rightarrow> end \<le> len
      | None \<Rightarrow> False)"

definition validate_perm :: "u8 \<Rightarrow> unit pex_result" where
  "validate_perm p =
     (if p AND NOT (PERM_R OR PERM_W OR PERM_X) \<noteq> 0 \<or> p AND PERM_R = 0
         \<or> (p AND PERM_W \<noteq> 0 \<and> p AND PERM_X \<noteq> 0)
      then Err BadPermission else Ok ())"

definition rec_base :: "usize \<Rightarrow> usize \<Rightarrow> usize \<Rightarrow> usize pex_result" where
  "rec_base off i rec_len =
     obind (or_trap (checked_mul_usize i rec_len)) (\<lambda>w. or_trap (checked_add_usize off w))"

definition segment_raw :: "pex \<Rightarrow> usize \<Rightarrow> segment pex_result" where
  "segment_raw p i =
     obind (rec_base (seg_off p) i SEGMENT_LEN) (\<lambda>base.
     obind (rd_u32 (pbytes p) base) (\<lambda>fo.
     obind (rd_u32 (pbytes p) (base + 4)) (\<lambda>fs.
     obind (rd_u64 (pbytes p) (base + 8)) (\<lambda>va.
     obind (rd_u64 (pbytes p) (base + 16)) (\<lambda>ms.
     obind (rd_u8 (pbytes p) (base + 24)) (\<lambda>pm.
       Ok \<lparr>file_off = fo, file_size = fs, vaddr = va, mem_size = ms, perm = pm\<rparr>))))))"

definition manifest_raw :: "pex \<Rightarrow> usize \<Rightarrow> manifest_entry pex_result" where
  "manifest_raw p i =
     obind (rec_base (man_off p) i MANIFEST_LEN) (\<lambda>base.
     obind (rd_u8 (pbytes p) base) (\<lambda>ct.
     obind (rd_u16 (pbytes p) (base + 2)) (\<lambda>ds.
     obind (rd_u32 (pbytes p) (base + 4)) (\<lambda>rs.
     obind (rd_u64 (pbytes p) (base + 8)) (\<lambda>p0.
     obind (rd_u64 (pbytes p) (base + 16)) (\<lambda>p1.
       Ok \<lparr>me_cap_type = ct, me_dest_slot = ds, me_rights = rs, me_param0 = p0, me_param1 = p1\<rparr>))))))"

text \<open>The body of the validation loop: the new value of \<open>entry_ok\<close>.\<close>

definition check_segment :: "bytes \<Rightarrow> u64 \<Rightarrow> segment \<Rightarrow> bool \<Rightarrow> bool pex_result" where
  "check_segment bytes entry s entry_ok =
     obind (validate_perm (perm s)) (\<lambda>_.
     if vaddr s AND 0xfff \<noteq> 0 \<or> mem_size s AND 0xfff \<noteq> 0 then Err Unaligned
     else if (ucast (file_size s) :: u64) > mem_size s then Err BadMemSize
     else if drop_bit 12 (mem_size s) > MAX_SEGMENT_PAGES then Err SegmentTooLarge
     else obind (or_err SegmentOutOfBounds (checked_add_usize (unat (file_off s)) (unat (file_size s)))) (\<lambda>file_end.
       if file_end > length bytes then Err SegmentOutOfBounds
       else obind (or_err Unaligned (checked_add (vaddr s) (mem_size s))) (\<lambda>seg_end.
         Ok (entry_ok \<or> (is_exec s \<and> vaddr s \<le> entry \<and> entry < seg_end)))))"

fun check_segments :: "pex \<Rightarrow> usize list \<Rightarrow> bool \<Rightarrow> bool pex_result" where
  "check_segments p [] entry_ok = Ok entry_ok"
| "check_segments p (i # is) entry_ok =
     obind (segment_raw p i) (\<lambda>s.
     obind (check_segment (pbytes p) (pentry p) s entry_ok) (\<lambda>ok. check_segments p is ok))"

fun check_manifest :: "pex \<Rightarrow> usize list \<Rightarrow> unit pex_result" where
  "check_manifest p [] = Ok ()"
| "check_manifest p (i # is) = obind (manifest_raw p i) (\<lambda>_. check_manifest p is)"

text \<open>The header checks of \<open>parse\<close> up to the construction of the view, then the validation.\<close>

definition check_integrity :: "bytes \<Rightarrow> usize \<Rightarrow> usize \<Rightarrow> unit pex_result" where
  "check_integrity bytes integ_off integ_len =
     (if integ_len \<noteq> 0
      then obind (or_err TableOutOfBounds (checked_add_usize integ_off integ_len)) (\<lambda>end.
        if end > length bytes then Err TableOutOfBounds else Ok ())
      else Ok ())"

definition parse_header :: "bytes \<Rightarrow> u16 \<Rightarrow> pex pex_result" where
  "parse_header bytes arch =
     (if length bytes < HEADER_LEN then Err TooShort
      else obind (rd_u32 bytes 0) (\<lambda>magic. if magic \<noteq> PEX_MAGIC then Err BadMagic
      else obind (rd_u16 bytes 4) (\<lambda>ver. if ver \<noteq> PEX_VERSION then Err BadVersion
      else obind (rd_u16 bytes 6) (\<lambda>a. if a \<noteq> arch then Err ArchMismatch
      else obind (rd_u64 bytes 8) (\<lambda>entry.
        obind (rd_u32 bytes 16) (\<lambda>total_len. if unat total_len \<noteq> length bytes then Err LenMismatch
      else obind (rd_u32 bytes 20) (\<lambda>so. obind (rd_u16 bytes 24) (\<lambda>sc. obind (rd_u16 bytes 26) (\<lambda>mc.
        obind (rd_u32 bytes 28) (\<lambda>mo. obind (rd_u32 bytes 32) (\<lambda>io. obind (rd_u32 bytes 36) (\<lambda>il.
        obind (rd_u64 bytes 40) (\<lambda>res. if res \<noteq> 0 then Err ReservedNonZero
      else if unat sc > MAX_SEGMENTS \<or> unat mc > MAX_MANIFEST then Err TooManyRecords
      else if \<not> table_fits (length bytes) (unat so) (unat sc) SEGMENT_LEN
        \<or> \<not> table_fits (length bytes) (unat mo) (unat mc) MANIFEST_LEN then Err TableOutOfBounds
      else obind (check_integrity bytes (unat io) (unat il)) (\<lambda>_.
        Ok \<lparr>pbytes = bytes, pentry = entry, seg_off = unat so, seg_count = unat sc,
            man_off = unat mo, man_count = unat mc\<rparr>))))))))))))))"

definition pex_parse :: "bytes \<Rightarrow> u16 \<Rightarrow> pex pex_result" where
  "pex_parse bytes arch =
     obind (parse_header bytes arch) (\<lambda>p.
     obind (check_segments p [0..<seg_count p] False) (\<lambda>entry_ok.
       if \<not> entry_ok then Err EntryNotExecutable
       else obind (check_manifest p [0..<man_count p]) (\<lambda>_. Ok p)))"

definition pex_entry :: "pex \<Rightarrow> u64" where "pex_entry p = pentry p"
definition segment_count :: "pex \<Rightarrow> usize" where "segment_count p = seg_count p"
definition manifest_count :: "pex \<Rightarrow> usize" where "manifest_count p = man_count p"

definition segment_at :: "pex \<Rightarrow> usize \<Rightarrow> segment option" where
  "segment_at p i = (if i < seg_count p then case segment_raw p i of Ok s \<Rightarrow> Some s | _ \<Rightarrow> None else None)"

definition segment_data :: "pex \<Rightarrow> usize \<Rightarrow> bytes option" where
  "segment_data p i = Option.bind (segment_at p i) (\<lambda>s.
     Option.bind (checked_add_usize (unat (file_off s)) (unat (file_size s))) (\<lambda>_.
       get_bytes (pbytes p) (unat (file_off s)) (unat (file_size s))))"

definition manifest_at :: "pex \<Rightarrow> usize \<Rightarrow> manifest_entry option" where
  "manifest_at p i = (if i < man_count p then case manifest_raw p i of Ok m \<Rightarrow> Some m | _ \<Rightarrow> None else None)"


section \<open>Reading in range\<close>

named_theorems pex_reads \<open>reads proved in range\<close>

lemma rd_in [pex_reads]:
  assumes "off + n \<le> length b" "length b \<le> usize_max" shows "rd n b off = Ok (take n (drop off b))"
  using assms by (simp add: rd_def checked_add_usize_def get_bytes_def)

lemma rd_no_panic: "off + n \<le> usize_max \<Longrightarrow> rd n b off \<noteq> Panic"
  by (simp add: rd_def checked_add_usize_def)

lemma rd_words_no_panic:
  assumes "off + 8 \<le> usize_max" shows "rd_u16 b off \<noteq> Panic" "rd_u32 b off \<noteq> Panic" "rd_u64 b off \<noteq> Panic"
  using assms rd_no_panic [of off _ b] by (auto simp: rd_u16_def rd_u32_def rd_u64_def obind_Panic)

lemma table_fits_rec:
  assumes "table_fits len off count n" "i < count" "len \<le> usize_max"
  shows "rec_base off i n = Ok (off + i * n)" "off + i * n + n \<le> len"
proof -
  have fit: "off + count * n \<le> len"
    using assms(1) by (auto simp: table_fits_def checked_add_usize_def checked_mul_usize_def split: option.splits if_splits)
  have "Suc i * n \<le> count * n" using assms(2) by (intro mult_right_mono) auto
  with fit show "off + i * n + n \<le> len" by simp
  with assms(3) show "rec_base off i n = Ok (off + i * n)"
    by (simp add: rec_base_def checked_mul_usize_def checked_add_usize_def)
qed

definition view_ok :: "pex \<Rightarrow> bool" where
  "view_ok p \<longleftrightarrow> length (pbytes p) \<le> usize_max
     \<and> table_fits (length (pbytes p)) (seg_off p) (seg_count p) SEGMENT_LEN
     \<and> table_fits (length (pbytes p)) (man_off p) (man_count p) MANIFEST_LEN
     \<and> seg_count p \<le> MAX_SEGMENTS \<and> man_count p \<le> MAX_MANIFEST"

lemma segment_raw_total: "view_ok p \<Longrightarrow> i < seg_count p \<Longrightarrow> \<exists>s. segment_raw p i = Ok s"
  using table_fits_rec [of "length (pbytes p)" "seg_off p" "seg_count p" SEGMENT_LEN i]
  by (simp add: view_ok_def segment_raw_def rd_u32_def rd_u64_def rd_u8_def rd_in SEGMENT_LEN_def)

lemma manifest_raw_total: "view_ok p \<Longrightarrow> i < man_count p \<Longrightarrow> \<exists>m. manifest_raw p i = Ok m"
  using table_fits_rec [of "length (pbytes p)" "man_off p" "man_count p" MANIFEST_LEN i]
  by (simp add: view_ok_def manifest_raw_def rd_u16_def rd_u32_def rd_u64_def rd_u8_def rd_in MANIFEST_LEN_def)

lemma parse_header_Ok:
  assumes "parse_header bytes arch = Ok p" "length bytes \<le> usize_max"
  shows "view_ok p" "pbytes p = bytes"
  using assms by (auto simp: parse_header_def obind_Ok view_ok_def split: if_splits)

lemma parse_header_no_panic: "parse_header bytes arch \<noteq> Panic"
  by (auto simp: parse_header_def obind_Panic rd_words_no_panic usize_max_def check_integrity_def split: if_splits)

lemma check_segment_no_panic: "check_segment bytes entry s ok \<noteq> Panic"
  by (auto simp: check_segment_def obind_Panic validate_perm_def)

lemma check_segments_no_panic:
  "view_ok p \<Longrightarrow> set is \<subseteq> {..<seg_count p} \<Longrightarrow> check_segments p is ok \<noteq> Panic"
proof (induction "is" arbitrary: ok)
  case (Cons i "is")
  then obtain s where "segment_raw p i = Ok s" using segment_raw_total [of p i] by auto
  with Cons show ?case by (auto simp: obind_Panic check_segment_no_panic)
qed simp

lemma check_manifest_no_panic:
  "view_ok p \<Longrightarrow> set is \<subseteq> {..<man_count p} \<Longrightarrow> check_manifest p is \<noteq> Panic"
proof (induction "is")
  case (Cons i "is")
  then obtain s where "manifest_raw p i = Ok s" using manifest_raw_total [of p i] by auto
  with Cons show ?case by (auto simp: obind_Panic)
qed simp

section \<open>What an accepted segment satisfies\<close>

definition segment_ok :: "bytes \<Rightarrow> segment \<Rightarrow> bool" where
  "segment_ok b s \<longleftrightarrow> perm s AND PERM_R \<noteq> 0 \<and> \<not> (is_write s \<and> is_exec s)
     \<and> 4096 dvd unat (vaddr s) \<and> 4096 dvd unat (mem_size s)
     \<and> unat (file_size s) \<le> unat (mem_size s) \<and> unat (mem_size s) \<le> 4096 * 4096
     \<and> unat (file_off s) + unat (file_size s) \<le> length b \<and> unat (vaddr s) + unat (mem_size s) < 2 ^ 64"

lemma and_fff_dvd: "w AND 0xfff = 0 \<longleftrightarrow> 4096 dvd unat w" for w :: u64
proof -
  have "w AND 0xfff = take_bit 12 w" by (simp add: take_bit_eq_mask mask_eq_exp_minus_1)
  moreover have "unat (take_bit 12 w) = unat w mod 4096" by (simp add: unsigned_take_bit_eq take_bit_nat_def)
  ultimately show ?thesis by (metis dvd_eq_mod_eq_0 unat_eq_zero)
qed

lemma check_segment_Ok:
  assumes "check_segment b entry s ok = Ok ok'"
  shows "segment_ok b s" "ok' \<longleftrightarrow> ok \<or> (is_exec s \<and> vaddr s \<le> entry \<and> unat entry < unat (vaddr s) + unat (mem_size s))"
proof -
  have pages: "unat (mem_size s) div 4096 \<le> 4096" if "\<not> drop_bit 12 (mem_size s) > MAX_SEGMENT_PAGES"
  proof -
    have "unat (drop_bit 12 (mem_size s)) \<le> unat MAX_SEGMENT_PAGES" using that by (simp add: word_le_nat_alt not_less)
    moreover have "take_bit 64 (unat (mem_size s)) = unat (mem_size s)"
      by (rule take_bit_nat_eq_self) (use unat_bound [of "mem_size s"] in simp)
    ultimately show ?thesis by (simp add: MAX_SEGMENT_PAGES_def unsigned_drop_bit_eq drop_bit_nat_def)
  qed
  have size: "unat (file_size s) \<le> unat (mem_size s)" if "\<not> (ucast (file_size s) :: u64) > mem_size s"
    using that by (simp add: not_less word_le_nat_alt unat_ucast_up)
  have mult: "m \<le> 4096 * 4096" if "m div 4096 \<le> 4096" "4096 dvd m" for m :: nat
    using that by (metis div_mult_self1_is_m dvd_div_mult_self mult_le_mono1)
  show "segment_ok b s" "ok' \<longleftrightarrow> ok \<or> (is_exec s \<and> vaddr s \<le> entry \<and> unat entry < unat (vaddr s) + unat (mem_size s))"
    using assms pages size mult unat_bound [of "vaddr s + mem_size s"]
    by (auto simp: check_segment_def obind_Ok validate_perm_def segment_ok_def is_write_def is_exec_def and_fff_dvd
        checked_add_usize_Some checked_add_Some word_less_nat_alt simp del: unsigned_less split: if_splits)
qed

lemma check_segments_Ok:
  assumes "check_segments p is ok = Ok ok'"
  shows "(\<forall>i\<in>set is. \<exists>s. segment_raw p i = Ok s \<and> segment_ok (pbytes p) s)
    \<and> (ok' \<longleftrightarrow> ok \<or> (\<exists>i\<in>set is. \<exists>s. segment_raw p i = Ok s \<and> is_exec s \<and> vaddr s \<le> pentry p
           \<and> unat (pentry p) < unat (vaddr s) + unat (mem_size s)))"
  using assms
proof (induction "is" arbitrary: ok)
  case (Cons i "is")
  then obtain s ok1 where s: "segment_raw p i = Ok s" "check_segment (pbytes p) (pentry p) s ok = Ok ok1"
    "check_segments p is ok1 = Ok ok'" by (auto simp: obind_Ok)
  show ?case using check_segment_Ok [OF s(2)] Cons.IH [OF s(3)] s(1) by auto
qed simp

text \<open>
  (C24) Parsing hostile images.  For every byte string and architecture tag the parser returns without
  a trap or a read out of range.  When it accepts, every segment index reads back, in range, a
  segment whose bytes lie in the image and that is readable, never both writable and executable,
  page-aligned, at most 16 MiB, not smaller than its file bytes and not wrapping the address space;
  the entry point lies in an executable segment; and every manifest entry reads back.
\<close>

theorem pex_parse_safe:
  assumes "length bytes \<le> usize_max"
  shows "case pex_parse bytes arch of Panic \<Rightarrow> False | Err e \<Rightarrow> True
    | Ok p \<Rightarrow> segment_count p \<le> MAX_SEGMENTS \<and> manifest_count p \<le> MAX_MANIFEST
        \<and> (\<forall>i < segment_count p. \<exists>s d. segment_at p i = Some s \<and> segment_ok bytes s
             \<and> segment_data p i = Some d \<and> length d = unat (file_size s))
        \<and> (\<exists>i < segment_count p. \<exists>s. segment_at p i = Some s \<and> is_exec s \<and> vaddr s \<le> pex_entry p
             \<and> unat (pex_entry p) < unat (vaddr s) + unat (mem_size s))
        \<and> (\<forall>i<manifest_count p. \<exists>m. manifest_at p i = Some m)"
proof (cases "pex_parse bytes arch")
  case (Ok p)
  then have h: "parse_header bytes arch = outcome.Ok p" and c: "check_segments p [0..<seg_count p] False = outcome.Ok True"
    by (auto simp: pex_parse_def obind_Ok split: if_splits)
  note v = parse_header_Ok [OF h assms]
  note segs = check_segments_Ok [OF c, simplified]
  have seg: "\<exists>s d. segment_at p i = Some s \<and> segment_ok bytes s \<and> segment_data p i = Some d \<and> length d = unat (file_size s)"
    if i: "i < seg_count p" for i
  proof -
    obtain s where s: "segment_raw p i = outcome.Ok s" "segment_ok bytes s"
      using bspec [OF conjunct1 [OF segs], of i] i v(2) by auto
    then have "unat (file_off s) + unat (file_size s) \<le> length bytes" by (simp add: segment_ok_def)
    with s i v assms show ?thesis by (simp add: segment_at_def segment_data_def checked_add_usize_def get_bytes_def)
  qed
  have "\<exists>m. manifest_at p i = Some m" if "i < man_count p" for i
    using manifest_raw_total [OF v(1) that] that by (auto simp: manifest_at_def)
  moreover obtain i s where "i < seg_count p" "segment_raw p i = outcome.Ok s" "is_exec s" "vaddr s \<le> pentry p"
    "unat (pentry p) < unat (vaddr s) + unat (mem_size s)" using segs by auto
  then have "\<exists>i < seg_count p. \<exists>s. segment_at p i = Some s \<and> is_exec s \<and> vaddr s \<le> pentry p
      \<and> unat (pentry p) < unat (vaddr s) + unat (mem_size s)"
    by (intro exI [of _ i] conjI exI [of _ s]) (simp_all add: segment_at_def)
  ultimately show ?thesis
    using seg v(1) by (simp add: Ok segment_count_def manifest_count_def pex_entry_def view_ok_def)
next
  case Panic
  then show ?thesis
    using parse_header_no_panic [of bytes arch] parse_header_Ok(1) [OF _ assms, of arch]
      check_segments_no_panic [of _ "[0..<seg_count p]" for p] check_manifest_no_panic [of _ "[0..<man_count p]" for p]
    by (fastforce simp: pex_parse_def obind_Panic split: if_splits)
qed simp

text \<open>A minimal valid image: one executable page at \<open>0x1000\<close>, no manifest, no file bytes.\<close>

definition tiny_pex :: bytes where
  "tiny_pex = word_enc 4 PEX_MAGIC @ word_enc 2 PEX_VERSION @ word_enc 2 ARCH_X86_64 @ word_enc 8 (0x1000 :: u64)
     @ word_enc 4 (80 :: u32) @ word_enc 4 (48 :: u32) @ word_enc 2 (1 :: u16) @ word_enc 2 (0 :: u16)
     @ word_enc 4 (80 :: u32) @ word_enc 4 (0 :: u32) @ word_enc 4 (0 :: u32) @ word_enc 8 (0 :: u64)
     @ word_enc 4 (80 :: u32) @ word_enc 4 (0 :: u32) @ word_enc 8 (0x1000 :: u64) @ word_enc 8 (0x1000 :: u64)
     @ [5, 0, 0, 0, 0, 0, 0, 0]"

theorem pex_parse_safe_witness:
  "case pex_parse tiny_pex ARCH_X86_64 of Ok p \<Rightarrow> segment_count p = 1
     \<and> (\<exists>i < segment_count p. \<exists>s. segment_at p i = Some s \<and> is_exec s \<and> vaddr s \<le> pex_entry p) | _ \<Rightarrow> False"
proof -
  have "length tiny_pex \<le> usize_max" by code_simp
  note safe = pex_parse_safe [OF this, of ARCH_X86_64]
  have "case pex_parse tiny_pex ARCH_X86_64 of Ok p \<Rightarrow> segment_count p = 1 | _ \<Rightarrow> False" by code_simp
  with safe show ?thesis by (cases "pex_parse tiny_pex ARCH_X86_64") auto
qed

end
