(* ===== verification/Abi_Encode.thy ===== *)
theory Abi_Encode
  imports Abi_Pex Trap
begin

text \<open>
  The \<^verbatim>\<open>.pex\<close> encoder of \<^verbatim>\<open>src/abi/src/encode.rs\<close>, which writes an image into the caller's buffer,
  and the round trip with the parser: an image encoded from valid segments parses, and every
  segment, its bytes, every manifest entry and the entry point read back as they were given.
  \<open>written b b' S\<close> is the framing relation: \<open>b'\<close> differs from \<open>b\<close> only at the offsets \<open>S\<close>.
\<close>

record segment_spec =
  ss_vaddr :: u64
  ss_mem_size :: u64
  ss_perm :: u8
  ss_data :: bytes

record manifest_spec =
  ms_cap_type :: u8
  ms_dest_slot :: u16
  ms_rights :: u32
  ms_param0 :: u64
  ms_param1 :: u64

fun data_len :: "usize \<Rightarrow> segment_spec list \<Rightarrow> usize option" where
  "data_len len [] = Some len"
| "data_len len (s # ss) = do { len' \<leftarrow> checked_add_usize len (length (ss_data s)); data_len len' ss }"

definition encoded_len :: "segment_spec list \<Rightarrow> manifest_spec list \<Rightarrow> usize option" where
  "encoded_len segs man =
     (if length segs > MAX_SEGMENTS \<or> length man > MAX_MANIFEST then None
      else do {
        a \<leftarrow> checked_mul_usize (length segs) SEGMENT_LEN;
        b \<leftarrow> checked_add_usize HEADER_LEN a;
        c \<leftarrow> checked_mul_usize (length man) MANIFEST_LEN;
        len \<leftarrow> checked_add_usize b c;
        data_len len segs
      })"

type_synonym 'a enc_result = "(unit, 'a) outcome"

definition wr_u16 :: "bytes \<Rightarrow> usize \<Rightarrow> u16 \<Rightarrow> bytes enc_result" where
  "wr_u16 b off v = or_trap (put_bytes b off (word_enc 2 v))"

definition wr_u32 :: "bytes \<Rightarrow> usize \<Rightarrow> u32 \<Rightarrow> bytes enc_result" where
  "wr_u32 b off v = or_trap (put_bytes b off (word_enc 4 v))"

definition wr_u64 :: "bytes \<Rightarrow> usize \<Rightarrow> u64 \<Rightarrow> bytes enc_result" where
  "wr_u64 b off v = or_trap (put_bytes b off (word_enc 8 v))"

definition wr_u8 :: "bytes \<Rightarrow> usize \<Rightarrow> u8 \<Rightarrow> bytes enc_result" where
  "wr_u8 b off v = or_trap (put_bytes b off [v])"

definition try_u32 :: "usize \<Rightarrow> u32 enc_result" where
  "try_u32 n = (if n < 2 ^ 32 then Ok (of_nat n) else Err ())"

definition write_header :: "u16 \<Rightarrow> u64 \<Rightarrow> usize \<Rightarrow> usize \<Rightarrow> usize \<Rightarrow> usize \<Rightarrow> usize \<Rightarrow> bytes \<Rightarrow> bytes enc_result" where
  "write_header arch entry len nseg nman soff moff out =
     obind (wr_u32 out 0 PEX_MAGIC) (\<lambda>b.
     obind (wr_u16 b 4 PEX_VERSION) (\<lambda>b.
     obind (wr_u16 b 6 arch) (\<lambda>b.
     obind (wr_u64 b 8 entry) (\<lambda>b.
     obind (wr_u32 b 16 (of_nat len)) (\<lambda>b.
     obind (try_u32 soff) (\<lambda>so.
     obind (wr_u32 b 20 so) (\<lambda>b.
     obind (wr_u16 b 24 (of_nat nseg)) (\<lambda>b.
     obind (wr_u16 b 26 (of_nat nman)) (\<lambda>b.
     obind (try_u32 moff) (\<lambda>mo.
       wr_u32 b 28 mo))))))))))"

definition write_segment :: "usize \<Rightarrow> usize \<Rightarrow> segment_spec \<Rightarrow> bytes \<Rightarrow> bytes enc_result" where
  "write_segment off cursor s out =
     obind (try_u32 (length (ss_data s))) (\<lambda>file_size.
     obind (try_u32 cursor) (\<lambda>fo.
     obind (wr_u32 out off fo) (\<lambda>b.
     obind (wr_u32 b (off + 4) file_size) (\<lambda>b.
     obind (wr_u64 b (off + 8) (ss_vaddr s)) (\<lambda>b.
     obind (wr_u64 b (off + 16) (ss_mem_size s)) (\<lambda>b.
     obind (wr_u8 b (off + 24) (ss_perm s)) (\<lambda>b.
       or_trap (put_bytes b cursor (ss_data s)))))))))"

fun write_segments :: "usize \<Rightarrow> usize \<Rightarrow> segment_spec list \<Rightarrow> bytes \<Rightarrow> bytes enc_result" where
  "write_segments off cursor [] out = Ok out"
| "write_segments off cursor (s # ss) out =
     obind (write_segment off cursor s out) (\<lambda>b.
       write_segments (off + SEGMENT_LEN) (cursor + length (ss_data s)) ss b)"

definition write_manifest :: "usize \<Rightarrow> manifest_spec \<Rightarrow> bytes \<Rightarrow> bytes enc_result" where
  "write_manifest off m out =
     obind (wr_u8 out off (ms_cap_type m)) (\<lambda>b.
     obind (wr_u16 b (off + 2) (ms_dest_slot m)) (\<lambda>b.
     obind (wr_u32 b (off + 4) (ms_rights m)) (\<lambda>b.
     obind (wr_u64 b (off + 8) (ms_param0 m)) (\<lambda>b.
       wr_u64 b (off + 16) (ms_param1 m)))))"

fun write_manifests :: "usize \<Rightarrow> manifest_spec list \<Rightarrow> bytes \<Rightarrow> bytes enc_result" where
  "write_manifests off [] out = Ok out"
| "write_manifests off (m # ms) out =
     obind (write_manifest off m out) (\<lambda>b. write_manifests (off + MANIFEST_LEN) ms b)"

text \<open>
  \<open>encode\<close> returns the length written and the image, which is the first part of the caller's buffer;
  \<open>Err ()\<close> is its \<open>None\<close>.
\<close>

definition encode :: "u16 \<Rightarrow> u64 \<Rightarrow> segment_spec list \<Rightarrow> manifest_spec list \<Rightarrow> bytes \<Rightarrow> (usize \<times> bytes) enc_result" where
  "encode arch entry segs man out =
     obind (or_err () (encoded_len segs man)) (\<lambda>len.
     if length out < len \<or> len \<ge> 2 ^ 32 then Err ()
     else let soff = HEADER_LEN; moff = soff + length segs * SEGMENT_LEN;
              cursor = moff + length man * MANIFEST_LEN in
       obind (write_header arch entry len (length segs) (length man) soff moff (replicate len 0)) (\<lambda>b.
       obind (write_segments soff cursor segs b) (\<lambda>b.
       obind (write_manifests moff man b) (\<lambda>b.
         Ok (len, b @ drop len out)))))"

section \<open>Framing\<close>

definition written :: "bytes \<Rightarrow> bytes \<Rightarrow> nat set \<Rightarrow> bool" where
  "written b b' S \<longleftrightarrow> length b' = length b \<and> (\<forall>i<length b. i \<notin> S \<longrightarrow> b' ! i = b ! i)"

definition has :: "bytes \<Rightarrow> usize \<Rightarrow> bytes \<Rightarrow> bool" where
  "has b off bs \<longleftrightarrow> get_bytes b off (length bs) = Some bs"

lemma written_refl: "written b b {}"
  by (simp add: written_def)

lemma written_trans: "written b b' S \<Longrightarrow> written b' b'' T \<Longrightarrow> written b b'' (S \<union> T)"
  by (auto simp: written_def)

lemma written_mono: "written b b' S \<Longrightarrow> S \<subseteq> T \<Longrightarrow> written b b' T"
  by (auto simp: written_def)

lemma written_length: "written b b' S \<Longrightarrow> length b' = length b"
  by (simp add: written_def)

lemma has_written:
  assumes "has b off bs" "written b b' S" "{off..<off + length bs} \<inter> S = {}" shows "has b' off bs"
proof -
  have "get_bytes b' off (length bs) = get_bytes b off (length bs)"
    by (rule get_bytes_cong) (use assms(2,3) in \<open>auto simp: written_def disjoint_iff\<close>)
  with assms(1) show ?thesis by (simp add: has_def)
qed

lemma put_ok:
  assumes "off + length bs \<le> length b"
  shows "\<exists>b'. put_bytes b off bs = Some b' \<and> written b b' {off..<off + length bs} \<and> has b' off bs"
proof -
  obtain b' where b': "put_bytes b off bs = Some b'" using assms by (simp add: put_bytes_def)
  show ?thesis
    using b' put_bytes_length [OF b'] nth_put [OF b'] get_put_same [OF b'] by (auto simp: written_def has_def)
qed

text \<open>A sequence of writes to disjoint places: it happens, and each place ends with its bytes.\<close>

fun puts :: "(usize \<times> bytes) list \<Rightarrow> bytes \<Rightarrow> bytes option" where
  "puts [] b = Some b"
| "puts ((off, bs) # ws) b = do { b' \<leftarrow> put_bytes b off bs; puts ws b' }"

definition span :: "usize \<times> bytes \<Rightarrow> nat set" where
  "span = (\<lambda>(off, bs). {off..<off + length bs})"

lemma puts_ok:
  assumes "\<forall>(off, bs)\<in>set ws. off + length bs \<le> length b" "sorted_wrt (\<lambda>w w'. span w \<inter> span w' = {}) ws"
  shows "\<exists>b'. puts ws b = Some b' \<and> written b b' (\<Union> (span ` set ws)) \<and> (\<forall>(off, bs)\<in>set ws. has b' off bs)"
  using assms
proof (induction ws arbitrary: b)
  case (Cons w ws)
  obtain off bs where w: "w = (off, bs)" by force
  obtain b1 where b1: "put_bytes b off bs = Some b1" "written b b1 (span w)" "has b1 off bs"
    using put_ok [of off bs b] Cons.prems(1) w by (auto simp: span_def)
  obtain b' where b': "puts ws b1 = Some b'" "written b1 b' (\<Union> (span ` set ws))" "\<forall>(off, bs)\<in>set ws. has b' off bs"
    using Cons.IH [of b1] Cons.prems written_length [OF b1(2)] by auto
  have "{off..<off + length bs} \<inter> \<Union> (span ` set ws) = {}" using Cons.prems(2) w by (auto simp: span_def)
  then have "has b' off bs" by (rule has_written [OF b1(3) b'(2)])
  then show ?case using b1(1) b'(1,3) written_trans [OF b1(2) b'(2)] w by auto
qed (simp add: written_refl)

lemma obind_or_trap: "obind (or_trap x) (\<lambda>a. or_trap (f a)) = or_trap (x \<bind> f)"
  by (cases x) auto

lemma puts_fun: "puts [] = Some" "puts ((off, bs) # ws) = (\<lambda>b. put_bytes b off bs \<bind> puts ws)"
  by (rule ext, simp)+

lemmas wr_defs = wr_u16_def wr_u32_def wr_u64_def wr_u8_def obind_or_trap puts_fun bind_runit

lemma length_word_enc [simp]: "length (word_enc n w) = n"
  by (simp add: word_enc_def)

lemma rd_has:
  assumes "length b \<le> usize_max"
  shows "has b off (word_enc 2 v) \<Longrightarrow> rd_u16 b off = Ok v" "has b off (word_enc 4 w) \<Longrightarrow> rd_u32 b off = Ok w"
    "has b off (word_enc 8 x) \<Longrightarrow> rd_u64 b off = Ok x" "has b off [y] \<Longrightarrow> rd_u8 b off = Ok y"
  using assms u16_field.dec_enc [of v] u32_field.dec_enc [of w] u64_field.dec_enc [of x]
  by (auto simp: has_def rd_u16_def rd_u32_def rd_u64_def rd_u8_def rd_def get_bytes_def checked_add_usize_def take_Suc_conv_app_nth
      split: if_splits)

section \<open>The segment and manifest tables\<close>

definition seg_at :: "bytes \<Rightarrow> usize \<Rightarrow> usize \<Rightarrow> segment_spec \<Rightarrow> bool" where
  "seg_at b off cursor s \<longleftrightarrow> has b off (word_enc 4 (of_nat cursor :: u32))
     \<and> has b (off + 4) (word_enc 4 (of_nat (length (ss_data s)) :: u32)) \<and> has b (off + 8) (word_enc 8 (ss_vaddr s))
     \<and> has b (off + 16) (word_enc 8 (ss_mem_size s)) \<and> has b (off + 24) [ss_perm s] \<and> has b cursor (ss_data s)"

definition man_at :: "bytes \<Rightarrow> usize \<Rightarrow> manifest_spec \<Rightarrow> bool" where
  "man_at b off m \<longleftrightarrow> has b off [ms_cap_type m] \<and> has b (off + 2) (word_enc 2 (ms_dest_slot m))
     \<and> has b (off + 4) (word_enc 4 (ms_rights m)) \<and> has b (off + 8) (word_enc 8 (ms_param0 m))
     \<and> has b (off + 16) (word_enc 8 (ms_param1 m))"

lemma seg_at_written:
  assumes "seg_at b off cursor s" "written b b' S" "{off..<off + 32} \<inter> S = {}" "{cursor..<cursor + length (ss_data s)} \<inter> S = {}"
  shows "seg_at b' off cursor s"
  using assms unfolding seg_at_def by (auto intro!: has_written [OF _ assms(2)] simp: disjoint_iff)

lemma man_at_written:
  assumes "man_at b off m" "written b b' S" "{off..<off + 32} \<inter> S = {}" shows "man_at b' off m"
  using assms unfolding man_at_def by (auto intro!: has_written [OF _ assms(2)] simp: disjoint_iff)

lemma write_segment_ok:
  assumes "off + 32 \<le> cursor" "cursor + length (ss_data s) \<le> length b" "length b < 2 ^ 32"
  shows "\<exists>b'. write_segment off cursor s b = Ok b'
    \<and> written b b' ({off..<off + 32} \<union> {cursor..<cursor + length (ss_data s)}) \<and> seg_at b' off cursor s"
proof -
  let ?ws = "[(off, word_enc 4 (of_nat cursor :: u32)), (off + 4, word_enc 4 (of_nat (length (ss_data s)) :: u32)),
    (off + 8, word_enc 8 (ss_vaddr s)), (off + 16, word_enc 8 (ss_mem_size s)), (off + 24, [ss_perm s]), (cursor, ss_data s)]"
  obtain b' where b': "puts ?ws b = Some b'" "written b b' (\<Union> (span ` set ?ws))" "\<forall>(off, bs)\<in>set ?ws. has b' off bs"
    using puts_ok [of ?ws b] assms by (auto simp: span_def)
  have "write_segment off cursor s b = Ok b'"
    using assms b'(1) by (simp add: write_segment_def try_u32_def wr_defs)
  moreover have "\<Union> (span ` set ?ws) \<subseteq> {off..<off + 32} \<union> {cursor..<cursor + length (ss_data s)}"
    by (auto simp: span_def)
  ultimately show ?thesis using written_mono [OF b'(2)] b'(3) by (auto simp: seg_at_def)
qed

lemma write_manifest_ok:
  assumes "off + 32 \<le> length b"
  shows "\<exists>b'. write_manifest off m b = Ok b' \<and> written b b' {off..<off + 32} \<and> man_at b' off m"
proof -
  let ?ws = "[(off, [ms_cap_type m]), (off + 2, word_enc 2 (ms_dest_slot m)), (off + 4, word_enc 4 (ms_rights m)),
    (off + 8, word_enc 8 (ms_param0 m)), (off + 16, word_enc 8 (ms_param1 m))]"
  obtain b' where b': "puts ?ws b = Some b'" "written b b' (\<Union> (span ` set ?ws))" "\<forall>(off, bs)\<in>set ?ws. has b' off bs"
    using puts_ok [of ?ws b] assms by (auto simp: span_def)
  have "write_manifest off m b = Ok b'" using b'(1) by (simp add: write_manifest_def wr_defs)
  moreover have "\<Union> (span ` set ?ws) \<subseteq> {off..<off + 32}" by (auto simp: span_def)
  ultimately show ?thesis using written_mono [OF b'(2)] b'(3) by (auto simp: man_at_def)
qed

definition data_total :: "segment_spec list \<Rightarrow> nat" where
  "data_total segs = sum_list (map (\<lambda>s. length (ss_data s)) segs)"

lemma write_segments_ok:
  assumes "off + length segs * 32 \<le> cursor" "cursor + data_total segs \<le> length b" "length b < 2 ^ 32"
  shows "\<exists>b'. write_segments off cursor segs b = Ok b'
    \<and> written b b' ({off..<off + length segs * 32} \<union> {cursor..<cursor + data_total segs})
    \<and> (\<forall>i<length segs. seg_at b' (off + i * 32) (cursor + data_total (take i segs)) (segs ! i))"
  using assms
proof (induction segs arbitrary: off cursor b)
  case (Cons s ss)
  let ?l = "length (ss_data s)"
  have t: "data_total (s # ss) = ?l + data_total ss" by (simp add: data_total_def)
  obtain b1 where b1: "write_segment off cursor s b = Ok b1" "written b b1 ({off..<off + 32} \<union> {cursor..<cursor + ?l})"
    "seg_at b1 off cursor s" using write_segment_ok [of off cursor s b] Cons.prems t by auto
  obtain b' where b': "write_segments (off + 32) (cursor + ?l) ss b1 = Ok b'"
    "written b1 b' ({off + 32..<off + 32 + length ss * 32} \<union> {cursor + ?l..<cursor + ?l + data_total ss})"
    "\<forall>i<length ss. seg_at b' (off + 32 + i * 32) (cursor + ?l + data_total (take i ss)) (ss ! i)"
    using Cons.IH [of "off + 32" "cursor + ?l" b1] Cons.prems t written_length [OF b1(2)] by auto
  have "write_segments off cursor (s # ss) b = Ok b'" using b1(1) b'(1) by (simp add: SEGMENT_LEN_def)
  moreover have "written b b' ({off..<off + length (s # ss) * 32} \<union> {cursor..<cursor + data_total (s # ss)})"
    by (rule written_mono [OF written_trans [OF b1(2) b'(2)]]) (auto simp: t)
  moreover have "seg_at b' (off + i * 32) (cursor + data_total (take i (s # ss))) ((s # ss) ! i)" if "i < length (s # ss)" for i
  proof (cases i)
    case 0
    have "seg_at b' off cursor s" by (rule seg_at_written [OF b1(3) b'(2)]) (use Cons.prems in \<open>auto simp: disjoint_iff\<close>)
    then show ?thesis by (simp add: 0 data_total_def)
  next
    case (Suc j)
    then show ?thesis using b'(3) that by (auto simp: data_total_def algebra_simps)
  qed
  ultimately show ?case by blast
qed (simp add: written_refl data_total_def)

lemma write_manifests_ok:
  assumes "off + length ms * 32 \<le> length b"
  shows "\<exists>b'. write_manifests off ms b = Ok b' \<and> written b b' {off..<off + length ms * 32}
    \<and> (\<forall>i<length ms. man_at b' (off + i * 32) (ms ! i))"
  using assms
proof (induction ms arbitrary: off b)
  case (Cons m ms)
  obtain b1 where b1: "write_manifest off m b = Ok b1" "written b b1 {off..<off + 32}" "man_at b1 off m"
    using write_manifest_ok [of off b m] Cons.prems by auto
  obtain b' where b': "write_manifests (off + 32) ms b1 = Ok b'" "written b1 b' {off + 32..<off + 32 + length ms * 32}"
    "\<forall>i<length ms. man_at b' (off + 32 + i * 32) (ms ! i)"
    using Cons.IH [of "off + 32" b1] Cons.prems written_length [OF b1(2)] by auto
  have "written b b' {off..<off + length (m # ms) * 32}"
    by (rule written_mono [OF written_trans [OF b1(2) b'(2)]]) auto
  moreover have "man_at b' (off + i * 32) ((m # ms) ! i)" if "i < length (m # ms)" for i
  proof (cases i)
    case 0
    have "man_at b' off m" by (rule man_at_written [OF b1(3) b'(2)]) (auto simp: disjoint_iff)
    then show ?thesis by (simp add: 0)
  next
    case (Suc j)
    then show ?thesis using b'(3) that by (auto simp: algebra_simps)
  qed
  ultimately show ?case using b1(1) b'(1) by (auto simp: MANIFEST_LEN_def)
qed (simp add: written_refl)

section \<open>The header and the round trip\<close>

definition header_at :: "bytes \<Rightarrow> u16 \<Rightarrow> u64 \<Rightarrow> usize \<Rightarrow> usize \<Rightarrow> usize \<Rightarrow> bool" where
  "header_at b arch entry nseg nman moff \<longleftrightarrow> has b 0 (word_enc 4 PEX_MAGIC) \<and> has b 4 (word_enc 2 PEX_VERSION)
     \<and> has b 6 (word_enc 2 arch) \<and> has b 8 (word_enc 8 entry) \<and> has b 16 (word_enc 4 (of_nat (length b) :: u32))
     \<and> has b 20 (word_enc 4 (of_nat HEADER_LEN :: u32)) \<and> has b 24 (word_enc 2 (of_nat nseg :: u16))
     \<and> has b 26 (word_enc 2 (of_nat nman :: u16)) \<and> has b 28 (word_enc 4 (of_nat moff :: u32))
     \<and> has b 32 (word_enc 4 (0 :: u32)) \<and> has b 36 (word_enc 4 (0 :: u32)) \<and> has b 40 (word_enc 8 (0 :: u64))"

lemma le_enc_0: "le_enc n 0 = replicate n 0"
  by (induction n) (simp_all)

lemma write_header_ok:
  assumes "48 \<le> len" "moff < 2 ^ 32"
  shows "\<exists>b. write_header arch entry len nseg nman HEADER_LEN moff (replicate len 0) = Ok b
    \<and> written (replicate len 0) b {0..<32} \<and> header_at b arch entry nseg nman moff"
proof -
  let ?z = "replicate len 0 :: bytes"
  let ?ws = "[(0, word_enc 4 PEX_MAGIC), (4, word_enc 2 PEX_VERSION), (6, word_enc 2 arch), (8, word_enc 8 entry),
    (16, word_enc 4 (of_nat len :: u32)), (20, word_enc 4 (of_nat HEADER_LEN :: u32)), (24, word_enc 2 (of_nat nseg :: u16)),
    (26, word_enc 2 (of_nat nman :: u16)), (28, word_enc 4 (of_nat moff :: u32))]"
  obtain b where b: "puts ?ws ?z = Some b" "written ?z b (\<Union> (span ` set ?ws))" "\<forall>(off, bs)\<in>set ?ws. has b off bs"
    using puts_ok [of ?ws ?z] assms by (auto simp: span_def)
  have w: "written ?z b {0..<32}" by (rule written_mono [OF b(2)]) (auto simp: span_def)
  have zero: "word_enc n 0 = replicate n 0" for n by (simp add: word_enc_def le_enc_0)
  have "has ?z 32 (word_enc 4 (0 :: u32))" "has ?z 36 (word_enc 4 (0 :: u32))" "has ?z 40 (word_enc 8 (0 :: u64))"
    using assms(1) by (simp_all add: has_def get_bytes_def zero)
  then have "has b 32 (word_enc 4 (0 :: u32))" "has b 36 (word_enc 4 (0 :: u32))" "has b 40 (word_enc 8 (0 :: u64))"
    by (auto intro: has_written [OF _ w])
  moreover have "write_header arch entry len nseg nman HEADER_LEN moff ?z = Ok b"
    using assms(2) b(1) by (simp add: write_header_def try_u32_def HEADER_LEN_def wr_defs)
  ultimately show ?thesis
    using w b(3) written_length [OF w] by (simp add: header_at_def)
qed

lemma header_at_written:
  assumes "header_at b arch entry nseg nman moff" "written b b' S" "S \<inter> {0..<48} = {}"
  shows "header_at b' arch entry nseg nman moff"
  using assms written_length [OF assms(2)] unfolding header_at_def
  by (auto intro!: has_written [OF _ assms(2)] simp: disjoint_iff)

lemma encoded_len_Some:
  assumes "encoded_len segs man = Some len"
  shows "len = 48 + length segs * 32 + length man * 32 + data_total segs" "length segs \<le> 16" "length man \<le> 32"
proof -
  have "data_len l ss = Some n \<Longrightarrow> n = l + data_total ss" for l ss n
    by (induction ss arbitrary: l) (fastforce simp: data_total_def bind_eq_Some_conv checked_add_usize_Some)+
  with assms show "len = 48 + length segs * 32 + length man * 32 + data_total segs" "length segs \<le> 16" "length man \<le> 32"
    by (auto simp: encoded_len_def bind_eq_Some_conv checked_add_usize_Some checked_mul_usize_Some HEADER_LEN_def
        SEGMENT_LEN_def MANIFEST_LEN_def MAX_SEGMENTS_def MAX_MANIFEST_def split: if_splits)
qed

definition image_at :: "bytes \<Rightarrow> u16 \<Rightarrow> u64 \<Rightarrow> segment_spec list \<Rightarrow> manifest_spec list \<Rightarrow> bool" where
  "image_at b arch entry segs man \<longleftrightarrow> (let moff = 48 + length segs * 32; cursor = moff + length man * 32 in
     header_at b arch entry (length segs) (length man) moff
     \<and> (\<forall>i<length segs. seg_at b (48 + i * 32) (cursor + data_total (take i segs)) (segs ! i))
     \<and> (\<forall>i<length man. man_at b (moff + i * 32) (man ! i)))"

lemma data_total_take: "i < length segs \<Longrightarrow> data_total (take i segs) + length (ss_data (segs ! i)) \<le> data_total segs"
proof -
  assume "i < length segs"
  then have "segs = take i segs @ segs ! i # drop (Suc i) segs" by (simp add: id_take_nth_drop)
  then have "data_total segs = data_total (take i segs) + length (ss_data (segs ! i)) + data_total (drop (Suc i) segs)"
    by (metis (no_types, lifting) data_total_def list.simps(9) map_append sum_list.Cons sum_list_append add.assoc)
  then show ?thesis by simp
qed

lemma encode_image:
  assumes len: "encoded_len segs man = Some len" and size: "len < 2 ^ 32" "len \<le> length out"
  shows "\<exists>b. encode arch entry segs man out = Ok (len, b @ drop len out) \<and> length b = len \<and> image_at b arch entry segs man"
proof -
  note l = encoded_len_Some [OF len]
  let ?moff = "48 + length segs * 32"
  let ?cur = "?moff + length man * 32"
  obtain b1 where b1: "write_header arch entry len (length segs) (length man) HEADER_LEN ?moff (replicate len 0) = Ok b1"
    "written (replicate len 0) b1 {0..<32}" "header_at b1 arch entry (length segs) (length man) ?moff"
    using write_header_ok [of len ?moff arch entry "length segs" "length man"] l size by auto
  have l1: "length b1 = len" using written_length [OF b1(2)] by simp
  obtain b2 where b2: "write_segments 48 ?cur segs b1 = Ok b2" "written b1 b2 ({48..<?moff} \<union> {?cur..<?cur + data_total segs})"
    "\<forall>i<length segs. seg_at b2 (48 + i * 32) (?cur + data_total (take i segs)) (segs ! i)"
    using write_segments_ok [of 48 segs ?cur b1] l l1 size by auto
  have l2: "length b2 = len" using written_length [OF b2(2)] l1 by simp
  obtain b3 where b3: "write_manifests ?moff man b2 = Ok b3" "written b2 b3 {?moff..<?cur}" "\<forall>i<length man. man_at b3 (?moff + i * 32) (man ! i)"
    using write_manifests_ok [of ?moff man b2] l l2 by auto
  have "header_at b3 arch entry (length segs) (length man) ?moff"
    by (rule header_at_written [OF header_at_written [OF b1(3) b2(2)] b3(2)]) auto
  moreover have "seg_at b3 (48 + i * 32) (?cur + data_total (take i segs)) (segs ! i)" if "i < length segs" for i
    by (rule seg_at_written [OF _ b3(2)]) (use b2(3) that data_total_take [OF that] in \<open>auto simp: disjoint_iff\<close>)
  moreover have "encode arch entry segs man out = Ok (len, b3 @ drop len out)"
    using len size b1(1) b2(1) b3(1) by (simp add: encode_def Let_def HEADER_LEN_def SEGMENT_LEN_def MANIFEST_LEN_def)
  ultimately show ?thesis using b3(3) written_length [OF b3(2)] l2 by (auto simp: image_at_def Let_def)
qed

definition valid_segment :: "segment_spec \<Rightarrow> bool" where
  "valid_segment s \<longleftrightarrow> validate_perm (ss_perm s) = Ok () \<and> 4096 dvd unat (ss_vaddr s) \<and> 4096 dvd unat (ss_mem_size s)
     \<and> length (ss_data s) \<le> unat (ss_mem_size s) \<and> unat (ss_mem_size s) \<le> 4096 * 4096
     \<and> unat (ss_vaddr s) + unat (ss_mem_size s) < 2 ^ 64"

definition runs_in :: "u64 \<Rightarrow> segment_spec \<Rightarrow> bool" where
  "runs_in entry s \<longleftrightarrow> ss_perm s AND PERM_X \<noteq> 0 \<and> ss_vaddr s \<le> entry \<and> unat entry < unat (ss_vaddr s) + unat (ss_mem_size s)"

definition seg_view :: "usize \<Rightarrow> segment_spec \<Rightarrow> segment" where
  "seg_view cursor s = \<lparr>file_off = of_nat cursor, file_size = of_nat (length (ss_data s)), vaddr = ss_vaddr s,
     mem_size = ss_mem_size s, perm = ss_perm s\<rparr>"

definition man_view :: "manifest_spec \<Rightarrow> manifest_entry" where
  "man_view m = \<lparr>me_cap_type = ms_cap_type m, me_dest_slot = ms_dest_slot m, me_rights = ms_rights m,
     me_param0 = ms_param0 m, me_param1 = ms_param1 m\<rparr>"

lemma unat_of_nat_small: "n < 2 ^ LENGTH('a) \<Longrightarrow> unat (of_nat n :: 'a::len word) = n"
  by (simp add: unat_of_nat)

lemma segment_data_view:
  assumes "segment_at p i = Some (seg_view c s)" "has (pbytes p) c (ss_data s)" "c + length (ss_data s) < 2 ^ 32"
  shows "segment_data p i = Some (ss_data s)"
  using assms by (simp add: segment_data_def seg_view_def has_def unat_of_nat_small checked_add_usize_def usize_max_def)

lemma check_segment_valid:
  assumes v: "valid_segment s" and b: "cursor + length (ss_data s) \<le> length b" "length b < 2 ^ 32"
  shows "check_segment b entry (seg_view cursor s) ok = Ok (ok \<or> runs_in entry s)"
proof -
  let ?v = "seg_view cursor s"
  have u: "unat (file_off ?v) = cursor" "unat (file_size ?v) = length (ss_data s)"
    using b by (simp_all add: seg_view_def unat_of_nat_small)
  have f: "vaddr ?v = ss_vaddr s" "mem_size ?v = ss_mem_size s" "perm ?v = ss_perm s" by (simp_all add: seg_view_def)
  have size: "\<not> (ucast (file_size ?v) :: u64) > mem_size ?v"
    using v u(2) by (simp add: not_less word_le_nat_alt unat_ucast_up f valid_segment_def)
  have "unat (drop_bit 12 (mem_size ?v)) = unat (ss_mem_size s) div 4096"
    using take_bit_nat_eq_self [of "unat (ss_mem_size s)" 64] unat_bound [of "ss_mem_size s"]
    by (simp add: f unsigned_drop_bit_eq drop_bit_nat_def del: unsigned_less)
  moreover have "unat (ss_mem_size s) div 4096 \<le> 4096"
    using v div_le_mono [of "unat (ss_mem_size s)" "4096 * 4096" 4096] by (simp add: valid_segment_def)
  ultimately have pages: "\<not> drop_bit 12 (mem_size ?v) > MAX_SEGMENT_PAGES"
    by (simp add: MAX_SEGMENT_PAGES_def not_less word_le_nat_alt)
  have ends: "checked_add_usize (unat (file_off ?v)) (unat (file_size ?v)) = Some (cursor + length (ss_data s))"
    using b by (simp add: u checked_add_usize_def usize_max_def)
  obtain e where e: "checked_add (vaddr ?v) (mem_size ?v) = Some e" "unat e = unat (ss_vaddr s) + unat (ss_mem_size s)"
    using v by (auto simp: f valid_segment_def checked_add_def unat_word_ariths)
  show ?thesis
    using v b(1) size pages ends e
    by (auto simp: check_segment_def f and_fff_dvd valid_segment_def runs_in_def is_exec_def word_less_nat_alt)
qed

lemma check_segments_valid:
  assumes "\<And>i. i \<in> set is \<Longrightarrow> segment_raw p i = Ok (seg_view (cur i) (segs ! i)) \<and> valid_segment (segs ! i)
      \<and> cur i + length (ss_data (segs ! i)) \<le> length (pbytes p)" "length (pbytes p) < 2 ^ 32"
  shows "check_segments p is ok = Ok (ok \<or> (\<exists>i\<in>set is. runs_in (pentry p) (segs ! i)))"
  using assms
proof (induction "is" arbitrary: ok)
  case (Cons i "is")
  then show ?case using check_segment_valid [of "segs ! i" "cur i" "pbytes p" "pentry p" ok] by auto
qed simp

lemma check_manifest_valid: "(\<And>i. i \<in> set is \<Longrightarrow> \<exists>m. manifest_raw p i = Ok m) \<Longrightarrow> check_manifest p is = Ok ()"
  by (induction "is") fastforce+

lemma parse_image:
  assumes im: "image_at b arch entry segs man" and len: "encoded_len segs man = Some (length b)" and small: "length b < 2 ^ 32"
    and valid: "\<forall>s\<in>set segs. valid_segment s" and run: "\<exists>s\<in>set segs. runs_in entry s"
  defines "cur \<equiv> \<lambda>i. 48 + length segs * 32 + length man * 32 + data_total (take i segs)"
  shows "\<exists>p. pex_parse b arch = Ok p \<and> pbytes p = b \<and> pex_entry p = entry \<and> segment_count p = length segs \<and> manifest_count p = length man
    \<and> (\<forall>i<length segs. segment_at p i = Some (seg_view (cur i) (segs ! i)))
    \<and> (\<forall>i<length man. manifest_at p i = Some (man_view (man ! i)))"
proof -
  note l = encoded_len_Some [OF len]
  let ?moff = "48 + length segs * 32"
  define p where "p = \<lparr>pbytes = b, pentry = entry, seg_off = 48, seg_count = length segs, man_off = ?moff, man_count = length man\<rparr>"
  have mx: "length b \<le> usize_max" using small by (simp add: usize_max_def)
  note r = rd_has [OF mx]
  have h: "header_at b arch entry (length segs) (length man) ?moff" using im by (simp add: image_at_def Let_def)
  have u: "unat (of_nat (length b) :: u32) = length b" "unat (of_nat (length segs) :: u16) = length segs"
    "unat (of_nat (length man) :: u16) = length man" "unat (of_nat ?moff :: u32) = ?moff"
    by (rule unat_of_nat_small, use small l in simp)+
  have fits: "table_fits (length b) 48 (length segs) SEGMENT_LEN" "table_fits (length b) ?moff (length man) MANIFEST_LEN"
    using l mx by (simp_all add: table_fits_def checked_mul_usize_def checked_add_usize_def SEGMENT_LEN_def MANIFEST_LEN_def)
  have reads: "rd_u32 b 0 = Ok PEX_MAGIC" "rd_u16 b 4 = Ok PEX_VERSION" "rd_u16 b 6 = Ok arch" "rd_u64 b 8 = Ok entry"
    "rd_u32 b 16 = Ok (of_nat (length b))" "rd_u32 b 20 = Ok (of_nat HEADER_LEN)" "rd_u16 b 24 = Ok (of_nat (length segs))"
    "rd_u16 b 26 = Ok (of_nat (length man))" "rd_u32 b 28 = Ok (of_nat ?moff)" "rd_u32 b 32 = Ok 0" "rd_u32 b 36 = Ok 0" "rd_u64 b 40 = Ok 0"
    by (rule r, use h in \<open>unfold header_at_def, blast\<close>)+
  have "\<not> length b < HEADER_LEN" "\<not> (length segs > MAX_SEGMENTS \<or> length man > MAX_MANIFEST)" "unat (of_nat HEADER_LEN :: u32) = 48"
    using l by (simp_all add: HEADER_LEN_def MAX_SEGMENTS_def MAX_MANIFEST_def)
  then have "parse_header b arch = Ok p"
    unfolding parse_header_def reads obind.simps u using fits by (simp add: p_def check_integrity_def)
  moreover have seg: "segment_raw p i = Ok (seg_view (cur i) (segs ! i))" if "i < length segs" for i
  proof -
    have "seg_at b (48 + i * 32) (cur i) (segs ! i)" using im that by (simp add: image_at_def Let_def cur_def)
    then have "rd_u32 b (48 + i * 32) = Ok (of_nat (cur i))" "rd_u32 b (48 + i * 32 + 4) = Ok (of_nat (length (ss_data (segs ! i))))"
      "rd_u64 b (48 + i * 32 + 8) = Ok (ss_vaddr (segs ! i))" "rd_u64 b (48 + i * 32 + 16) = Ok (ss_mem_size (segs ! i))"
      "rd_u8 b (48 + i * 32 + 24) = Ok (ss_perm (segs ! i))"
      unfolding seg_at_def by (auto intro: r simp del: of_nat_add)
    then show ?thesis
      using table_fits_rec(1) [OF fits(1) that mx] by (simp add: segment_raw_def p_def seg_view_def SEGMENT_LEN_def)
  qed
  moreover have man: "manifest_raw p i = Ok (man_view (man ! i))" if "i < length man" for i
  proof -
    have "man_at b (?moff + i * 32) (man ! i)" using im that by (simp add: image_at_def Let_def)
    then have "rd_u8 b (?moff + i * 32) = Ok (ms_cap_type (man ! i))" "rd_u16 b (?moff + i * 32 + 2) = Ok (ms_dest_slot (man ! i))"
      "rd_u32 b (?moff + i * 32 + 4) = Ok (ms_rights (man ! i))" "rd_u64 b (?moff + i * 32 + 8) = Ok (ms_param0 (man ! i))"
      "rd_u64 b (?moff + i * 32 + 16) = Ok (ms_param1 (man ! i))"
      unfolding man_at_def by (auto intro: r)
    then show ?thesis
      using table_fits_rec(1) [OF fits(2) that mx] by (simp add: manifest_raw_def p_def man_view_def MANIFEST_LEN_def)
  qed
  moreover have "check_segments p [0..<seg_count p] False = Ok True"
  proof -
    have "cur i + length (ss_data (segs ! i)) \<le> length (pbytes p)" if "i < length segs" for i
      using data_total_take [OF that] l(1) by (simp add: cur_def p_def)
    then have "check_segments p [0..<seg_count p] False = Ok (\<exists>i\<in>set [0..<seg_count p]. runs_in (pentry p) (segs ! i))"
      using check_segments_valid [of "[0..<seg_count p]" p cur segs False] seg valid small by (auto simp: p_def)
    moreover have "\<exists>i\<in>set [0..<seg_count p]. runs_in (pentry p) (segs ! i)"
      using run by (fastforce simp: p_def in_set_conv_nth)
    ultimately show ?thesis by simp
  qed
  moreover have "check_manifest p [0..<man_count p] = Ok ()"
    by (rule check_manifest_valid) (use man in \<open>auto simp: p_def\<close>)
  ultimately have "pex_parse b arch = Ok p" by (simp add: pex_parse_def)
  then show ?thesis
    using seg man by (auto simp: p_def pex_entry_def segment_count_def manifest_count_def segment_at_def manifest_at_def)
qed

text \<open>
  (C25) Encoder and parser agree.  For segments that satisfy the format's rules with the entry point
  in an executable one, any manifest, and a buffer that is large enough, \<open>encode\<close> succeeds, touches
  only the image's bytes, and the parser accepts the image and reads back the entry point, every
  segment with its file bytes, and every manifest entry exactly as given.
\<close>

theorem encode_parse_roundtrip:
  assumes "\<forall>s\<in>set segs. valid_segment s" "\<exists>s\<in>set segs. runs_in entry s"
    and len: "encoded_len segs man = Some len" and size: "len < 2 ^ 32" "len \<le> length out"
  shows "\<exists>out' p. encode arch entry segs man out = Ok (len, out') \<and> length out' = length out \<and> drop len out' = drop len out
    \<and> pex_parse (take len out') arch = Ok p \<and> pex_entry p = entry
    \<and> segment_count p = length segs \<and> manifest_count p = length man
    \<and> (\<forall>i<length segs. \<exists>s. segment_at p i = Some s \<and> vaddr s = ss_vaddr (segs ! i) \<and> mem_size s = ss_mem_size (segs ! i)
         \<and> perm s = ss_perm (segs ! i) \<and> segment_data p i = Some (ss_data (segs ! i)))
    \<and> (\<forall>i<length man. manifest_at p i = Some (man_view (man ! i)))"
proof -
  obtain b where b: "encode arch entry segs man out = Ok (len, b @ drop len out)" "length b = len" "image_at b arch entry segs man"
    using encode_image [OF len size] by blast
  obtain p where p: "pex_parse b arch = Ok p" "pbytes p = b" "pex_entry p = entry" "segment_count p = length segs" "manifest_count p = length man"
    "\<forall>i<length segs. segment_at p i = Some (seg_view (48 + length segs * 32 + length man * 32 + data_total (take i segs)) (segs ! i))"
    "\<forall>i<length man. manifest_at p i = Some (man_view (man ! i))"
    using parse_image [OF b(3)] assms b(2) by auto
  have "segment_data p i = Some (ss_data (segs ! i))" if i: "i < length segs" for i
  proof -
    let ?c = "48 + length segs * 32 + length man * 32 + data_total (take i segs)"
    have "has b ?c (ss_data (segs ! i))" using b(3) i by (simp add: image_at_def Let_def seg_at_def)
    moreover have "?c + length (ss_data (segs ! i)) \<le> len" using encoded_len_Some(1) [OF len] data_total_take [OF i] by simp
    ultimately show ?thesis using segment_data_view [of p i ?c "segs ! i"] p(2,6) i size(1) by simp
  qed
  with b p size(2) show ?thesis by (auto simp: seg_view_def)
qed

theorem encode_parse_roundtrip_witness:
  "\<exists>out' p. encode ARCH_X86_64 0x400010
       [\<lparr>ss_vaddr = 0x400000, ss_mem_size = 0x1000, ss_perm = PERM_R OR PERM_X, ss_data = [0xf4]\<rparr>]
       [\<lparr>ms_cap_type = MANIFEST_SCHED, ms_dest_slot = 1, ms_rights = 512, ms_param0 = 100, ms_param1 = 1000\<rparr>]
       (replicate 200 0) = Ok (113, out')
     \<and> pex_parse (take 113 out') ARCH_X86_64 = Ok p \<and> pex_entry p = 0x400010 \<and> segment_data p 0 = Some [0xf4]"
proof -
  let ?segs = "[\<lparr>ss_vaddr = 0x400000, ss_mem_size = 0x1000, ss_perm = PERM_R OR PERM_X, ss_data = [0xf4]\<rparr>]"
  let ?man = "[\<lparr>ms_cap_type = MANIFEST_SCHED, ms_dest_slot = 1, ms_rights = 512, ms_param0 = 100, ms_param1 = 1000\<rparr>]"
  have "validate_perm (PERM_R OR PERM_X) = Ok ()" by code_simp
  then have v: "\<forall>s\<in>set ?segs. valid_segment s" by (simp add: valid_segment_def)
  have "(PERM_R OR PERM_X) AND PERM_X \<noteq> 0" by code_simp
  then have r: "\<exists>s\<in>set ?segs. runs_in 0x400010 s" by (simp add: runs_in_def word_le_nat_alt)
  have l: "encoded_len ?segs ?man = Some 113" by code_simp
  have o: "113 \<le> length (replicate 200 (0 :: u8))" by simp
  show ?thesis using encode_parse_roundtrip [OF v r l _ o, of ARCH_X86_64] by fastforce
qed

end
