(* ===== verification/Kernel_Syscall.thy ===== *)
theory Kernel_Syscall
  imports CSpace_Authority
begin

text \<open>
  The capability-invocation boundary: the wire contract of \<^verbatim>\<open>src/abi/src/invoke.rs\<close> and the kernel's
  dispatch \<^verbatim>\<open>src/kernel/src/syscall.rs\<close>, a pure function of the caller's capability space and the
  decoded invocation, whose \<open>[u64; MSG_REGS]\<close> is a tuple of four words.  The operation table \<open>needs\<close> is the specification the dispatch is shown to
  implement; from it follow that authority only narrows along derivation and that revocation takes
  effect at the boundary.
\<close>

definition SYS_INVOKE :: u64 where "SYS_INVOKE = 0"

definition CAP_IDENTIFY :: u16 where "CAP_IDENTIFY = 1"
definition FRAME_PROBE :: u16 where "FRAME_PROBE = 2"
definition ENDPOINT_SEND :: u16 where "ENDPOINT_SEND = 3"
definition DEBUG_EMIT :: u16 where "DEBUG_EMIT = 0x10"
definition PROC_EXIT :: u16 where "PROC_EXIT = 0x11"
definition ENDPOINT_CALL :: u16 where "ENDPOINT_CALL = 0x20"
definition ENDPOINT_RECV :: u16 where "ENDPOINT_RECV = 0x21"
definition ENDPOINT_REPLY :: u16 where "ENDPOINT_REPLY = 0x22"
definition SHARED_QUERY :: u16 where "SHARED_QUERY = 0x30"
definition NOTIFY_WAIT :: u16 where "NOTIFY_WAIT = 0x40"
definition NOTIFY_SIGNAL :: u16 where "NOTIFY_SIGNAL = 0x41"

lemmas op_codes =
  CAP_IDENTIFY_def FRAME_PROBE_def ENDPOINT_SEND_def DEBUG_EMIT_def PROC_EXIT_def ENDPOINT_CALL_def
  ENDPOINT_RECV_def ENDPOINT_REPLY_def SHARED_QUERY_def NOTIFY_WAIT_def NOTIFY_SIGNAL_def

record invocation =
  inv_cptr :: u32
  inv_op :: u16
  inv_args :: "u64 \<times> u64 \<times> u64 \<times> u64"

definition invocation_new :: "u32 \<Rightarrow> u16 \<Rightarrow> invocation" where
  "invocation_new c p = \<lparr>inv_cptr = c, inv_op = p, inv_args = (0, 0, 0, 0)\<rparr>"

datatype invoke_error = BadCptr | InvEmptySlot | InvWrongType | InvInsufficientRights | UnknownOp

fun invoke_error_code :: "invoke_error \<Rightarrow> int" where
  "invoke_error_code BadCptr = 1"
| "invoke_error_code InvEmptySlot = 2"
| "invoke_error_code InvWrongType = 3"
| "invoke_error_code InvInsufficientRights = 4"
| "invoke_error_code UnknownOp = 5"

definition guarded :: "raw_cap \<Rightarrow> cap_type \<Rightarrow> rights \<Rightarrow> u64 \<Rightarrow> invoke_error + u64" where
  "guarded c t r v =
     (if cap_type c \<noteq> t then Inl InvWrongType
      else if \<not> contains (rights c) r then Inl InvInsufficientRights
      else Inr v)"

definition invoke :: "cspace \<Rightarrow> invocation \<Rightarrow> invoke_error + u64" where
  "invoke cs iv =
     (case resolve cs (unat (inv_cptr iv)) of
        Inl e \<Rightarrow> Inl (case e of OutOfBounds \<Rightarrow> BadCptr | _ \<Rightarrow> InvEmptySlot)
      | Inr c \<Rightarrow>
          if inv_op iv = CAP_IDENTIFY
          then Inr (push_bit 32 (ucast (cap_type_u8 (cap_type c))) OR ucast (rights c))
          else if inv_op iv = FRAME_PROBE then guarded c Frame READ (objref c)
          else if inv_op iv = ENDPOINT_SEND then guarded c Endpoint SEND (badge c)
          else if inv_op iv = DEBUG_EMIT \<or> inv_op iv = PROC_EXIT
          then guarded c Endpoint SEND (fst (inv_args iv))
          else if inv_op iv = ENDPOINT_CALL then guarded c Endpoint SEND (badge c)
          else if inv_op iv = ENDPOINT_RECV then guarded c Endpoint RECV (badge c)
          else if inv_op iv = SHARED_QUERY then guarded c SharedRo READ (push_bit 12 (ucast (aux c)))
          else if inv_op iv = NOTIFY_WAIT then guarded c Notification WAIT (objref c)
          else if inv_op iv = NOTIFY_SIGNAL then guarded c Notification SIGNAL (objref c)
          else Inl UnknownOp)"

section \<open>The operation table\<close>

text \<open>What each operation needs: the object class and the right.\<close>

definition needs :: "u16 \<rightharpoonup> cap_type \<times> rights" where
  "needs p = map_of
     [(FRAME_PROBE, (Frame, READ)), (ENDPOINT_SEND, (Endpoint, SEND)), (DEBUG_EMIT, (Endpoint, SEND)),
      (PROC_EXIT, (Endpoint, SEND)), (ENDPOINT_CALL, (Endpoint, SEND)), (ENDPOINT_RECV, (Endpoint, RECV)),
      (SHARED_QUERY, (SharedRo, READ)), (NOTIFY_WAIT, (Notification, WAIT)), (NOTIFY_SIGNAL, (Notification, SIGNAL))] p"

definition permits :: "raw_cap \<Rightarrow> u16 \<Rightarrow> bool" where
  "permits c p \<longleftrightarrow> p = CAP_IDENTIFY \<or> (case needs p of None \<Rightarrow> False | Some (t, r) \<Rightarrow> cap_type c = t \<and> contains (rights c) r)"

lemma guarded_Inr: "guarded c t r v = Inr w \<longleftrightarrow> cap_type c = t \<and> contains (rights c) r \<and> w = v"
  by (auto simp: guarded_def)

lemma invoke_Inr_permits:
  "(\<exists>v. invoke cs iv = Inr v) \<longleftrightarrow> (\<exists>c. resolve cs (unat (inv_cptr iv)) = Inr c \<and> permits c (inv_op iv))"
proof (cases "resolve cs (unat (inv_cptr iv))")
  case (Inr c)
  have "(\<exists>v. invoke cs iv = Inr v) \<longleftrightarrow> permits c (inv_op iv)"
    unfolding invoke_def Inr permits_def needs_def op_codes by (auto simp: guarded_Inr split: if_splits)
  then show ?thesis by (simp add: Inr)
qed (simp add: invoke_def)

lemma invoke_cong: "resolve cs (unat (inv_cptr iv)) = resolve cs' (unat (inv_cptr iv)) \<Longrightarrow> invoke cs iv = invoke cs' iv"
  by (simp add: invoke_def)

lemma permits_mono:
  assumes "permits c p" "cap_type c = cap_type d" "subset_of (rights c) (rights d)" shows "permits d p"
  using assms subset_of_contains by (auto simp: permits_def split: option.splits)

section \<open>Properties\<close>

text \<open>
  (C26) The dispatch is exactly its operation table.  An invocation succeeds precisely when the cptr
  resolves in the caller's own space and the capability found there has the object class and the
  right the operation needs (identification needs neither); otherwise it is refused, the errors
  telling apart a cptr out of range, an empty slot, an unknown operation, a wrong class and a missing
  right, in that order.
\<close>

theorem invoke_exact:
  "((\<exists>v. invoke cs iv = Inr v) \<longleftrightarrow> (\<exists>c. resolve cs (unat (inv_cptr iv)) = Inr c \<and> permits c (inv_op iv)))
   \<and> (invoke cs iv = Inl BadCptr \<longleftrightarrow> nslots cs \<le> unat (inv_cptr iv))
   \<and> (invoke cs iv = Inl InvEmptySlot \<longleftrightarrow> unat (inv_cptr iv) < nslots cs \<and> is_null (cap_at cs (unat (inv_cptr iv))))
   \<and> (invoke cs iv = Inl UnknownOp \<longleftrightarrow> (\<exists>c. resolve cs (unat (inv_cptr iv)) = Inr c)
        \<and> inv_op iv \<noteq> CAP_IDENTIFY \<and> needs (inv_op iv) = None)
   \<and> (invoke cs iv = Inl InvWrongType \<longleftrightarrow> (\<exists>c t r. resolve cs (unat (inv_cptr iv)) = Inr c
        \<and> needs (inv_op iv) = Some (t, r) \<and> cap_type c \<noteq> t))
   \<and> (invoke cs iv = Inl InvInsufficientRights \<longleftrightarrow> (\<exists>c t r. resolve cs (unat (inv_cptr iv)) = Inr c
        \<and> needs (inv_op iv) = Some (t, r) \<and> cap_type c = t \<and> \<not> contains (rights c) r))"
proof (cases "resolve cs (unat (inv_cptr iv))")
  case (Inl e)
  then have e: "e = (if nslots cs \<le> unat (inv_cptr iv) then OutOfBounds else EmptySlot)"
    "nslots cs \<le> unat (inv_cptr iv) \<or> is_null (cap_at cs (unat (inv_cptr iv)))"
    by (auto simp: resolve_def live_def split: if_splits)
  then show ?thesis unfolding invoke_Inr_permits by (cases "nslots cs \<le> unat (inv_cptr iv)") (auto simp: invoke_def Inl)
next
  case (Inr c)
  have r: "unat (inv_cptr iv) < nslots cs" "\<not> is_null (cap_at cs (unat (inv_cptr iv)))"
    using Inr by (simp_all add: resolve_def)
  have g: "invoke cs iv = (if inv_op iv = CAP_IDENTIFY then invoke cs iv
      else case needs (inv_op iv) of None \<Rightarrow> Inl UnknownOp
        | Some (t, r) \<Rightarrow> (if cap_type c \<noteq> t then Inl InvWrongType else if \<not> contains (rights c) r then Inl InvInsufficientRights
            else invoke cs iv))"
    unfolding invoke_def Inr needs_def op_codes by (simp add: guarded_def)
  have nid: "needs CAP_IDENTIFY = None" by (simp add: needs_def op_codes)
  show ?thesis
  proof (cases "permits c (inv_op iv)")
    case True
    then obtain v where "invoke cs iv = Inr v" using invoke_Inr_permits [of cs iv] Inr by auto
    then show ?thesis using True r nid unfolding Inr permits_def by (auto split: option.splits)
  next
    case False
    then have "inv_op iv \<noteq> CAP_IDENTIFY" by (simp add: permits_def)
    then show ?thesis using False r g unfolding Inr permits_def by (auto split: option.splits if_splits)
  qed
qed



text \<open>
  The default rights of a retyped \<open>Notification\<close> contain \<open>RECV\<close> where waiting needs \<open>WAIT\<close>, so
  neither it nor anything derived from it can be waited on.
\<close>

theorem retyped_notification_never_waits:
  assumes "resolve cs (unat (inv_cptr iv)) = Inr c" "cap_type c = Notification"
    and sub: "subset_of (rights c) (default_rights Notification)" and "inv_op iv = NOTIFY_WAIT"
  shows "invoke cs iv = Inl InvInsufficientRights"
proof -
  have "\<not> contains (default_rights Notification) WAIT" by code_simp
  then have "\<not> contains (rights c) WAIT" using sub not_contains_mono by blast
  then show ?thesis using assms by (simp add: invoke_def guarded_def op_codes)
qed

end
