(* ===== verification/Kernel_User.thy ===== *)
theory Kernel_User
  imports Kernel_Syscall CSpace_Grant Trap
begin

text \<open>
  The system-call layer of user processes, \<^verbatim>\<open>src/kernel/src/user/mod.rs\<close>: the per-process capability
  spaces and exit records, the call/receive/reply rendezvous, the notification, and what a trap,
  a fault or a wake-up does to them.  A call that blocks is split at its yields: the trap checks and
  registers, and every later poll of the loop is a step of its own, so a run is any interleaving of
  the processes' lock-protected sections.  \<open>None\<close> is a halted kernel (one of the fatal messages, or a
  trap).  Where a process is between two sections is its \<open>umode\<close>.
\<close>

definition MAX_PROCS :: nat where "MAX_PROCS = 4"
definition PROC_SLOTS :: nat where "PROC_SLOTS = 16"
definition REPLY_SLOT :: nat where "REPLY_SLOT = 3"
definition EP_SLOT :: nat where "EP_SLOT = 1"
definition EP_BADGE :: u64 where "EP_BADGE = 0xB1"
definition AUTH_SLOTS :: nat where "AUTH_SLOTS = 4"
definition KILLED :: u64 where "KILLED = - 1"

record rendezvous =
  rdv_caller :: "nat option"
  rdv_msg :: u64
  rdv_reply :: "u64 option"

record notify_state =
  signaled :: bool
  waiter :: "nat option"

datatype umode = UserMode | Calling | Receiving | Waiting | Retired

record ustate =
  procs :: "cspace option list"
  proc_done :: "bool list"
  proc_exit :: "u64 list"
  rdv :: rendezvous
  notify :: notify_state
  modes :: "umode list"
  console :: "(nat \<times> u64) list"

text \<open>What an entry into the kernel comes to: a value for the process, a blocked process, a retired one.\<close>

datatype uresult = Ret u64 | Block | Gone

definition retire :: "nat \<Rightarrow> u64 \<Rightarrow> ustate \<Rightarrow> (uresult \<times> ustate) option" where
  "retire i code u = do {
     e \<leftarrow> upd (proc_exit u) i code;
     d \<leftarrow> upd (proc_done u) i True;
     m \<leftarrow> upd (modes u) i Retired;
     Some (Gone, u\<lparr>proc_exit := e, proc_done := d, modes := m\<rparr>)
   }"

definition set_mode :: "nat \<Rightarrow> umode \<Rightarrow> uresult \<Rightarrow> ustate \<Rightarrow> (uresult \<times> ustate) option" where
  "set_mode i md r u = do { m \<leftarrow> upd (modes u) i md; Some (r, u\<lparr>modes := m\<rparr>) }"

definition proc_space :: "ustate \<Rightarrow> nat \<Rightarrow> cspace option" where
  "proc_space u i = do { c \<leftarrow> idx (procs u) i; c }"

text \<open>\<open>ipc_check\<close>: go on with \<open>k\<close> when the dispatch allows the operation, kill the process otherwise.\<close>

definition ipc_check ::
  "nat \<Rightarrow> invocation \<Rightarrow> (ustate \<Rightarrow> (uresult \<times> ustate) option) \<Rightarrow> ustate \<Rightarrow> (uresult \<times> ustate) option" where
  "ipc_check i iv k u = do {
     cs \<leftarrow> proc_space u i;
     case invoke cs iv of Inl e \<Rightarrow> retire i KILLED u | Inr v \<Rightarrow> k u
   }"

definition ipc_call :: "nat \<Rightarrow> invocation \<Rightarrow> ustate \<Rightarrow> (uresult \<times> ustate) option" where
  "ipc_call i iv = ipc_check i iv (\<lambda>u.
     set_mode i Calling Block (u\<lparr>rdv := \<lparr>rdv_caller = Some i, rdv_msg = fst (inv_args iv), rdv_reply = None\<rparr>\<rparr>))"

definition call_poll :: "nat \<Rightarrow> ustate \<Rightarrow> (uresult \<times> ustate) option" where
  "call_poll i u =
     (case rdv_reply (rdv u) of
        Some v \<Rightarrow> set_mode i UserMode (Ret v) (u\<lparr>rdv := (rdv u)\<lparr>rdv_reply := None, rdv_caller := None\<rparr>\<rparr>)
      | None \<Rightarrow> Some (Block, u))"

definition ipc_recv :: "nat \<Rightarrow> invocation \<Rightarrow> ustate \<Rightarrow> (uresult \<times> ustate) option" where
  "ipc_recv i iv = ipc_check i iv (set_mode i Receiving Block)"

definition recv_poll :: "nat \<Rightarrow> ustate \<Rightarrow> (uresult \<times> ustate) option" where
  "recv_poll i u =
     (case rdv_caller (rdv u) of
        None \<Rightarrow> Some (Block, u)
      | Some c \<Rightarrow>
          let u1 = u\<lparr>rdv := (rdv u)\<lparr>rdv_caller := None\<rparr>\<rparr> in do {
            cs \<leftarrow> proc_space u1 i;
            case mint_reply cs REPLY_SLOT (of_nat c) 0 of
              (Ok _, cs') \<Rightarrow> do {
                p \<leftarrow> upd (procs u1) i (Some cs');
                set_mode i UserMode (Ret (rdv_msg (rdv u))) (u1\<lparr>procs := p\<rparr>)
              }
            | (Err e, cs') \<Rightarrow> retire i KILLED u1
            | (Panic, cs') \<Rightarrow> None
          })"

definition ipc_reply :: "nat \<Rightarrow> invocation \<Rightarrow> ustate \<Rightarrow> (uresult \<times> ustate) option" where
  "ipc_reply i iv u = do {
     cs \<leftarrow> proc_space u i;
     case consume_reply cs (unat (inv_cptr iv)) of
       (Ok c, cs') \<Rightarrow> do {
         p \<leftarrow> upd (procs u) i (Some cs');
         Some (Ret 0, u\<lparr>procs := p, rdv := (rdv u)\<lparr>rdv_reply := Some (fst (inv_args iv))\<rparr>\<rparr>)
       }
     | (Err e, cs') \<Rightarrow> retire i KILLED u
     | (Panic, cs') \<Rightarrow> None
   }"

definition notify_wait :: "nat \<Rightarrow> invocation \<Rightarrow> ustate \<Rightarrow> (uresult \<times> ustate) option" where
  "notify_wait i iv = ipc_check i iv (\<lambda>u. set_mode i Waiting Block (u\<lparr>notify := (notify u)\<lparr>waiter := Some i\<rparr>\<rparr>))"

definition wait_poll :: "nat \<Rightarrow> ustate \<Rightarrow> (uresult \<times> ustate) option" where
  "wait_poll i u =
     (if signaled (notify u) then set_mode i UserMode (Ret 0) (u\<lparr>notify := \<lparr>signaled = False, waiter = None\<rparr>\<rparr>)
      else Some (Block, u))"

definition notify_signal :: "ustate \<Rightarrow> ustate" where
  "notify_signal u = u\<lparr>notify := (notify u)\<lparr>signaled := True\<rparr>\<rparr>"

definition notify_has_waiter :: "ustate \<Rightarrow> bool" where
  "notify_has_waiter u \<longleftrightarrow> waiter (notify u) \<noteq> None"

definition notify_signal_op :: "nat \<Rightarrow> invocation \<Rightarrow> ustate \<Rightarrow> (uresult \<times> ustate) option" where
  "notify_signal_op i iv = ipc_check i iv (\<lambda>u. Some (Ret 0, u\<lparr>notify := (notify u)\<lparr>signaled := True\<rparr>\<rparr>))"

definition syscall :: "nat \<Rightarrow> invocation \<Rightarrow> ustate \<Rightarrow> (uresult \<times> ustate) option" where
  "syscall i iv u =
     (if inv_op iv = ENDPOINT_CALL then ipc_call i iv u
      else if inv_op iv = ENDPOINT_RECV then ipc_recv i iv u
      else if inv_op iv = ENDPOINT_REPLY then ipc_reply i iv u
      else if inv_op iv = NOTIFY_WAIT then notify_wait i iv u
      else if inv_op iv = NOTIFY_SIGNAL then notify_signal_op i iv u
      else do {
        cs \<leftarrow> proc_space u i;
        case invoke cs iv of
          Inr v \<Rightarrow>
            if inv_op iv = DEBUG_EMIT then Some (Ret 0, u\<lparr>console := console u @ [(i, v)]\<rparr>)
            else if inv_op iv = PROC_EXIT then retire i v u
            else Some (Ret v, u)
        | Inl e \<Rightarrow> retire i KILLED u
      })"

definition fault :: "nat \<Rightarrow> ustate \<Rightarrow> (uresult \<times> ustate) option" where
  "fault i u = retire i KILLED u"

text \<open>The capability space of the in-kernel bring-up process: one badged \<open>Endpoint\<close> with \<open>SEND\<close>, granted
  from a transient authority over one frame.\<close>

definition setup_blob_cspace :: "u64 \<Rightarrow> nat \<Rightarrow> ustate \<Rightarrow> ustate option" where
  "setup_blob_cspace frame i u =
     (case set_root_untyped (cspace_new AUTH_SLOTS) frame 1 of
        (Panic, _) \<Rightarrow> None
      | (_, a0) \<Rightarrow>
          (case retype a0 0 Endpoint 1 1 1 of
             (Ok _, a1) \<Rightarrow>
               (case grant a1 1 (cspace_new PROC_SLOTS) EP_SLOT SEND EP_BADGE Mint of
                  (Inr _, a2, cs) \<Rightarrow> do { p \<leftarrow> upd (procs u) i (Some cs); Some (u\<lparr>procs := p\<rparr>) }
                | _ \<Rightarrow> None)
           | _ \<Rightarrow> None))"

section \<open>Steps and runs\<close>

datatype ulabel = Trap nat invocation | CallPoll nat | RecvPoll nat | WaitPoll nat | Faulted nat | KernelSignal

fun ustep :: "ulabel \<Rightarrow> ustate \<Rightarrow> (uresult \<times> ustate) option" where
  "ustep (Trap i iv) u = syscall i iv u"
| "ustep (CallPoll i) u = call_poll i u"
| "ustep (RecvPoll i) u = recv_poll i u"
| "ustep (WaitPoll i) u = wait_poll i u"
| "ustep (Faulted i) u = fault i u"
| "ustep KernelSignal u = Some (Ret 0, notify_signal u)"

definition in_mode :: "ustate \<Rightarrow> nat \<Rightarrow> umode \<Rightarrow> bool" where
  "in_mode u i m \<longleftrightarrow> i < length (modes u) \<and> modes u ! i = m"

fun enabled :: "ulabel \<Rightarrow> ustate \<Rightarrow> bool" where
  "enabled (Trap i iv) u = in_mode u i UserMode"
| "enabled (CallPoll i) u = in_mode u i Calling"
| "enabled (RecvPoll i) u = in_mode u i Receiving"
| "enabled (WaitPoll i) u = in_mode u i Waiting"
| "enabled (Faulted i) u = in_mode u i UserMode"
| "enabled KernelSignal u = True"

inductive urun :: "ustate \<Rightarrow> (ulabel \<times> uresult) list \<Rightarrow> ustate \<Rightarrow> bool" for u0 where
  urun_nil: "urun u0 [] u0"
| urun_step: "urun u0 tr u \<Longrightarrow> enabled l u \<Longrightarrow> ustep l u = Some (r, u') \<Longrightarrow> urun u0 (tr @ [(l, r)]) u'"

inductive_simps urun_Nil_iff: "urun u0 [] u"

fun run_labels :: "ulabel list \<Rightarrow> ustate \<Rightarrow> (uresult list \<times> ustate) option" where
  "run_labels [] u = Some ([], u)"
| "run_labels (l # ls) u = (if enabled l u then do {
     (r, u') \<leftarrow> ustep l u;
     (rs, u'') \<leftarrow> run_labels ls u';
     Some (r # rs, u'') } else None)"

lemma run_labels_urun: "urun u0 tr u \<Longrightarrow> run_labels ls u = Some (rs, u') \<Longrightarrow> urun u0 (tr @ zip ls rs) u'"
proof (induction ls arbitrary: tr u rs)
  case (Cons l ls)
  then obtain r u1 rs' where s: "enabled l u" "ustep l u = Some (r, u1)" "run_labels ls u1 = Some (rs', u')" "rs = r # rs'"
    by (auto simp: bind_eq_Some_conv split: if_splits)
  from Cons.IH [OF urun_step [OF Cons.prems(1) s(1,2)] s(3)] show ?case by (simp add: s(4))
qed simp

section \<open>What a step may touch\<close>

text \<open>\<open>only_proc i\<close>: apart from process \<open>i\<close>, every process keeps its capability space, its exit record and
  where it is.\<close>

definition only_proc :: "nat \<Rightarrow> ustate \<Rightarrow> ustate \<Rightarrow> bool" where
  "only_proc i u u' \<longleftrightarrow> length (procs u') = length (procs u) \<and> length (proc_done u') = length (proc_done u)
     \<and> length (proc_exit u') = length (proc_exit u) \<and> length (modes u') = length (modes u)
     \<and> (\<forall>j. j \<noteq> i \<longrightarrow> procs u' ! j = procs u ! j \<and> proc_done u' ! j = proc_done u ! j
          \<and> proc_exit u' ! j = proc_exit u ! j \<and> modes u' ! j = modes u ! j)"

definition same_shared :: "ustate \<Rightarrow> ustate \<Rightarrow> bool" where
  "same_shared u u' \<longleftrightarrow> rdv u' = rdv u \<and> notify u' = notify u \<and> console u' = console u"

definition holds_for :: "ustate \<Rightarrow> nat \<Rightarrow> u16 \<Rightarrow> bool" where
  "holds_for u i p \<longleftrightarrow> (\<exists>cs n c. proc_space u i = Some cs \<and> resolve cs n = Inr c \<and> permits c p)"

text \<open>The authority a system call needs: the capability the invoked cptr names in the caller's own space.\<close>

definition authorised :: "nat \<Rightarrow> invocation \<Rightarrow> ustate \<Rightarrow> bool" where
  "authorised i iv u \<longleftrightarrow> (\<exists>cs c. proc_space u i = Some cs \<and> resolve cs (unat (inv_cptr iv)) = Inr c
     \<and> (if inv_op iv = ENDPOINT_REPLY then cap_type c = Reply else permits c (inv_op iv)))"

definition blocked_ok :: "ustate \<Rightarrow> bool" where
  "blocked_ok u \<longleftrightarrow> (\<forall>i. (in_mode u i Calling \<longrightarrow> holds_for u i ENDPOINT_CALL)
     \<and> (in_mode u i Receiving \<longrightarrow> holds_for u i ENDPOINT_RECV) \<and> (in_mode u i Waiting \<longrightarrow> holds_for u i NOTIFY_WAIT))"

lemma retire_Some:
  "retire i code u = Some (r, u') \<longleftrightarrow> r = Gone \<and> i < length (proc_exit u) \<and> i < length (proc_done u) \<and> i < length (modes u)
     \<and> u' = u\<lparr>proc_exit := (proc_exit u)[i := code], proc_done := (proc_done u)[i := True], modes := (modes u)[i := Retired]\<rparr>"
  by (auto simp: retire_def upd_def)

lemma set_mode_Some:
  "set_mode i m r u = Some (r', u') \<longleftrightarrow> r' = r \<and> i < length (modes u) \<and> u' = u\<lparr>modes := (modes u)[i := m]\<rparr>"
  by (auto simp: set_mode_def upd_def)

lemma proc_space_Some: "proc_space u i = Some cs \<longleftrightarrow> i < length (procs u) \<and> procs u ! i = Some cs"
  by (auto simp: proc_space_def idx_def)

lemmas user_ops = ipc_check_def ipc_call_def ipc_recv_def notify_wait_def notify_signal_op_def syscall_def
  call_poll_def recv_poll_def wait_poll_def ipc_reply_def fault_def

lemma only_proc_retire: "retire i code u = Some (r, u') \<Longrightarrow> only_proc i u u' \<and> same_shared u u' \<and> procs u' = procs u"
  by (auto simp: retire_Some only_proc_def same_shared_def)

fun actor :: "ulabel \<Rightarrow> nat option" where
  "actor (Trap i _) = Some i"
| "actor (CallPoll i) = Some i"
| "actor (RecvPoll i) = Some i"
| "actor (WaitPoll i) = Some i"
| "actor (Faulted i) = Some i"
| "actor KernelSignal = None"

lemma recv_poll_Some:
  assumes "recv_poll i u = Some (r, u')"
  shows "rdv_caller (rdv u) = None \<and> r = Block \<and> u' = u
    \<or> (\<exists>c cs. rdv_caller (rdv u) = Some c \<and> proc_space u i = Some cs \<and> i < length (modes u)
        \<and> (r = Gone \<and> retire i KILLED (u\<lparr>rdv := (rdv u)\<lparr>rdv_caller := None\<rparr>\<rparr>) = Some (r, u')
           \<or> (\<exists>cs'. mint_reply cs REPLY_SLOT (of_nat c) 0 = (Ok (), cs') \<and> r = Ret (rdv_msg (rdv u))
                \<and> u' = u\<lparr>rdv := (rdv u)\<lparr>rdv_caller := None\<rparr>, procs := (procs u)[i := Some cs'], modes := (modes u)[i := UserMode]\<rparr>)))"
proof (cases "rdv_caller (rdv u)")
  case (Some c)
  let ?u1 = "u\<lparr>rdv := (rdv u)\<lparr>rdv_caller := None\<rparr>\<rparr>"
  have sp: "proc_space ?u1 i = proc_space u i" by (simp add: proc_space_def)
  obtain cs where cs: "proc_space u i = Some cs" using assms Some sp by (auto simp: recv_poll_def Let_def bind_eq_Some_conv)
  obtain o' cs' where m: "mint_reply cs REPLY_SLOT (of_nat c) 0 = (o', cs')" by force
  show ?thesis using assms Some cs m sp
    by (cases o') (auto simp: recv_poll_def Let_def set_mode_Some retire_Some upd_def proc_space_Some split: if_splits)
qed (use assms in \<open>simp add: recv_poll_def\<close>)

lemma ipc_reply_Some:
  assumes "ipc_reply i iv u = Some (r, u')" and p: "inv_op iv = ENDPOINT_REPLY"
  shows "\<exists>cs. proc_space u i = Some cs \<and>
    (retire i KILLED u = Some (r, u') \<and> \<not> authorised i iv u
     \<or> (\<exists>c cs'. consume_reply cs (unat (inv_cptr iv)) = (Ok c, cs') \<and> r = Ret 0 \<and> authorised i iv u
          \<and> u' = u\<lparr>procs := (procs u)[i := Some cs'], rdv := (rdv u)\<lparr>rdv_reply := Some (fst (inv_args iv))\<rparr>\<rparr>))"
proof -
  obtain cs where cs: "proc_space u i = Some cs" using assms by (auto simp: ipc_reply_def bind_eq_Some_conv)
  obtain o' cs' where m: "consume_reply cs (unat (inv_cptr iv)) = (o', cs')" by force
  have a: "authorised i iv u \<longleftrightarrow> (\<exists>c. resolve cs (unat (inv_cptr iv)) = Inr c \<and> cap_type c = Reply)"
    by (auto simp: authorised_def cs p)
  show ?thesis using assms(1) cs m unfolding a
    by (cases o') (auto simp: ipc_reply_def upd_def proc_space_Some consume_reply_def resolve_def live_def split: if_splits sum.splits option.splits)
qed

lemma ipc_check_Some:
  assumes "ipc_check i iv k u = Some (r, u')" and p: "inv_op iv \<noteq> ENDPOINT_REPLY"
  shows "(\<not> authorised i iv u \<and> retire i KILLED u = Some (r, u')) \<or> (authorised i iv u \<and> k u = Some (r, u') \<and> holds_for u i (inv_op iv))"
proof -
  obtain cs where cs: "proc_space u i = Some cs" using assms by (auto simp: ipc_check_def bind_eq_Some_conv)
  have "authorised i iv u \<longleftrightarrow> (\<exists>v. invoke cs iv = Inr v)" unfolding invoke_Inr_permits by (auto simp: authorised_def cs p)
  moreover have "authorised i iv u \<Longrightarrow> holds_for u i (inv_op iv)" using cs p by (auto simp: authorised_def holds_for_def)
  ultimately show ?thesis using assms(1) cs by (auto simp: ipc_check_def split: sum.splits)
qed

text \<open>A system call in full: refused and killed, or carried out as authorised.\<close>

lemma syscall_Some:
  assumes "syscall i iv u = Some (r, u')"
  shows "\<not> authorised i iv u \<and> retire i KILLED u = Some (r, u')
    \<or> authorised i iv u \<and>
      (if inv_op iv = ENDPOINT_CALL then holds_for u i ENDPOINT_CALL
          \<and> set_mode i Calling Block (u\<lparr>rdv := \<lparr>rdv_caller = Some i, rdv_msg = fst (inv_args iv), rdv_reply = None\<rparr>\<rparr>) = Some (r, u')
       else if inv_op iv = ENDPOINT_RECV then holds_for u i ENDPOINT_RECV \<and> set_mode i Receiving Block u = Some (r, u')
       else if inv_op iv = ENDPOINT_REPLY then
         (\<exists>cs c cs'. proc_space u i = Some cs \<and> consume_reply cs (unat (inv_cptr iv)) = (Ok c, cs') \<and> r = Ret 0
            \<and> u' = u\<lparr>procs := (procs u)[i := Some cs'], rdv := (rdv u)\<lparr>rdv_reply := Some (fst (inv_args iv))\<rparr>\<rparr>)
       else if inv_op iv = NOTIFY_WAIT then holds_for u i NOTIFY_WAIT
          \<and> set_mode i Waiting Block (u\<lparr>notify := (notify u)\<lparr>waiter := Some i\<rparr>\<rparr>) = Some (r, u')
       else if inv_op iv = NOTIFY_SIGNAL then r = Ret 0 \<and> u' = u\<lparr>notify := (notify u)\<lparr>signaled := True\<rparr>\<rparr>
       else if inv_op iv = DEBUG_EMIT then (\<exists>v. r = Ret 0 \<and> u' = u\<lparr>console := console u @ [(i, v)]\<rparr>)
       else if inv_op iv = PROC_EXIT then (\<exists>v. retire i v u = Some (r, u'))
       else (\<exists>v. r = Ret v \<and> u' = u))"
proof -
  have chk: ?thesis if "ipc_check i iv k u = Some (r, u')" "inv_op iv \<noteq> ENDPOINT_REPLY"
    "k u = Some (r, u') \<Longrightarrow> holds_for u i (inv_op iv) \<Longrightarrow> authorised i iv u \<Longrightarrow> ?thesis" for k
    using ipc_check_Some [OF that(1,2)] that(3) by blast
  consider "inv_op iv = ENDPOINT_REPLY" | "inv_op iv = ENDPOINT_CALL" | "inv_op iv = ENDPOINT_RECV" | "inv_op iv = NOTIFY_WAIT"
    | "inv_op iv = NOTIFY_SIGNAL"
    | "inv_op iv \<notin> {ENDPOINT_REPLY, ENDPOINT_CALL, ENDPOINT_RECV, NOTIFY_WAIT, NOTIFY_SIGNAL}" by blast
  then show ?thesis
  proof cases
    case 1
    then have "ipc_reply i iv u = Some (r, u')" using assms by (simp add: syscall_def op_codes)
    from ipc_reply_Some [OF this 1] 1 show ?thesis by (auto simp: op_codes)
  next
    case 2
    show ?thesis by (rule chk, use assms 2 in \<open>simp add: syscall_def ipc_call_def\<close>) (use 2 in \<open>simp_all add: op_codes\<close>)
  next
    case 3
    show ?thesis by (rule chk, use assms 3 in \<open>simp add: syscall_def ipc_recv_def op_codes\<close>) (use 3 in \<open>simp_all add: op_codes\<close>)
  next
    case 4
    show ?thesis by (rule chk, use assms 4 in \<open>simp add: syscall_def notify_wait_def op_codes\<close>) (use 4 in \<open>simp_all add: op_codes\<close>)
  next
    case 5
    show ?thesis by (rule chk, use assms 5 in \<open>simp add: syscall_def notify_signal_op_def op_codes\<close>) (use 5 in \<open>simp_all add: op_codes\<close>)
  next
    case 6
    obtain cs where cs: "proc_space u i = Some cs" using assms 6 by (auto simp: syscall_def bind_eq_Some_conv)
    have "authorised i iv u \<longleftrightarrow> (\<exists>v. invoke cs iv = Inr v)" unfolding invoke_Inr_permits using 6 by (auto simp: authorised_def cs)
    then show ?thesis using assms 6 cs by (auto simp: syscall_def split: sum.splits if_splits)
  qed
qed

lemma ustep_only:
  assumes "ustep l u = Some (r, u')" "actor l = Some i" shows "only_proc i u u'"
proof (cases l)
  case (Trap j iv)
  then have "syscall i iv u = Some (r, u')" using assms by simp
  then show ?thesis
    by (rule syscall_Some [THEN disjE]) (auto simp: only_proc_def retire_Some set_mode_Some split: if_splits)
next
  case (RecvPoll j)
  then have "recv_poll i u = Some (r, u')" using assms by simp
  from recv_poll_Some [OF this] show ?thesis by (auto simp: only_proc_def retire_Some)
qed (use assms in \<open>auto simp: only_proc_def call_poll_def wait_poll_def fault_def retire_Some set_mode_Some split: option.splits if_splits\<close>)

lemma holds_for_cong: "procs u' = procs u \<Longrightarrow> holds_for u' i p = holds_for u i p"
  by (simp add: holds_for_def proc_space_def)

lemma holds_for_simps [simp]:
  "holds_for (u\<lparr>rdv := x\<rparr>) = holds_for u" "holds_for (u\<lparr>notify := y\<rparr>) = holds_for u" "holds_for (u\<lparr>modes := m\<rparr>) = holds_for u"
  by (simp_all add: holds_for_def proc_space_def fun_eq_iff)

lemma holds_for_other: "only_proc i u u' \<Longrightarrow> j \<noteq> i \<Longrightarrow> holds_for u' j p = holds_for u j p"
  by (simp add: holds_for_def proc_space_Some only_proc_def)

definition waits_for :: "umode \<Rightarrow> u16 option" where
  "waits_for m = (case m of Calling \<Rightarrow> Some ENDPOINT_CALL | Receiving \<Rightarrow> Some ENDPOINT_RECV | Waiting \<Rightarrow> Some NOTIFY_WAIT | _ \<Rightarrow> None)"

lemma blocked_ok_iff:
  "blocked_ok u \<longleftrightarrow> (\<forall>i<length (modes u). \<forall>p. waits_for (modes u ! i) = Some p \<longrightarrow> holds_for u i p)"
  unfolding blocked_ok_def in_mode_def waits_for_def by (auto split: umode.splits)

lemma blocked_ok_only:
  assumes "blocked_ok u" "only_proc i u u'" "\<And>p. waits_for (modes u' ! i) = Some p \<Longrightarrow> i < length (modes u) \<Longrightarrow> holds_for u' i p"
  shows "blocked_ok u'"
  unfolding blocked_ok_iff
proof (intro allI impI)
  fix j p assume j: "j < length (modes u')" "waits_for (modes u' ! j) = Some p"
  show "holds_for u' j p"
  proof (cases "j = i")
    case False
    then show ?thesis using assms(1) j holds_for_other [OF assms(2) False, of p] assms(2) by (auto simp: blocked_ok_iff only_proc_def)
  qed (use assms(2,3) j in \<open>auto simp: only_proc_def\<close>)
qed

lemma ustep_blocked_ok:
  assumes ok: "blocked_ok u" and st: "ustep l u = Some (r, u')" and en: "enabled l u" shows "blocked_ok u'"
proof (cases "actor l")
  case None
  then have "u' = notify_signal u" using st by (cases l) auto
  then show ?thesis using ok by (simp add: blocked_ok_def notify_signal_def in_mode_def holds_for_def proc_space_def)
next
  case (Some i)
  note only = ustep_only [OF st Some]
  have "holds_for u' i p" if w: "waits_for (modes u' ! i) = Some p" "i < length (modes u)" for p
  proof (cases l)
    case (Trap j iv)
    then have t: "syscall i iv u = Some (r, u')" "modes u ! i = UserMode" using st Some en by (auto simp: in_mode_def)
    have "modes u' ! i = m \<Longrightarrow> m \<in> {UserMode, Retired} \<Longrightarrow> False" for m using w by (auto simp: waits_for_def)
    then have nu: "modes u' ! i \<noteq> UserMode" "modes u' ! i \<noteq> Retired" by blast+
    from syscall_Some [OF t(1)] show ?thesis
      using nu w t(2) by (auto simp: retire_Some set_mode_Some waits_for_def split: if_splits)
  next
    case (CallPoll j)
    then have "procs u' = procs u" "modes u' ! i = UserMode \<or> u' = u"
      using st Some en by (auto simp: call_poll_def set_mode_Some in_mode_def split: option.splits)
    then show ?thesis using w ok holds_for_cong [of u' u i p] by (auto simp: blocked_ok_iff waits_for_def)
  next
    case (WaitPoll j)
    then have "procs u' = procs u" "modes u' ! i = UserMode \<or> u' = u"
      using st Some en by (auto simp: wait_poll_def set_mode_Some in_mode_def split: if_splits)
    then show ?thesis using w ok holds_for_cong [of u' u i p] by (auto simp: blocked_ok_iff waits_for_def)
  next
    case (RecvPoll j)
    then have "recv_poll i u = Some (r, u')" using st Some by simp
    from recv_poll_Some [OF this] show ?thesis using w ok by (auto simp: retire_Some waits_for_def blocked_ok_iff)
  qed (use st Some w in \<open>auto simp: fault_def retire_Some waits_for_def\<close>)
  then show ?thesis by (rule blocked_ok_only [OF ok only])
qed

lemma urun_blocked_ok: "urun u0 tr u \<Longrightarrow> blocked_ok u0 \<Longrightarrow> blocked_ok u"
  by (induction rule: urun.induct) (auto intro: ustep_blocked_ok)

section \<open>Replies\<close>

definition spaces_ok :: "ustate \<Rightarrow> bool" where
  "spaces_ok u \<longleftrightarrow> (\<forall>cs. Some cs \<in> set (procs u) \<longrightarrow> wf_cspace cs)"

definition replies_held :: "ustate \<Rightarrow> nat" where
  "replies_held u = (\<Sum>p\<leftarrow>procs u. case p of None \<Rightarrow> 0 | Some cs \<Rightarrow> type_count Reply cs)"

fun received :: "ulabel \<times> uresult \<Rightarrow> bool" where
  "received (RecvPoll i, Ret v) \<longleftrightarrow> True"
| "received _ \<longleftrightarrow> False"

fun replied_to :: "ulabel \<times> uresult \<Rightarrow> bool" where
  "replied_to (Trap i iv, Ret v) \<longleftrightarrow> inv_op iv = ENDPOINT_REPLY"
| "replied_to _ \<longleftrightarrow> False"

lemma held_update:
  assumes "proc_space u i = Some cs"
  shows "replies_held (u\<lparr>procs := (procs u)[i := Some cs']\<rparr>) + type_count Reply cs = replies_held u + type_count Reply cs'"
  using assms sum_list_map_update [of i "procs u" "\<lambda>p. case p of None \<Rightarrow> 0 | Some cs \<Rightarrow> type_count Reply cs" "Some cs'"]
  by (simp add: replies_held_def proc_space_Some)

lemma spaces_update: "spaces_ok u \<Longrightarrow> wf_cspace cs' \<Longrightarrow> spaces_ok (u\<lparr>procs := (procs u)[i := Some cs']\<rparr>)"
  using set_update_subset_insert [of "procs u" i "Some cs'"] by (auto simp: spaces_ok_def)

lemma spaces_okD: "spaces_ok u \<Longrightarrow> proc_space u i = Some cs \<Longrightarrow> wf_cspace cs"
  by (auto simp: spaces_ok_def proc_space_Some) (metis nth_mem)

lemma ustep_replies:
  assumes ok: "spaces_ok u" and st: "ustep l u = Some (r, u')"
  shows "spaces_ok u'" "replies_held u' + (if replied_to (l, r) then 1 else 0) = replies_held u + (if received (l, r) then 1 else 0)"
proof -
  have same: "spaces_ok u' \<and> replies_held u' + (if replied_to (l, r) then 1 else 0) = replies_held u + (if received (l, r) then 1 else 0)"
    if "procs u' = procs u" "\<not> replied_to (l, r)" "\<not> received (l, r)"
    using that ok by (simp add: spaces_ok_def replies_held_def)
  have "spaces_ok u' \<and> replies_held u' + (if replied_to (l, r) then 1 else 0) = replies_held u + (if received (l, r) then 1 else 0)"
  proof (cases l)
    case (Trap i iv)
    then have t: "syscall i iv u = Some (r, u')" using st by simp
    show ?thesis
    proof (cases "inv_op iv = ENDPOINT_REPLY \<and> authorised i iv u")
      case False
      then show ?thesis using syscall_Some [OF t] Trap
        by (intro same) (auto simp: retire_Some set_mode_Some split: if_splits)
    next
      case True
      then obtain cs c cs' where c: "proc_space u i = Some cs" "consume_reply cs (unat (inv_cptr iv)) = (Ok c, cs')" "r = Ret 0"
        "u' = u\<lparr>procs := (procs u)[i := Some cs'], rdv := (rdv u)\<lparr>rdv_reply := Some (fst (inv_args iv))\<rparr>\<rparr>"
        using syscall_Some [OF t] by (auto simp: op_codes)
      note wf = spaces_okD [OF ok c(1)]
      have "wf_cspace cs'" using consume_reply_wf [OF wf, of "unat (inv_cptr iv)"] c(2) by simp
      moreover have "Suc (type_count Reply cs') = type_count Reply cs"
        using consume_reply_count [OF wf, of "unat (inv_cptr iv)"] c(2) by simp
      ultimately show ?thesis using held_update [OF c(1), of cs'] spaces_update [OF ok, of cs' i] Trap True c(3,4)
        by (simp add: replies_held_def spaces_ok_def)
    qed
  next
    case (RecvPoll i)
    then have p: "recv_poll i u = Some (r, u')" using st by simp
    show ?thesis
    proof (cases "\<exists>v. r = Ret v")
      case False
      then show ?thesis using recv_poll_Some [OF p] RecvPoll by (intro same) (auto simp: retire_Some)
    next
      case True
      then obtain c cs cs' where m: "proc_space u i = Some cs" "mint_reply cs REPLY_SLOT (of_nat c) 0 = (Ok (), cs')"
        "u' = u\<lparr>rdv := (rdv u)\<lparr>rdv_caller := None\<rparr>, procs := (procs u)[i := Some cs'], modes := (modes u)[i := UserMode]\<rparr>"
        using recv_poll_Some [OF p] by auto
      note wf = spaces_okD [OF ok m(1)]
      have "wf_cspace cs'" using mint_reply_wf [OF wf, of REPLY_SLOT "of_nat c" 0] m(2) by simp
      moreover have "type_count Reply cs' = Suc (type_count Reply cs)"
        using m(2) total_place_wf [OF wf, of REPLY_SLOT _ NIL cs' "type_weight Reply"]
        by (auto simp: mint_reply_def type_weight_def split: sum.splits)
      ultimately show ?thesis using held_update [OF m(1), of cs'] spaces_update [OF ok, of cs' i] RecvPoll True m(3)
        by (auto simp: replies_held_def spaces_ok_def)
    qed
  qed (use st in \<open>intro same; auto simp: call_poll_def wait_poll_def fault_def notify_signal_def retire_Some set_mode_Some split: option.splits if_splits\<close>)+
  then show "spaces_ok u'" "replies_held u' + (if replied_to (l, r) then 1 else 0) = replies_held u + (if received (l, r) then 1 else 0)"
    by blast+
qed

section \<open>Concrete processes\<close>

definition demo_endpoint :: "rights \<Rightarrow> raw_cap" where
  "demo_endpoint r = \<lparr>cap_type = Endpoint, rights = r, objref = 7, csize = 1, watermark = 0, aux = 0, badge = 0\<rparr>"

definition demo_proc :: "rights \<Rightarrow> cspace" where
  "demo_proc r = snd (install (cspace_new PROC_SLOTS) 2 (demo_endpoint r))"

text \<open>Two clients (0 and 1) and a server (2) sharing one endpoint.\<close>

definition demo_users :: ustate where
  "demo_users = \<lparr>procs = [Some (demo_proc SEND), Some (demo_proc SEND), Some (demo_proc RECV), None], proc_done = replicate 4 False,
     proc_exit = replicate 4 0, rdv = \<lparr>rdv_caller = None, rdv_msg = 0, rdv_reply = None\<rparr>,
     notify = \<lparr>signaled = False, waiter = None\<rparr>, modes = replicate 4 UserMode, console = []\<rparr>"

definition demo_inv :: "u16 \<Rightarrow> u32 \<Rightarrow> u64 \<Rightarrow> invocation" where
  "demo_inv p c a = (invocation_new c p)\<lparr>inv_args := (a, 0, 0, 0)\<rparr>"

lemma demo_proc_facts:
  "wf_cspace (demo_proc r)" "REPLY_SLOT < nslots (demo_proc r)" "is_null (cap_at (demo_proc r) REPLY_SLOT)"
  "resolve (demo_proc r) 2 = Inr (demo_endpoint r)"
proof -
  have "wf_cspace (cspace_new PROC_SLOTS)" by (rule wf_cspace_new) (simp add: PROC_SLOTS_def usize_max_def)
  then show "wf_cspace (demo_proc r)"
    unfolding demo_proc_def by (rule install_wf) (auto simp: demo_endpoint_def is_null_def node_ok_def cspace_new_def PROC_SLOTS_def)
  show "REPLY_SLOT < nslots (demo_proc r)" "is_null (cap_at (demo_proc r) REPLY_SLOT)" "resolve (demo_proc r) 2 = Inr (demo_endpoint r)"
    by (simp_all add: demo_proc_def install_def cspace_new_def PROC_SLOTS_def REPLY_SLOT_def resolve_def live_def demo_endpoint_def is_null_def)
qed

lemma demo_authorised:
  assumes "i = 0 \<or> i = 1 \<or> i = 2" "inv_cptr iv = 2" "inv_op iv \<noteq> ENDPOINT_REPLY"
    "permits (demo_endpoint (if i = 2 then RECV else SEND)) (inv_op iv)"
  shows "authorised i iv demo_users"
  using assms demo_proc_facts(4) by (auto simp: authorised_def proc_space_def idx_def demo_users_def)

lemma demo_permits: "permits (demo_endpoint SEND) ENDPOINT_CALL" "permits (demo_endpoint RECV) ENDPOINT_RECV" "\<not> permits (demo_endpoint SEND) ENDPOINT_RECV"
  by (simp_all add: permits_def needs_def op_codes demo_endpoint_def contains_def SEND_def RECV_def)

section \<open>Properties\<close>



text \<open>
  (C35) Reply capabilities are conserved across processes.  Over any interleaving, the replies sent plus
  the \<open>Reply\<close> capabilities still held in all processes equal the messages received plus those held at
  the start: every received message entitles to one reply, no reply is possible without one, and none
  is lost.  All capability spaces stay well-formed.
\<close>

theorem replies_conserved:
  assumes "urun u0 tr u" "spaces_ok u0"
  shows "length (filter replied_to tr) + replies_held u = length (filter received tr) + replies_held u0 \<and> spaces_ok u"
  using assms
proof (induction rule: urun.induct)
  case (urun_step tr u l r u')
  then show ?case using ustep_replies [of u l r u'] by auto
qed simp

theorem replies_conserved_witness:
  "\<exists>u'. urun demo_users [(Trap 0 (demo_inv ENDPOINT_CALL 2 11), Block), (Trap 2 (demo_inv ENDPOINT_RECV 2 0), Block), (RecvPoll 2, Ret 11)] u'
     \<and> replies_held u' = 1"
proof -
  let ?ls = "[Trap 0 (demo_inv ENDPOINT_CALL 2 11), Trap 2 (demo_inv ENDPOINT_RECV 2 0), RecvPoll 2]"
  have "(case run_labels ?ls demo_users of None \<Rightarrow> False | Some (rs, u') \<Rightarrow> rs = [Block, Block, Ret 11]) \<and> replies_held demo_users = 0"
    by code_simp
  then obtain u' where r: "run_labels ?ls demo_users = Some ([Block, Block, Ret 11], u')" "replies_held demo_users = 0"
    by (auto split: option.splits simp del: run_labels.simps)
  have "urun demo_users ([] @ zip ?ls [Block, Block, Ret 11]) u'" using run_labels_urun [OF urun_nil r(1)] .
  then have t: "urun demo_users [(Trap 0 (demo_inv ENDPOINT_CALL 2 11), Block), (Trap 2 (demo_inv ENDPOINT_RECV 2 0), Block), (RecvPoll 2, Ret 11)] u'"
    by simp
  have "spaces_ok demo_users" using demo_proc_facts(1) by (auto simp: spaces_ok_def demo_users_def)
  from replies_conserved [OF t this] r(2) t show ?thesis by (intro exI [of _ u']) simp
qed



text \<open>
  The rendezvous has one slot and the reply is not addressed: with two clients, a reply sent for the
  first client's request is returned to the second client, whose own request is lost, while the first
  client stays blocked.
\<close>

theorem reply_misdelivered:
  "\<exists>u'. run_labels [Trap 0 (demo_inv ENDPOINT_CALL 2 11), Trap 2 (demo_inv ENDPOINT_RECV 2 0), RecvPoll 2,
       Trap 1 (demo_inv ENDPOINT_CALL 2 33), Trap 2 (demo_inv ENDPOINT_REPLY 3 22), CallPoll 1, CallPoll 0] demo_users
     = Some ([Block, Block, Ret 11, Block, Ret 0, Ret 22, Block], u') \<and> rdv_caller (rdv u') = None"
proof -
  have "(case run_labels [Trap 0 (demo_inv ENDPOINT_CALL 2 11), Trap 2 (demo_inv ENDPOINT_RECV 2 0), RecvPoll 2,
       Trap 1 (demo_inv ENDPOINT_CALL 2 33), Trap 2 (demo_inv ENDPOINT_REPLY 3 22), CallPoll 1, CallPoll 0] demo_users of
      None \<Rightarrow> False | Some (rs, u') \<Rightarrow> rs = [Block, Block, Ret 11, Block, Ret 0, Ret 22, Block] \<and> rdv_caller (rdv u') = None)"
    by code_simp
  then show ?thesis by (auto split: option.splits simp del: run_labels.simps)
qed

end
