(* ===== verification/Boot_Handoff.thy ===== *)
theory Boot_Handoff
  imports Prelude
begin

text \<open>
  The boot handoff: the frozen structures of \<^verbatim>\<open>src/kernel/src/boot/handoff.rs\<close>, their C layout with
  the compile-time assertions on it, and the intake of \<^verbatim>\<open>src/kernel/src/boot/mod.rs\<close>.  Every value
  is hostile: memory at the handed-over addresses is an arbitrary function, and what the intake
  prints is a list of lines.
\<close>

definition WARDEN_MAGIC :: u64 where "WARDEN_MAGIC = 0x57415244454E0001"
definition WARDEN_ABI_VERSION :: u32 where "WARDEN_ABI_VERSION = 1"
definition HANDOFF_PAGE_SIZE :: u64 where "HANDOFF_PAGE_SIZE = 4096"

record phys_str =
  ps_ptr :: u64
  ps_len :: u64

definition PhysStr_EMPTY :: phys_str where "PhysStr_EMPTY = \<lparr>ps_ptr = 0, ps_len = 0\<rparr>"

record opt_range =
  or_present :: u8
  or_pad :: "u8 list"
  or_base :: u64
  or_len :: u64

definition OptRange_NONE :: opt_range where
  "OptRange_NONE = \<lparr>or_present = 0, or_pad = replicate 7 0, or_base = 0, or_len = 0\<rparr>"

type_synonym memory_kind = u32

definition USABLE :: memory_kind where "USABLE = 0"
definition MK_RESERVED :: memory_kind where "MK_RESERVED = 1"
definition ACPI_RECLAIMABLE :: memory_kind where "ACPI_RECLAIMABLE = 2"
definition ACPI_NVS :: memory_kind where "ACPI_NVS = 3"
definition MMIO :: memory_kind where "MMIO = 4"
definition BOOTLOADER_RECLAIMABLE :: memory_kind where "BOOTLOADER_RECLAIMABLE = 5"
definition KERNEL_AND_MODULES :: memory_kind where "KERNEL_AND_MODULES = 6"
definition MK_FRAMEBUFFER :: memory_kind where "MK_FRAMEBUFFER = 7"
definition BAD_MEMORY :: memory_kind where "BAD_MEMORY = 8"

record mem_region =
  mr_base :: u64
  mr_pages :: u64
  mr_kind :: memory_kind
  mr_pad :: u32

record mem_map =
  mm_regions :: u64
  mm_count :: u64

definition MemMap_EMPTY :: mem_map where "MemMap_EMPTY = \<lparr>mm_regions = 0, mm_count = 0\<rparr>"

record boot_module =
  md_name :: phys_str
  md_base :: u64
  md_pages :: u64

record module_list =
  ml_modules :: u64
  ml_count :: u64

definition ModuleList_EMPTY :: module_list where "ModuleList_EMPTY = \<lparr>ml_modules = 0, ml_count = 0\<rparr>"

type_synonym pixel_format = u32

definition BGRX8 :: pixel_format where "BGRX8 = 0"
definition RGBX8 :: pixel_format where "RGBX8 = 1"
definition PF_OTHER :: pixel_format where "PF_OTHER = 0xFFFFFFFF"

record opt_fb =
  fb_present :: u8
  fb_pad :: "u8 list"
  fb_base :: u64
  fb_pitch :: u64
  fb_width :: u32
  fb_height :: u32
  fb_bpp :: u32
  fb_format :: pixel_format

definition OptFb_NONE :: opt_fb where
  "OptFb_NONE = \<lparr>fb_present = 0, fb_pad = replicate 7 0, fb_base = 0, fb_pitch = 0, fb_width = 0, fb_height = 0,
     fb_bpp = 0, fb_format = PF_OTHER\<rparr>"

record warden_boot_info =
  magic :: u64
  abi_version :: u32
  bi_pad :: u32
  memmap :: mem_map
  framebuffer :: opt_fb
  modules :: module_list
  hhdm_offset :: u64
  rsdp :: u64
  tpm_event_log :: opt_range
  cmdline :: phys_str

definition is_valid :: "warden_boot_info \<Rightarrow> bool" where
  "is_valid bi \<longleftrightarrow> magic bi = WARDEN_MAGIC \<and> abi_version bi = WARDEN_ABI_VERSION"

section \<open>The C layout\<close>

text \<open>A field is its name, size and alignment; the rules are those of \<open>repr(C)\<close>: each field at the next
  multiple of its alignment, the size rounded up to the largest alignment.\<close>

type_synonym c_field = "string \<times> nat \<times> nat"

definition align_up :: "nat \<Rightarrow> nat \<Rightarrow> nat" where "align_up a n = (n + a - 1) div a * a"

fun place_fields :: "nat \<Rightarrow> c_field list \<Rightarrow> (string \<times> nat \<times> nat) list" where
  "place_fields o' [] = []"
| "place_fields o' ((f, s, a) # fs) = (f, align_up a o', s) # place_fields (align_up a o' + s) fs"

definition c_align :: "c_field list \<Rightarrow> nat" where "c_align fs = foldr (\<lambda>(f, s, a). max a) fs 1"

definition fields_end :: "(string \<times> nat \<times> nat) list \<Rightarrow> nat" where
  "fields_end ps = foldr (\<lambda>(f, off, s). max (off + s)) ps 0"

definition c_size :: "c_field list \<Rightarrow> nat" where
  "c_size fs = align_up (c_align fs) (fields_end (place_fields 0 fs))"

definition offset_of :: "c_field list \<Rightarrow> string \<Rightarrow> nat option" where
  "offset_of fs f = map_option fst (map_of (place_fields 0 fs) f)"

definition struct_of :: "string \<Rightarrow> c_field list \<Rightarrow> c_field" where "struct_of f fs = (f, c_size fs, c_align fs)"
definition u8_of :: "string \<Rightarrow> c_field" where "u8_of f = (f, 1, 1)"
definition u32_of :: "string \<Rightarrow> c_field" where "u32_of f = (f, 4, 4)"
definition u64_of :: "string \<Rightarrow> c_field" where "u64_of f = (f, 8, 8)"
definition pad_of :: "nat \<Rightarrow> c_field" where "pad_of n = (''_pad'', n, 1)"

definition PhysStr_c :: "c_field list" where "PhysStr_c = [u64_of ''ptr'', u64_of ''len'']"
definition OptRange_c :: "c_field list" where "OptRange_c = [u8_of ''present'', pad_of 7, u64_of ''base'', u64_of ''len'']"
definition MemRegion_c :: "c_field list" where "MemRegion_c = [u64_of ''base'', u64_of ''pages'', u32_of ''kind'', u32_of ''_pad'']"
definition MemMap_c :: "c_field list" where "MemMap_c = [u64_of ''regions'', u64_of ''count'']"
definition Module_c :: "c_field list" where "Module_c = [struct_of ''name'' PhysStr_c, u64_of ''base'', u64_of ''pages'']"
definition ModuleList_c :: "c_field list" where "ModuleList_c = [u64_of ''modules'', u64_of ''count'']"
definition OptFb_c :: "c_field list" where
  "OptFb_c = [u8_of ''present'', pad_of 7, u64_of ''base'', u64_of ''pitch'', u32_of ''width'', u32_of ''height'',
     u32_of ''bpp'', u32_of ''format'']"
definition WardenBootInfo_c :: "c_field list" where
  "WardenBootInfo_c = [u64_of ''magic'', u32_of ''abi_version'', u32_of ''_pad'', struct_of ''memmap'' MemMap_c,
     struct_of ''framebuffer'' OptFb_c, struct_of ''modules'' ModuleList_c, u64_of ''hhdm_offset'', u64_of ''rsdp'',
     struct_of ''tpm_event_log'' OptRange_c, struct_of ''cmdline'' PhysStr_c]"

lemmas c_layout =
  PhysStr_c_def OptRange_c_def MemRegion_c_def MemMap_c_def Module_c_def ModuleList_c_def OptFb_c_def WardenBootInfo_c_def
  struct_of_def u8_of_def u32_of_def u64_of_def pad_of_def c_size_def c_align_def fields_end_def align_up_def

definition asserts_offsets :: "c_field list \<Rightarrow> (string \<times> nat) list \<Rightarrow> bool" where
  "asserts_offsets fs = list_all (\<lambda>(f, n). offset_of fs f = Some n)"

definition tripwire_sizes :: bool where
  "tripwire_sizes \<longleftrightarrow> c_size PhysStr_c = 16 \<and> c_size OptRange_c = 24 \<and> c_size MemRegion_c = 24 \<and> c_size MemMap_c = 16
     \<and> c_size Module_c = 32 \<and> c_size ModuleList_c = 16 \<and> c_size OptFb_c = 40 \<and> c_size WardenBootInfo_c = 144
     \<and> c_align WardenBootInfo_c = 8 \<and> c_align OptFb_c = 8 \<and> c_align MemRegion_c = 8"

definition tripwire_offsets :: bool where
  "tripwire_offsets \<longleftrightarrow>
     asserts_offsets WardenBootInfo_c [(''magic'', 0), (''abi_version'', 8), (''_pad'', 12), (''memmap'', 16),
       (''framebuffer'', 32), (''modules'', 72), (''hhdm_offset'', 88), (''rsdp'', 96), (''tpm_event_log'', 104), (''cmdline'', 128)]
     \<and> asserts_offsets MemMap_c [(''regions'', 0), (''count'', 8)]
     \<and> asserts_offsets MemRegion_c [(''base'', 0), (''pages'', 8), (''kind'', 16), (''_pad'', 20)]
     \<and> asserts_offsets PhysStr_c [(''ptr'', 0), (''len'', 8)]
     \<and> asserts_offsets OptRange_c [(''present'', 0), (''_pad'', 1), (''base'', 8), (''len'', 16)]
     \<and> asserts_offsets OptFb_c [(''present'', 0), (''_pad'', 1), (''base'', 8), (''pitch'', 16), (''width'', 24),
       (''height'', 28), (''bpp'', 32), (''format'', 36)]
     \<and> asserts_offsets Module_c [(''name'', 0), (''base'', 16), (''pages'', 24)]
     \<and> asserts_offsets ModuleList_c [(''modules'', 0), (''count'', 8)]"

section \<open>The intake\<close>

definition MAX_REGIONS :: u64 where "MAX_REGIONS = 1024"
definition MAX_DUMP_ROWS :: u64 where "MAX_DUMP_ROWS = 32"

definition saturating_mul :: "'a::len word \<Rightarrow> 'a word \<Rightarrow> 'a word" where
  "saturating_mul x y = (case checked_mul x y of Some z \<Rightarrow> z | None \<Rightarrow> - 1)"

definition kind_name :: "memory_kind \<Rightarrow> string" where
  "kind_name k =
     (if k = 0 then ''USABLE'' else if k = 1 then ''RESERVED'' else if k = 2 then ''ACPI_RECLAIM''
      else if k = 3 then ''ACPI_NVS'' else if k = 4 then ''MMIO'' else if k = 5 then ''BOOT_RECLAIM''
      else if k = 6 then ''KERNEL+MODULES'' else if k = 7 then ''FRAMEBUFFER'' else if k = 8 then ''BAD_MEMORY''
      else ''UNKNOWN'')"

datatype halt_reason = NullPointer | MisalignedPointer | BadHandoff | MisalignedRegions

datatype line =
    Handoff u64 u32
  | ContractOk u64 u64
  | Framebuffer u32 u32 u32 u64 u64
  | NoFramebuffer
  | Regions u64
  | EmptyMap
  | Truncating u64 u64
  | Row u64 u64 u64 string
  | MoreRows u64
  | UsableRam u64 u64

text \<open>The end of the intake: a halt for a reason, a trap, or the validated handoff.\<close>

type_synonym 'a intake = "(halt_reason, 'a) outcome \<times> line list"

definition dump_framebuffer :: "warden_boot_info \<Rightarrow> line list" where
  "dump_framebuffer bi =
     (let fb = framebuffer bi in
      if fb_present fb \<noteq> 0 then [Framebuffer (fb_width fb) (fb_height fb) (fb_bpp fb) (fb_pitch fb) (fb_base fb)]
      else [NoFramebuffer])"

definition region_ptr :: "u64 \<Rightarrow> nat \<Rightarrow> u64" where
  "region_ptr base i = base + of_nat (24 * i)"

fun dump_rows :: "(u64 \<Rightarrow> mem_region) \<Rightarrow> u64 \<Rightarrow> u64 \<Rightarrow> nat list \<Rightarrow> u64 \<Rightarrow> (u64 option \<times> line list)" where
  "dump_rows region_at base walk [] usable = (Some usable, [])"
| "dump_rows region_at base walk (i # is) usable =
     (let r = region_at (region_ptr base i);
          usable' = (if mr_kind r = USABLE then saturating_add usable (mr_pages r) else usable)
      in if of_nat i < MAX_DUMP_ROWS then
           (let (u, ls) = dump_rows region_at base walk is usable'
            in (u, Row (of_nat i) (mr_base r) (mr_pages r) (kind_name (mr_kind r)) # ls))
         else if of_nat i = MAX_DUMP_ROWS then
           (case checked_sub walk MAX_DUMP_ROWS of
              None \<Rightarrow> (None, [])
            | Some rest \<Rightarrow> (let (u, ls) = dump_rows region_at base walk is usable' in (u, MoreRows rest # ls)))
         else dump_rows region_at base walk is usable')"

definition dump_memmap :: "(u64 \<Rightarrow> mem_region) \<Rightarrow> warden_boot_info \<Rightarrow> unit intake" where
  "dump_memmap region_at bi =
     (let count = mm_count (memmap bi); l0 = [Regions count] in
      if mm_regions (memmap bi) = 0 \<or> count = 0 then (Ok (), l0 @ [EmptyMap])
      else
        let (walk, l1) = (if count > MAX_REGIONS then (MAX_REGIONS, [Truncating count MAX_REGIONS]) else (count, []));
            base_virt = mm_regions (memmap bi) + hhdm_offset bi
        in if base_virt AND 7 \<noteq> 0 then (Err MisalignedRegions, l0 @ l1)
           else (case dump_rows region_at base_virt walk [0..<unat walk] 0 of
                   (None, ls) \<Rightarrow> (Panic, l0 @ l1 @ ls)
                 | (Some usable, ls) \<Rightarrow>
                     (Ok (), l0 @ l1 @ ls @ [UsableRam usable (saturating_mul usable HANDOFF_PAGE_SIZE div (1024 * 1024))])))"

definition validate_and_dump ::
  "(u64 \<Rightarrow> warden_boot_info) \<Rightarrow> (u64 \<Rightarrow> mem_region) \<Rightarrow> u64 \<Rightarrow> warden_boot_info intake" where
  "validate_and_dump info_at region_at bootinfo =
     (if bootinfo = 0 then (Err NullPointer, [])
      else if bootinfo AND 7 \<noteq> 0 then (Err MisalignedPointer, [])
      else
        let bi = info_at bootinfo; l0 = [Handoff (magic bi) (abi_version bi)] in
        if \<not> is_valid bi then (Err BadHandoff, l0)
        else
          let l1 = l0 @ [ContractOk (hhdm_offset bi) (rsdp bi)] @ dump_framebuffer bi;
              (r, l2) = dump_memmap region_at bi
          in (case r of Ok _ \<Rightarrow> (Ok bi, l1 @ l2) | Err e \<Rightarrow> (Err e, l1 @ l2) | Panic \<Rightarrow> (Panic, l1 @ l2)))"

section \<open>Properties\<close>

lemma unat_saturating_mul: "unat (saturating_mul x y) = min (unat x * unat y) (2 ^ LENGTH('a) - 1)" for x y :: "'a::len word"
  using unat_bound [of "x * y"]
  by (auto simp: saturating_mul_def checked_mul_Some checked_mul_None unsigned_minus_1_eq_mask mask_eq_exp_minus_1
      split: option.splits simp del: unsigned_less)

definition usable_pages :: "(u64 \<Rightarrow> mem_region) \<Rightarrow> u64 \<Rightarrow> nat list \<Rightarrow> nat" where
  "usable_pages region_at base is =
     (\<Sum>i\<leftarrow>is. let r = region_at (region_ptr base i) in if mr_kind r = USABLE then unat (mr_pages r) else 0)"

lemma dump_rows_total:
  assumes "list_all (\<lambda>i. i < unat walk) is" "walk \<le> MAX_REGIONS"
  shows "\<exists>u ls. dump_rows region_at base walk is usable = (Some u, ls)
    \<and> unat u = min (unat usable + usable_pages region_at base is) (2 ^ 64 - 1)"
  using assms
proof (induction "is" arbitrary: usable)
  case (Cons i "is")
  have "unat walk \<le> 1024" using Cons.prems(2) by (simp add: MAX_REGIONS_def word_le_nat_alt)
  then have i: "unat (of_nat i :: u64) = i" using Cons.prems(1) by (simp add: unat_of_nat)
  have w: "checked_sub walk MAX_DUMP_ROWS \<noteq> None" if "of_nat i = MAX_DUMP_ROWS"
    using Cons.prems(1) i that by (auto simp: checked_sub_def MAX_DUMP_ROWS_def word_le_nat_alt)
  let ?r = "region_at (region_ptr base i)"
  let ?u = "if mr_kind ?r = USABLE then saturating_add usable (mr_pages ?r) else usable"
  have u: "min (unat ?u + m) (2 ^ 64 - 1)
      = min (unat usable + (if mr_kind ?r = USABLE then unat (mr_pages ?r) else 0) + m) (2 ^ 64 - 1)" for m
    by (auto simp: unat_saturating_add)
  from Cons.IH [of ?u] Cons.prems obtain v ls where "dump_rows region_at base walk is ?u = (Some v, ls)"
    "unat v = min (unat ?u + usable_pages region_at base is) (2 ^ 64 - 1)" by auto
  then show ?case using w u by (auto simp: Let_def usable_pages_def add.assoc)
next
  case Nil
  have "unat usable \<le> 2 ^ 64 - 1" using unat_bound [of usable] by (simp del: unsigned_less)
  then show ?case by (simp add: usable_pages_def min_absorb1)
qed



end
