(* ===== verification/Kernel_Memory.thy ===== *)
theory Kernel_Memory
  imports Boot_Handoff Mem_Buddy_Ops Mem_Retype
begin

text \<open>
  The kernel's frame allocator, \<^verbatim>\<open>src/kernel/src/memory/mod.rs\<close>: the intake of the hostile memory map,
  the bootstrap of the buddy allocator over it, and the allocate/free interface the rest of the
  kernel uses.  A \<open>Pfn\<close> is a natural number below \<open>2 ^ 32\<close> as in the buddy theory; physical and
  virtual addresses are 64-bit words.
\<close>

definition MEM_MAX_REGIONS :: nat where "MEM_MAX_REGIONS = 1024"
definition MAX_USABLE :: nat where "MAX_USABLE = 512"
definition IDENTITY_BYTES :: u64 where "IDENTITY_BYTES = 0x100000000"

text \<open>\<open>phys_to_virt\<close>: \<open>None\<close> is the overflow trap; the offset is the state set at \<open>init\<close>.\<close>

definition phys_to_virt :: "u64 \<Rightarrow> u64 \<Rightarrow> u64 option" where
  "phys_to_virt hhdm pa = checked_add pa hhdm"

record frame_allocator =
  fa_buddy :: buddy
  base_pfn :: nat

definition fa_alloc :: "frame_allocator \<Rightarrow> nat \<Rightarrow> (u64 option \<times> frame_allocator) option" where
  "fa_alloc fa order = do {
     (r, b) \<leftarrow> buddy_alloc (fa_buddy fa) order;
     case r of
       None \<Rightarrow> Some (None, fa\<lparr>fa_buddy := b\<rparr>)
     | Some rel \<Rightarrow> do {
         p \<leftarrow> add_w 32 (base_pfn fa) rel;
         Some (Some (pfn_to_phys (of_nat p)), fa\<lparr>fa_buddy := b\<rparr>)
       }
   }"

definition fa_free :: "frame_allocator \<Rightarrow> u64 \<Rightarrow> frame_allocator option" where
  "fa_free fa pa = do {
     rel \<leftarrow> sub_w (unat (phys_to_pfn pa)) (base_pfn fa);
     b \<leftarrow> buddy_free (fa_buddy fa) rel;
     Some (fa\<lparr>fa_buddy := b\<rparr>)
   }"

text \<open>The global \<open>FRAMES\<close> is \<open>None\<close> until \<open>init\<close>.\<close>

type_synonym frames_state = "frame_allocator option"

definition alloc_frames :: "frames_state \<Rightarrow> nat \<Rightarrow> (u64 option \<times> frames_state) option" where
  "alloc_frames g order =
     (case g of None \<Rightarrow> Some (None, g)
      | Some fa \<Rightarrow> do { (r, fa') \<leftarrow> fa_alloc fa order; Some (r, Some fa') })"

definition mem_free_frames :: "frames_state \<Rightarrow> u64 \<Rightarrow> frames_state option" where
  "mem_free_frames g pa =
     (case g of None \<Rightarrow> Some None | Some fa \<Rightarrow> do { fa' \<leftarrow> fa_free fa pa; Some (Some fa') })"

definition free_frame_count :: "frames_state \<Rightarrow> u64" where
  "free_frame_count g = (case g of None \<Rightarrow> 0 | Some fa \<Rightarrow> of_nat (free_frames (fa_buddy fa)))"

text \<open>Writes through the direct map are recorded as the physical ranges zeroed.\<close>

definition zero_range :: "u64 \<Rightarrow> u64 \<Rightarrow> u64 \<Rightarrow> (u64 \<times> u64) option" where
  "zero_range hhdm pa bytes = do { _ \<leftarrow> phys_to_virt hhdm pa; Some (pa, bytes) }"

definition alloc_zeroed_frame :: "u64 \<Rightarrow> frames_state \<Rightarrow> (u64 option \<times> (u64 \<times> u64) list \<times> frames_state) option" where
  "alloc_zeroed_frame hhdm g = do {
     (r, g') \<leftarrow> alloc_frames g 0;
     case r of
       None \<Rightarrow> Some (None, [], g')
     | Some pa \<Rightarrow> do { z \<leftarrow> zero_range hhdm pa PAGE_SIZE; Some (Some pa, [z], g') }
   }"

section \<open>The memory map\<close>

definition usable_frames :: "mem_region \<Rightarrow> (u64 \<times> u64) option" where
  "usable_frames r =
     (if mr_base r mod PAGE_SIZE \<noteq> 0 then None
      else let start = drop_bit PAGE_SHIFT (mr_base r) in
        (case checked_add start (mr_pages r) of
           None \<Rightarrow> None
         | Some e \<Rightarrow> if e \<le> start then None else Some (start, e)))"

definition region_slice :: "(u64 \<Rightarrow> mem_region) \<Rightarrow> warden_boot_info \<Rightarrow> mem_region list option" where
  "region_slice region_at bi =
     (let count = min (unat (mm_count (memmap bi))) MEM_MAX_REGIONS in
      if mm_regions (memmap bi) = 0 \<or> count = 0 then Some []
      else do {
        virt \<leftarrow> phys_to_virt (hhdm_offset bi) (mm_regions (memmap bi));
        if virt mod 8 \<noteq> 0 then Some []
        else Some (map (\<lambda>i. region_at (region_ptr virt i)) [0..<count])
      })"

datatype mem_fatal = EmptyMemoryMap | TooManyUsable | NoUsableRam | OverlappingUsable | NoDescriptorRoom

fun collect_usable :: "(nat \<times> nat) list \<Rightarrow> mem_region list \<Rightarrow> mem_fatal + (nat \<times> nat) list" where
  "collect_usable ranges [] = Inr ranges"
| "collect_usable ranges (r # rs) =
     (if mr_kind r \<noteq> USABLE then collect_usable ranges rs
      else case usable_frames r of
        None \<Rightarrow> collect_usable ranges rs
      | Some (start, e) \<Rightarrow>
          let e' = min e (drop_bit PAGE_SHIFT IDENTITY_BYTES) in
          if e' \<le> start then collect_usable ranges rs
          else if length ranges \<ge> MAX_USABLE then Inl TooManyUsable
          else collect_usable (ranges @ [(unat start mod 2 ^ 32, unat e' mod 2 ^ 32)]) rs)"

fun overlapping :: "(nat \<times> nat) list \<Rightarrow> bool" where
  "overlapping (a # b # rs) \<longleftrightarrow> fst b < snd a \<or> overlapping (b # rs)"
| "overlapping _ \<longleftrightarrow> False"

definition DESC_SIZE :: nat where "DESC_SIZE = 12"

definition desc_bytes :: "nat \<Rightarrow> u64" where
  "desc_bytes span = saturating_mul (of_nat span) (of_nat DESC_SIZE)"

definition desc_frames :: "nat \<Rightarrow> nat" where
  "desc_frames span = (unat (desc_bytes span) + 4095) div 4096 mod 2 ^ 32"

fun release_ranges :: "nat \<Rightarrow> nat \<Rightarrow> nat \<Rightarrow> buddy \<Rightarrow> (nat \<times> nat) list \<Rightarrow> buddy option" where
  "release_ranges base dstart dframes b [] = Some b"
| "release_ranges base dstart dframes b ((start, e) # rs) = do {
     b' \<leftarrow> (if start = dstart
       then do {
         after \<leftarrow> add_w 32 start dframes;
         if after < e then do { s \<leftarrow> sub_w after base; c \<leftarrow> sub_w e after; add_frames b s c } else Some b
       }
       else do { s \<leftarrow> sub_w start base; c \<leftarrow> sub_w e start; add_frames b s c });
     release_ranges base dstart dframes b' rs
   }"

record boot_memory =
  bm_frames :: frame_allocator
  bm_span :: nat
  bm_desc_start :: nat
  bm_desc_frames :: nat
  bm_total_pages :: nat
  bm_zeroed :: "(u64 \<times> u64) list"

definition ZERO_DESC :: frame_desc where
  "ZERO_DESC = \<lparr>fd_next = 0, fd_prev = 0, fd_order = 0, fd_free = False\<rparr>"

definition build_frames :: "u64 \<Rightarrow> (nat \<times> nat) list \<Rightarrow> (mem_fatal, boot_memory) outcome" where
  "build_frames hhdm ranges =
     (case do { r0 \<leftarrow> idx ranges 0; n \<leftarrow> sub_w (length ranges) 1; rl \<leftarrow> idx ranges n; span \<leftarrow> sub_w (snd rl) (fst r0); Some (fst r0, span) } of
        None \<Rightarrow> Panic
      | Some (base, span) \<Rightarrow>
          (case find (\<lambda>(s, e). desc_frames span \<le> e - s) ranges of
             None \<Rightarrow> Err NoDescriptorRoom
           | Some (dstart, _) \<Rightarrow>
               (case do {
                  z \<leftarrow> zero_range hhdm (pfn_to_phys (of_nat dstart)) (desc_bytes span);
                  b \<leftarrow> release_ranges base dstart (desc_frames span) (buddy_new (replicate span ZERO_DESC)) ranges;
                  Some (z, b)
                } of
                  None \<Rightarrow> Panic
                | Some (z, b) \<Rightarrow>
                    Ok \<lparr>bm_frames = \<lparr>fa_buddy = b, base_pfn = base\<rparr>, bm_span = span, bm_desc_start = dstart,
                        bm_desc_frames = desc_frames span, bm_total_pages = (\<Sum>(s, e)\<leftarrow>ranges. e - s), bm_zeroed = [z]\<rparr>)))"

definition mem_init :: "(u64 \<Rightarrow> mem_region) \<Rightarrow> warden_boot_info \<Rightarrow> (mem_fatal, boot_memory) outcome" where
  "mem_init region_at bi =
     (case region_slice region_at bi of
        None \<Rightarrow> Panic
      | Some regions \<Rightarrow>
          if regions = [] then Err EmptyMemoryMap
          else (case collect_usable [] regions of
            Inl e \<Rightarrow> Err e
          | Inr [] \<Rightarrow> Err NoUsableRam
          | Inr ranges \<Rightarrow>
              let ranges = sort_key fst ranges in
              if overlapping ranges then Err OverlappingUsable
              else build_frames (hhdm_offset bi) ranges))"

section \<open>The frame allocator as a source of frames\<close>

text \<open>
  What the kernel's clients rely on: \<open>ok g H\<close> says that exactly the blocks \<open>H\<close> are handed out,
  \<open>foot\<close> is the set of frames of a block.
\<close>

locale frame_source =
  fixes alloc :: "'g \<Rightarrow> nat \<Rightarrow> ('a option \<times> 'g) option"
    and free :: "'g \<Rightarrow> 'a \<Rightarrow> 'g option"
    and ok :: "'g \<Rightarrow> ('a \<times> nat) set \<Rightarrow> bool"
    and foot :: "'a \<times> nat \<Rightarrow> nat set"
  assumes alloc_law: "ok g H \<Longrightarrow> alloc g k = Some (None, g)
      \<or> (\<exists>pa g'. alloc g k = Some (Some pa, g') \<and> (pa, k) \<notin> H \<and> ok g' (insert (pa, k) H))"
    and free_law: "ok g H \<Longrightarrow> (pa, k) \<in> H \<Longrightarrow> \<exists>g'. free g pa = Some g' \<and> ok g' (H - {(pa, k)})"
    and apart: "ok g H \<Longrightarrow> a \<in> H \<Longrightarrow> c \<in> H \<Longrightarrow> a \<noteq> c \<Longrightarrow> foot a \<inter> foot c = {}"
    and base_in: "\<exists>x. \<forall>k. x \<in> foot (pa, k)"
begin

lemma same_order: "ok g H \<Longrightarrow> (pa, k) \<in> H \<Longrightarrow> (pa, j) \<in> H \<Longrightarrow> k = j"
  using apart [of g H "(pa, k)" "(pa, j)"] base_in [of pa] by blast

lemma alloc_new_base: "ok g H \<Longrightarrow> alloc g k = Some (Some pa, g') \<Longrightarrow> pa \<notin> fst ` H"
proof
  assume a: "ok g H" "alloc g k = Some (Some pa, g')" "pa \<in> fst ` H"
  then obtain j where j: "(pa, j) \<in> H" by auto
  have "(pa, k) \<notin> H" "ok g' (insert (pa, k) H)" using alloc_law [OF a(1), of k] a(2) by auto
  then show False using same_order [of g' "insert (pa, k) H" pa k j] j by auto
qed

lemma free_removes: "ok g H \<Longrightarrow> (pa, k) \<in> H \<Longrightarrow> H - {(pa, k)} = {a \<in> H. fst a \<noteq> pa}"
  using same_order by fastforce

end

definition phys :: "nat \<Rightarrow> u64" where "phys p = pfn_to_phys (of_nat p)"

definition pframes :: "u64 \<times> nat \<Rightarrow> nat set" where
  "pframes = (\<lambda>(pa, k). {unat (phys_to_pfn pa)..<unat (phys_to_pfn pa) + 2 ^ k})"

definition frames_ok :: "nat set \<Rightarrow> frames_state \<Rightarrow> (u64 \<times> nat) set \<Rightarrow> bool" where
  "frames_ok U g H \<longleftrightarrow> (\<exists>fa F A n. g = Some fa \<and> buddy_ok n (fa_buddy fa) F A {x. base_pfn fa + x \<in> U}
     \<and> base_pfn fa + n < 2 ^ 32 \<and> H = (\<lambda>(x, k). (phys (base_pfn fa + x), k)) ` A \<and> U \<subseteq> {base_pfn fa..<base_pfn fa + n})"

lemma unat_phys: "p < 2 ^ 32 \<Longrightarrow> unat (phys_to_pfn (phys p)) = p"
  unfolding phys_def phys_to_pfn_to_phys by (simp add: unat_of_nat)

lemma buddy_okD:
  assumes "buddy_ok n b F A R" "(x, k) \<in> A"
  shows "x < n" "2 ^ k dvd x" "k \<le> MAX_ORDER" "frames (x, k) \<subseteq> R"
proof -
  have "blk_ok n (x, k)" using assms by (auto simp: buddy_ok_def blocks_def blocks_ok_def)
  then show "x < n" "2 ^ k dvd x" "k \<le> MAX_ORDER" by (rule blk_okD, simp_all add: blk_ok_def)
  show "frames (x, k) \<subseteq> R" using assms by (auto simp: buddy_ok_def frames_of_def)
qed

lemma pframes_phys: "base + x < 2 ^ 32 \<Longrightarrow> pframes (phys (base + x), k) = (\<lambda>y. base + y) ` frames (x, k)"
  unfolding pframes_def frames_def by (simp add: unat_phys image_add_atLeastLessThan ac_simps del: unsigned_less)

lemma frames_ok_alloc:
  assumes "frames_ok U g H"
  shows "alloc_frames g k = Some (None, g)
    \<or> (\<exists>pa g'. alloc_frames g k = Some (Some pa, g') \<and> (pa, k) \<notin> H \<and> frames_ok U g' (insert (pa, k) H))"
proof -
  obtain fa F A n where g: "g = Some fa" "buddy_ok n (fa_buddy fa) F A {x. base_pfn fa + x \<in> U}" "base_pfn fa + n < 2 ^ 32"
    "H = (\<lambda>(x, k). (phys (base_pfn fa + x), k)) ` A" "U \<subseteq> {base_pfn fa..<base_pfn fa + n}"
    using assms by (auto simp: frames_ok_def)
  show ?thesis using buddy_alloc_ok [OF g(2), of k]
  proof (elim disjE exE conjE)
    fix b' F' x assume a: "buddy_alloc (fa_buddy fa) k = Some (Some x, b')" "(x, k) \<notin> A"
      "buddy_ok n b' F' (insert (x, k) A) {x. base_pfn fa + x \<in> U}"
    have x: "x < n" using buddy_okD [OF a(3)] by blast
    have "phys (base_pfn fa + y) \<noteq> phys (base_pfn fa + x)" if "(y, k) \<in> A" for y
    proof
      assume e: "phys (base_pfn fa + y) = phys (base_pfn fa + x)"
      have "y < n" using buddy_okD [OF g(2) that] by blast
      then have "y = x" using arg_cong [OF e, of "\<lambda>p. unat (phys_to_pfn p)"] x g(3) by (simp add: unat_phys)
      then show False using that a(2) by simp
    qed
    then have "(phys (base_pfn fa + x), k) \<notin> H" using g(4) by fastforce
    moreover have "frames_ok U (Some (fa\<lparr>fa_buddy := b'\<rparr>)) (insert (phys (base_pfn fa + x), k) H)"
      unfolding frames_ok_def using a(3) g by (intro exI [of _ "fa\<lparr>fa_buddy := b'\<rparr>"] exI [of _ F'] exI [of _ "insert (x, k) A"] exI [of _ n]) auto
    moreover have "alloc_frames g k = Some (Some (phys (base_pfn fa + x)), Some (fa\<lparr>fa_buddy := b'\<rparr>))"
      using a(1) g(1,3) x by (simp add: alloc_frames_def fa_alloc_def add_w_def phys_def)
    ultimately show ?thesis by blast
  qed (use g(1) in \<open>simp_all add: alloc_frames_def fa_alloc_def\<close>)
qed

lemma frames_ok_free:
  assumes ok: "frames_ok U g H" and h: "(pa, k) \<in> H"
  shows "\<exists>g'. mem_free_frames g pa = Some g' \<and> frames_ok U g' (H - {(pa, k)})"
proof -
  obtain fa F A n where g: "g = Some fa" "buddy_ok n (fa_buddy fa) F A {x. base_pfn fa + x \<in> U}" "base_pfn fa + n < 2 ^ 32"
    "H = (\<lambda>(x, k). (phys (base_pfn fa + x), k)) ` A" "U \<subseteq> {base_pfn fa..<base_pfn fa + n}"
    using ok by (auto simp: frames_ok_def)
  obtain x where x: "(x, k) \<in> A" "pa = phys (base_pfn fa + x)" using h g(4) by auto
  have b: "y < n" if "(y, j) \<in> A" for y j using buddy_okD(1) [OF g(2) that] .
  obtain b' F' where f: "buddy_free (fa_buddy fa) x = Some b'" "buddy_ok n b' F' (A - {(x, k)}) {x. base_pfn fa + x \<in> U}"
    using buddy_free_ok [OF g(2) x(1)] by blast
  have inj: "y = x" if "(y, j) \<in> A" "phys (base_pfn fa + y) = phys (base_pfn fa + x)" for y j
    using arg_cong [OF that(2), of "\<lambda>p. unat (phys_to_pfn p)"] b [OF that(1)] b [OF x(1)] g(3) by (simp add: unat_phys)
  have "H - {(pa, k)} = (\<lambda>(x, k). (phys (base_pfn fa + x), k)) ` (A - {(x, k)})"
    unfolding g(4) x(2) by (auto dest: inj)
  then have "frames_ok U (Some (fa\<lparr>fa_buddy := b'\<rparr>)) (H - {(pa, k)})"
    unfolding frames_ok_def using f(2) g
    by (intro exI [of _ "fa\<lparr>fa_buddy := b'\<rparr>"] exI [of _ F'] exI [of _ "A - {(x, k)}"] exI [of _ n]) auto
  moreover have "mem_free_frames g pa = Some (Some (fa\<lparr>fa_buddy := b'\<rparr>))"
    using f(1) g(1,3) b [OF x(1)] by (simp add: mem_free_frames_def fa_free_def x(2) unat_phys sub_w_def)
  ultimately show ?thesis by blast
qed

lemma frames_ok_blocks:
  assumes ok: "frames_ok U g H"
  shows "a \<in> H \<Longrightarrow> c \<in> H \<Longrightarrow> a \<noteq> c \<Longrightarrow> pframes a \<inter> pframes c = {}" and "a \<in> H \<Longrightarrow> pframes a \<subseteq> U"
proof -
  obtain fa F A n where g: "g = Some fa" "buddy_ok n (fa_buddy fa) F A {x. base_pfn fa + x \<in> U}" "base_pfn fa + n < 2 ^ 32"
    "H = (\<lambda>(x, k). (phys (base_pfn fa + x), k)) ` A" using ok by (auto simp: frames_ok_def)
  have blk: "\<exists>x k. a = (phys (base_pfn fa + x), k) \<and> (x, k) \<in> A \<and> pframes a = (\<lambda>y. base_pfn fa + y) ` frames (x, k)" if "a \<in> H" for a
    using that pframes_phys buddy_okD(1) [OF g(2)] g(3) unfolding g(4) by fastforce
  show "pframes a \<subseteq> U" if "a \<in> H" using blk [OF that] buddy_okD(4) [OF g(2)] by fastforce
  show "pframes a \<inter> pframes c = {}" if ac: "a \<in> H" "c \<in> H" "a \<noteq> c"
  proof -
    obtain x k y j where xy: "a = (phys (base_pfn fa + x), k)" "(x, k) \<in> A" "pframes a = (\<lambda>y. base_pfn fa + y) ` frames (x, k)"
      "c = (phys (base_pfn fa + y), j)" "(y, j) \<in> A" "pframes c = (\<lambda>y. base_pfn fa + y) ` frames (y, j)"
      using blk [OF ac(1)] blk [OF ac(2)] by blast
    have "(x, k) \<noteq> (y, j)" using ac(3) xy by auto
    then have "frames (x, k) \<inter> frames (y, j) = {}"
      using g(2) xy(2,5) unfolding buddy_ok_def blocks_def blocks_ok_def by blast
    then show ?thesis unfolding xy(3,6) by auto
  qed
qed

interpretation kernel_frames: frame_source alloc_frames mem_free_frames "frames_ok U" pframes for U
proof
  fix pa :: u64 show "\<exists>x. \<forall>k. x \<in> pframes (pa, k)" by (rule exI [of _ "unat (phys_to_pfn pa)"]) (simp add: pframes_def)
qed (use frames_ok_alloc frames_ok_free frames_ok_blocks in blast)+

lemma frames_ok_count:
  assumes ok: "frames_ok U g H"
  shows "finite H" "unat (free_frame_count g) + (\<Sum>(pa, k)\<in>H. 2 ^ k) = card U"
proof -
  obtain fa F A n where g: "g = Some fa" "buddy_ok n (fa_buddy fa) F A {x. base_pfn fa + x \<in> U}" "base_pfn fa + n < 2 ^ 32"
    "H = (\<lambda>(x, k). (phys (base_pfn fa + x), k)) ` A" "U \<subseteq> {base_pfn fa..<base_pfn fa + n}"
    using ok by (auto simp: frames_ok_def)
  have bl: "blocks (fa_buddy fa) F A" and n: "nframes (fa_buddy fa) = n"
    and bf: "bfree (fa_buddy fa) = card (frames_of (free_blocks F))"
    and R: "frames_of (free_blocks F) \<union> frames_of A = {x. base_pfn fa + x \<in> U}" using g(2) by (auto simp: buddy_ok_def)
  note l = blocks_limit [OF bl]
  have fin: "finite (frames_of (free_blocks F))" "finite (frames_of A)" using l(1) finite_subset [of _ "{..<n}"] n by auto
  have "A \<subseteq> {..<n} \<times> {..MAX_ORDER}" using buddy_okD [OF g(2)] by auto
  then have A: "finite A" by (rule finite_subset) simp
  then show H: "finite H" using g(4) by simp
  have im: "(\<lambda>x. base_pfn fa + x) ` {x. base_pfn fa + x \<in> U} = U"
  proof -
    have "u \<in> (\<lambda>x. base_pfn fa + x) ` {x. base_pfn fa + x \<in> U}" if "u \<in> U" for u
      using that g(5) by (intro image_eqI [of _ _ "u - base_pfn fa"]) auto
    then show ?thesis by blast
  qed
  have foot: "\<Union> (pframes ` H) = (\<lambda>x. base_pfn fa + x) ` frames_of A"
    unfolding g(4) frames_of_def image_UN image_image
    by (rule SUP_cong) (use pframes_phys buddy_okD(1) [OF g(2)] g(3) in fastforce)+
  have "card (frames_of A) = card (\<Union> (pframes ` H))" unfolding foot by (simp add: card_image)
  also have "\<dots> = (\<Sum>a\<in>H. card (pframes a))"
    using frames_ok_blocks(1) [OF ok] by (intro card_UN_disjoint) (use H in \<open>auto simp: pframes_def\<close>)
  also have "\<dots> = (\<Sum>(pa, k)\<in>H. 2 ^ k)" by (rule sum.cong) (auto simp: pframes_def)
  finally have c: "card (frames_of A) = (\<Sum>(pa, k)\<in>H. 2 ^ k)" .
  have "card U = card {x. base_pfn fa + x \<in> U}" using card_image [of "\<lambda>x. base_pfn fa + x" "{x. base_pfn fa + x \<in> U}"] im by simp
  also have "\<dots> = card (frames_of (free_blocks F)) + card (frames_of A)" unfolding R [symmetric] using card_Un_disjoint [OF fin l(3)] .
  finally have "card U = bfree (fa_buddy fa) + (\<Sum>(pa, k)\<in>H. 2 ^ k)" using c bf by simp
  moreover have "bfree (fa_buddy fa) \<le> n" using card_mono [of "{..<n}" "frames_of (free_blocks F)"] l(1) n bf by simp
  ultimately show "unat (free_frame_count g) + (\<Sum>(pa, k)\<in>H. 2 ^ k) = card U"
    using g(1,3) by (simp add: free_frame_count_def free_frames_def unat_of_nat)
qed

section \<open>The bootstrap\<close>

definition backed :: "mem_region list \<Rightarrow> nat \<times> nat \<Rightarrow> bool" where
  "backed rs = (\<lambda>(s, e). s < e \<and> e \<le> 2 ^ 20 \<and> (\<exists>r\<in>set rs. mr_kind r = USABLE \<and> unat (mr_base r) = 4096 * s \<and> e \<le> s + unat (mr_pages r)))"

lemma usable_frames_Some:
  "usable_frames r = Some (s, e) \<Longrightarrow> unat (mr_base r) = 4096 * unat s \<and> unat e = unat s + unat (mr_pages r) \<and> s < e"
proof -
  assume u: "usable_frames r = Some (s, e)"
  then have z: "mr_base r mod 4096 = 0" "s = drop_bit 12 (mr_base r)" "unat e = unat s + unat (mr_pages r)" "s < e"
    by (auto simp: usable_frames_def PAGE_SIZE_def PAGE_SHIFT_def Let_def checked_add_Some split: if_splits option.splits)
  have "unat (mr_base r) mod 4096 = 0" using arg_cong [OF z(1), of unat] by (simp add: unat_mod)
  moreover have "unat s = unat (mr_base r) div 4096" using z(2) by (simp add: unat_drop_bit_eq drop_bit_eq_div unat_div)
  ultimately show ?thesis using z(3,4) by auto
qed

lemma collect_usable_Inr:
  assumes "collect_usable acc rs = Inr out" "set rs \<subseteq> set rs0" "list_all (backed rs0) acc"
  shows "list_all (backed rs0) out"
  using assms
proof (induction acc rs rule: collect_usable.induct)
  case (2 acc r rs)
  show ?case
  proof (cases "mr_kind r = USABLE \<and> usable_frames r \<noteq> None")
    case True
    then obtain s e where u: "usable_frames r = Some (s, e)" "mr_kind r = USABLE" by auto
    let ?e = "min e (drop_bit PAGE_SHIFT IDENTITY_BYTES)"
    have m: "unat ?e = min (unat e) (2 ^ 20)" by (simp add: PAGE_SHIFT_def IDENTITY_BYTES_def min_def word_le_nat_alt)
    note f = usable_frames_Some [OF u(1)]
    show ?thesis
    proof (cases "?e \<le> s")
      case False
      then have l: "unat s < unat ?e" by (simp add: word_le_nat_alt)
      then have w: "unat s mod 2 ^ 32 = unat s" "unat ?e mod 2 ^ 32 = unat ?e" using m by simp_all
      have "backed rs0 (unat s, unat ?e)"
        unfolding backed_def using l m f u(2) 2(6) by (auto intro!: bexI [of _ r])
      then show ?thesis using 2(4) [OF _ u(1) refl refl False] 2(5-) u False w by (auto simp: Let_def not_le split: if_splits)
    qed (use 2(3) [OF _ u(1) refl refl] 2(5-) u in \<open>auto simp: Let_def\<close>)
  next
    case False
    then show ?thesis using 2(1,2) 2(5-) by (cases "mr_kind r = USABLE"; cases "usable_frames r") simp_all
  qed
qed simp

lemma not_overlapping:
  assumes "\<not> overlapping rs" "list_all (backed rs0) rs" shows "sorted_wrt (\<lambda>a b. snd a \<le> fst b) rs"
  using assms
proof (induction rs rule: overlapping.induct)
  case (1 a b rs)
  have "fst b < snd b" "snd a \<le> fst b" using 1(2,3) by (auto simp: backed_def split: prod.splits)
  then show ?case using 1 by fastforce
qed auto

definition managed :: "nat \<Rightarrow> nat \<Rightarrow> nat \<times> nat \<Rightarrow> nat set" where
  "managed ds df = (\<lambda>(s, e). if s = ds then {s + df..<e} else {s..<e})"

lemma release_one:
  assumes ok: "buddy_ok n b F {} {x. base + x \<in> R}" and se: "base \<le> s" "e \<le> base + n" and R: "R \<inter> {s..<e} = {}" and le: "s \<le> e"
  shows "\<exists>b' F'. do { a \<leftarrow> sub_w s base; c \<leftarrow> sub_w e s; add_frames b a c } = Some b' \<and> buddy_ok n b' F' {} {x. base + x \<in> R \<union> {s..<e}}"
proof -
  have "{s - base..<s - base + (e - s)} \<inter> {x. base + x \<in> R} = {}" using R se by (auto simp: disjoint_iff)
  moreover have "s - base + (e - s) \<le> n" using se le by linarith
  ultimately obtain b' F' where "add_frames b (s - base) (e - s) = Some b'"
    "buddy_ok n b' F' {} ({x. base + x \<in> R} \<union> {s - base..<s - base + (e - s)})"
    using add_frames_ok [OF ok] by blast
  moreover have "{x. base + x \<in> R} \<union> {s - base..<s - base + (e - s)} = {x. base + x \<in> R \<union> {s..<e}}" using se le by auto
  ultimately show ?thesis using se le by (auto simp: sub_w_def)
qed

lemma release_ranges_ok:
  assumes "buddy_ok n b F {} {x. base + x \<in> R}" "base + n < 2 ^ 32" "sorted_wrt (\<lambda>a b. snd a \<le> fst b) rs"
    "\<forall>(s, e)\<in>set rs. base \<le> s \<and> s < e \<and> e \<le> base + n \<and> R \<inter> {s..<e} = {} \<and> (s = ds \<longrightarrow> s + df \<le> e)"
  shows "\<exists>b' F'. release_ranges base ds df b rs = Some b' \<and> buddy_ok n b' F' {} {x. base + x \<in> R \<union> \<Union> (managed ds df ` set rs)}"
  using assms
proof (induction rs arbitrary: b F R)
  case (Cons r rs)
  obtain s e where r: "r = (s, e)" by force
  let ?s = "if s = ds then s + df else s"
  have se: "base \<le> s" "s < e" "e \<le> base + n" "R \<inter> {s..<e} = {}" "s = ds \<longrightarrow> s + df \<le> e" using Cons.prems(4) r by auto
  then have s': "base \<le> ?s" "e \<le> base + n" "R \<inter> {?s..<e} = {}" "?s \<le> e" "?s < 2 ^ 32"
    using Cons.prems(2) by (auto simp: disjoint_iff)
  obtain b' F' where b': "do { a \<leftarrow> sub_w ?s base; c \<leftarrow> sub_w e ?s; add_frames b a c } = Some b'"
    "buddy_ok n b' F' {} {x. base + x \<in> R \<union> {?s..<e}}"
    using release_one [OF Cons.prems(1) s'(1-4)] by blast
  have stay: "add_frames b (?s - base) 0 = Some b" by (simp add: add_frames_def)
  have step: "release_ranges base ds df b (r # rs) = release_ranges base ds df b' rs"
    using b'(1) s' se stay by (cases "s = ds \<and> s + df = e") (auto simp: r add_w_def sub_w_def)
  have m: "managed ds df r = {?s..<e}" by (simp add: managed_def r)
  have "(R \<union> {?s..<e}) \<inter> {s'..<e'} = {}" if "(s', e') \<in> set rs" for s' e'
    using that Cons.prems(3,4) r by (force simp: disjoint_iff)
  then have p: "\<forall>(s', e')\<in>set rs. base \<le> s' \<and> s' < e' \<and> e' \<le> base + n \<and> (R \<union> {?s..<e}) \<inter> {s'..<e'} = {} \<and> (s' = ds \<longrightarrow> s' + df \<le> e')"
    using Cons.prems(4) unfolding list.set by blast
  have so: "sorted_wrt (\<lambda>a b. snd a \<le> fst b) rs" using Cons.prems(3) by simp
  from Cons.IH [OF b'(2) Cons.prems(2) so p] show ?case
    unfolding step list.set image_insert Union_insert m by (simp add: Un_assoc)
qed auto

lemma sorted_ranges_bounds:
  assumes "sorted_wrt (\<lambda>a b. snd a \<le> fst b) rs" "list_all (backed rs0) rs" "r \<in> set rs"
  shows "fst (hd rs) \<le> fst r" "snd r \<le> snd (last rs)"
proof -
  have lt: "fst x < snd x" if "x \<in> set rs" for x using assms(2) that by (auto simp: list_all_iff backed_def)
  obtain xs ys where s: "rs = xs @ r # ys" using assms(3) by (meson split_list)
  show "fst (hd rs) \<le> fst r" using assms(1) lt s by (cases xs) (auto intro: less_imp_le less_le_trans)
  show "snd r \<le> snd (last rs)"
  proof (cases ys rule: rev_cases)
    case (snoc zs z)
    then show ?thesis using assms(1) lt [of z] s by (auto simp: sorted_wrt_append)
  qed (simp add: s)
qed

lemma sorted_wrt_pair: "sorted_wrt R xs \<Longrightarrow> x \<in> set xs \<Longrightarrow> y \<in> set xs \<Longrightarrow> x = y \<or> R x y \<or> R y x"
  by (induction xs) auto

lemma sorted_ranges_distinct:
  "sorted_wrt (\<lambda>a b. snd a \<le> fst b) rs \<Longrightarrow> (\<And>x. x \<in> set rs \<Longrightarrow> fst x < snd x) \<Longrightarrow> distinct rs"
  for rs :: "(nat \<times> nat) list"
proof (induction rs)
  case (Cons r rs)
  have "snd r \<le> fst r" if "r \<in> set rs" using Cons.prems(1) that by simp
  then have "r \<notin> set rs" using Cons.prems(2) [of r] by auto
  then show ?case using Cons by auto
qed simp

lemma managed_total:
  assumes "sorted_wrt (\<lambda>a b. snd a \<le> fst b) rs" "list_all (backed rs0) rs" "(ds, e) \<in> set rs" "ds + df \<le> e"
  shows "card (\<Union> (managed ds df ` set rs)) + df = (\<Sum>(s, e)\<leftarrow>rs. e - s)"
    and "\<Union> (managed ds df ` set rs) \<inter> {ds..<ds + df} = {}"
proof -
  have lt: "fst x < snd x" if "x \<in> set rs" for x using assms(2) that by (auto simp: list_all_iff backed_def)
  have dis: "x = y \<or> snd x \<le> fst y \<or> snd y \<le> fst x" if "x \<in> set rs" "y \<in> set rs" for x y
    using sorted_wrt_pair [OF assms(1) that] .
  have "distinct rs"
    using assms(1) lt by (rule sorted_ranges_distinct)
  then have "(\<Sum>(s, e)\<leftarrow>rs. e - s) = (\<Sum>(s, e)\<in>set rs. e - s)" by (simp add: sum_list_distinct_conv_sum_set)
  also have "\<dots> = (\<Sum>r\<in>set rs. card {fst r..<snd r})" by (simp add: case_prod_unfold)
  also have "\<dots> = card (\<Union>r\<in>set rs. {fst r..<snd r})"
  proof (rule card_UN_disjoint [symmetric])
    show "\<forall>x\<in>set rs. \<forall>y\<in>set rs. x \<noteq> y \<longrightarrow> {fst x..<snd x} \<inter> {fst y..<snd y} = {}" using dis by fastforce
  qed auto
  also have "(\<Union>r\<in>set rs. {fst r..<snd r}) = \<Union> (managed ds df ` set rs) \<union> {ds..<ds + df}"
    using assms(3,4) dis lt by (force simp: managed_def split: if_splits)
  finally have c: "(\<Sum>(s, e)\<leftarrow>rs. e - s) = card (\<Union> (managed ds df ` set rs) \<union> {ds..<ds + df})" .
  show d: "\<Union> (managed ds df ` set rs) \<inter> {ds..<ds + df} = {}"
    using assms(3,4) dis by (force simp: managed_def disjoint_iff split: if_splits)
  have "finite (\<Union> (managed ds df ` set rs))" by (auto simp: managed_def)
  then show "card (\<Union> (managed ds df ` set rs)) + df = (\<Sum>(s, e)\<leftarrow>rs. e - s)"
    unfolding c using d by (simp add: card_Un_disjoint)
qed

lemma unat_pfn_to_phys: "unat (pfn_to_phys p) = 4096 * unat p"
proof -
  have "4096 * unat p < 2 ^ 64" using unat_bound [of p] by (simp del: unsigned_less)
  then show ?thesis
    by (simp add: pfn_to_phys_def PAGE_SHIFT_def push_bit_eq_mult unat_word_ariths unat_ucast_up mult.commute del: unsigned_less)
qed

definition bm_managed :: "(nat \<times> nat) list \<Rightarrow> boot_memory \<Rightarrow> nat set" where
  "bm_managed rs bm = \<Union> (managed (bm_desc_start bm) (bm_desc_frames bm) ` set rs)"

lemma build_frames_ok:
  assumes so: "sorted_wrt (\<lambda>a b. snd a \<le> fst b) rs" and bk: "list_all (backed rs0) rs" and ne: "rs \<noteq> []"
  shows "build_frames hhdm rs = Err NoDescriptorRoom \<or> build_frames hhdm rs = Panic \<and> 2 ^ 64 - 2 ^ 32 \<le> unat hhdm
    \<or> (\<exists>bm. build_frames hhdm rs = Ok bm \<and> frames_ok (bm_managed rs bm) (Some (bm_frames bm)) {}
        \<and> card (bm_managed rs bm) + bm_desc_frames bm = bm_total_pages bm
        \<and> bm_managed rs bm \<inter> {bm_desc_start bm..<bm_desc_start bm + bm_desc_frames bm} = {})"
proof -
  define base where "base = fst (hd rs)"
  define span where "span = snd (last rs) - base"
  have lt: "fst x < snd x" "snd x \<le> 2 ^ 20" if "x \<in> set rs" for x using bk that by (auto simp: list_all_iff backed_def)
  note bd = sorted_ranges_bounds [OF so bk]
  have bs: "base + span = snd (last rs)" "base + span \<le> 2 ^ 20" "base \<le> snd (last rs)"
    using bd(1) [of "last rs"] lt [of "last rs"] ne by (simp_all add: base_def span_def)
  have head: "do { r0 \<leftarrow> idx rs 0; n \<leftarrow> sub_w (length rs) 1; rl \<leftarrow> idx rs n; span \<leftarrow> sub_w (snd rl) (fst r0); Some (fst r0, span) } = Some (base, span)"
    using ne bs(3) by (simp add: idx_def sub_w_def base_def span_def hd_conv_nth last_conv_nth Suc_le_eq)
  show ?thesis
  proof (cases "find (\<lambda>(s, e). desc_frames span \<le> e - s) rs")
    case None then show ?thesis unfolding build_frames_def head by simp
  next
    case (Some f)
    obtain ds e where f: "f = (ds, e)" by force
    have d: "(ds, e) \<in> set rs" "desc_frames span \<le> e - ds"
      using Some f by (auto simp: find_Some_iff) (metis nth_mem)
    have dse: "ds + desc_frames span \<le> e" "ds < 2 ^ 20" using d lt [OF d(1)] by auto
    have same: "r = (ds, e)" if r: "r \<in> set rs" "fst r = ds" for r
    proof (rule ccontr)
      assume "r \<noteq> (ds, e)"
      then have "snd r \<le> ds \<or> e \<le> fst r" using sorted_wrt_pair [OF so r(1) d(1)] by simp
      then show False using lt(1) [OF r(1)] lt(1) [OF d(1)] r(2) by auto
    qed
    have "length (replicate span ZERO_DESC) \<le> NIL_FRAME" using bs(2) by (simp add: NIL_FRAME_def)
    from buddy_new_ok [OF this] have b0: "buddy_ok span (buddy_new (replicate span ZERO_DESC)) (\<lambda>_. []) {} {x. base + x \<in> {}}" by simp
    have "\<forall>(s, e')\<in>set rs. base \<le> s \<and> s < e' \<and> e' \<le> base + span \<and> {} \<inter> {s..<e'} = {} \<and> (s = ds \<longrightarrow> s + desc_frames span \<le> e')"
      using bd lt(1) same dse(1) unfolding base_def [symmetric] bs(1) by fastforce
    from release_ranges_ok [OF b0 _ so this] bs(2) obtain b F where
      rel: "release_ranges base ds (desc_frames span) (buddy_new (replicate span ZERO_DESC)) rs = Some b"
      "buddy_ok span b F {} {x. base + x \<in> \<Union> (managed ds (desc_frames span) ` set rs)}" by auto
    let ?U = "\<Union> (managed ds (desc_frames span) ` set rs)"
    have U: "?U \<subseteq> {base..<base + span}"
      using bd unfolding base_def [symmetric] bs(1) by (fastforce simp: managed_def split: if_splits)
    have ok: "frames_ok ?U (Some \<lparr>fa_buddy = b, base_pfn = base\<rparr>) {}"
      unfolding frames_ok_def using rel(2) bs(2) U
      by (intro exI [of _ "\<lparr>fa_buddy = b, base_pfn = base\<rparr>"] exI [of _ F] exI [of _ "{}"] exI [of _ span]) simp
    have "2 ^ 64 - 2 ^ 32 \<le> unat hhdm" if "phys_to_virt hhdm (pfn_to_phys (of_nat ds)) = None"
      using that dse(2) by (simp add: phys_to_virt_def checked_add_None unat_pfn_to_phys unat_of_nat)
    then show ?thesis
      using rel(1) ok managed_total [OF so bk d(1) dse(1)]
      by (cases "phys_to_virt hhdm (pfn_to_phys (of_nat ds))")
         (simp_all add: build_frames_def head Some f zero_range_def bm_managed_def del: One_nat_def)
  qed
qed

section \<open>Runs of the allocator from boot\<close>

datatype frame_op = FAlloc nat | FFree u64

type_synonym frame_run = "frames_state \<times> (u64 \<times> nat) list"

fun fr_step :: "frame_op \<Rightarrow> frame_run \<Rightarrow> frame_run" where
  "fr_step (FAlloc k) (g, h) = (case alloc_frames g k of Some (Some pa, g') \<Rightarrow> (g', (pa, k) # h) | Some (None, g') \<Rightarrow> (g', h) | None \<Rightarrow> (g, h))"
| "fr_step (FFree pa) (g, h) = (case mem_free_frames g pa of Some g' \<Rightarrow> (g', filter (\<lambda>a. fst a \<noteq> pa) h) | None \<Rightarrow> (g, h))"

fun fr_pre :: "frame_op \<Rightarrow> frame_run \<Rightarrow> bool" where
  "fr_pre (FAlloc k) (g, h) = True"
| "fr_pre (FFree pa) (g, h) = (pa \<in> fst ` set h)"

fun fr_inv :: "nat set \<Rightarrow> frame_run \<Rightarrow> bool" where
  "fr_inv U (g, h) \<longleftrightarrow> distinct h \<and> frames_ok U g (set h)"

interpretation frame_machine: guarded_machine fr_step fr_pre "fr_inv U" for U
proof
  fix s op assume i: "fr_inv U s" and p: "fr_pre op s"
  obtain g h where s: "s = (g, h)" by force
  have ok: "frames_ok U g (set h)" "distinct h" using i s by auto
  show "fr_inv U (fr_step op s)"
  proof (cases op)
    case (FAlloc k)
    then show ?thesis using kernel_frames.alloc_law [OF ok(1), of k] ok by (auto simp: s)
  next
    case (FFree pa)
    then obtain k where k: "(pa, k) \<in> set h" using p s by auto
    obtain g' where "mem_free_frames g pa = Some g'" "frames_ok U g' (set h - {(pa, k)})" using kernel_frames.free_law [OF ok(1) k] by blast
    then show ?thesis using FFree ok kernel_frames.free_removes [OF ok(1) k] by (simp add: s)
  qed
qed

section \<open>Properties\<close>

definition usable_frame :: "(u64 \<Rightarrow> mem_region) \<Rightarrow> warden_boot_info \<Rightarrow> nat \<Rightarrow> bool" where
  "usable_frame region_at bi p \<longleftrightarrow> p < 2 ^ 20 \<and> (\<exists>i<min 1024 (unat (mm_count (memmap bi))).
     let r = region_at (region_ptr (mm_regions (memmap bi) + hhdm_offset bi) i)
     in mr_kind r = USABLE \<and> unat (mr_base r) \<le> 4096 * p \<and> 4096 * (p + 1) \<le> unat (mr_base r) + 4096 * unat (mr_pages r))"

lemma mem_init_cases:
  shows "mem_init region_at bi = Panic \<Longrightarrow>
      2 ^ 64 \<le> unat (mm_regions (memmap bi)) + unat (hhdm_offset bi) \<or> 2 ^ 64 - 2 ^ 32 \<le> unat (hhdm_offset bi)"
    and "mem_init region_at bi = Ok bm \<Longrightarrow> \<exists>U. frames_ok U (Some (bm_frames bm)) {} \<and> (\<forall>p\<in>U. usable_frame region_at bi p)
      \<and> card U + bm_desc_frames bm = bm_total_pages bm \<and> U \<inter> {bm_desc_start bm..<bm_desc_start bm + bm_desc_frames bm} = {}"
proof -
  have slice: "2 ^ 64 \<le> unat (mm_regions (memmap bi)) + unat (hhdm_offset bi)" if "region_slice region_at bi = None"
    using that by (auto simp: region_slice_def phys_to_virt_def checked_add_None Let_def bind_eq_None_conv split: if_splits)
  have "list_all (backed regs) rs0 \<Longrightarrow> list_all (backed regs) (sort_key fst rs0)" for regs rs0 by (simp add: list_all_iff)
  then have ranges: "\<exists>regs rs. region_slice region_at bi = Some regs \<and> list_all (backed regs) rs \<and> rs \<noteq> []
      \<and> sorted_wrt (\<lambda>a b. snd a \<le> fst b) rs \<and> mem_init region_at bi = build_frames (hhdm_offset bi) rs"
    if "region_slice region_at bi \<noteq> None" "\<And>e. mem_init region_at bi \<noteq> Err e"
    using that collect_usable_Inr [OF _ subset_refl, of "[]"] not_overlapping
    by (fastforce simp: mem_init_def Let_def split: option.splits if_splits sum.splits list.splits)
  show "2 ^ 64 \<le> unat (mm_regions (memmap bi)) + unat (hhdm_offset bi) \<or> 2 ^ 64 - 2 ^ 32 \<le> unat (hhdm_offset bi)"
    if "mem_init region_at bi = Panic"
    using slice ranges build_frames_ok that by (metis outcome.distinct(3,5))
  assume ok: "mem_init region_at bi = Ok bm"
  then have "region_slice region_at bi \<noteq> None" by (auto simp: mem_init_def split: option.splits)
  then obtain regs rs where r: "region_slice region_at bi = Some regs" "list_all (backed regs) rs" "rs \<noteq> []"
    "sorted_wrt (\<lambda>a b. snd a \<le> fst b) rs" "build_frames (hhdm_offset bi) rs = Ok bm" using ranges ok by auto
  have regs: "\<exists>i<min 1024 (unat (mm_count (memmap bi))). x = region_at (region_ptr (mm_regions (memmap bi) + hhdm_offset bi) i)"
    if "x \<in> set regs" for x
    using r(1) that by (auto simp: region_slice_def phys_to_virt_def Let_def checked_add_Some MEM_MAX_REGIONS_def bind_eq_Some_conv split: if_splits) blast
  have "usable_frame region_at bi p" if p: "p \<in> bm_managed rs bm" for p
  proof -
    obtain s e where se: "(s, e) \<in> set rs" "s \<le> p" "p < e" using p by (auto simp: bm_managed_def managed_def split: if_splits)
    then obtain x where x: "x \<in> set regs" "mr_kind x = USABLE" "unat (mr_base x) = 4096 * s" "e \<le> s + unat (mr_pages x)" "e \<le> 2 ^ 20"
      using r(2) by (fastforce simp: list_all_iff backed_def)
    then show ?thesis using regs [OF x(1)] se unfolding usable_frame_def Let_def by auto
  qed
  then show "\<exists>U. frames_ok U (Some (bm_frames bm)) {} \<and> (\<forall>p\<in>U. usable_frame region_at bi p)
      \<and> card U + bm_desc_frames bm = bm_total_pages bm \<and> U \<inter> {bm_desc_start bm..<bm_desc_start bm + bm_desc_frames bm} = {}"
    using build_frames_ok [OF r(4,2,3), of "hhdm_offset bi"] r(5) by auto
qed

text \<open>
  (C30) Boot memory is safe under a hostile memory map.  Whatever the handoff and the memory behind it
  contain, the bootstrap traps only when the direct-map offset is so high that adding an address below
  4 GiB, or the region array's own address, overflows.  If it succeeds, then after any sequence
  of allocations and of frees of held blocks: the held blocks are pairwise disjoint; each of their
  frames lies wholly inside a usable region among the first 1024 and below 4 GiB, and is not one of
  the descriptor array's; free, held and descriptor frames add up to the usable total, so none is
  lost or counted twice; and no further allocation, nor the free of a held block, traps.
\<close>

theorem boot_frames_safe:
  "(mem_init region_at bi = Panic \<longrightarrow>
      2 ^ 64 \<le> unat (mm_regions (memmap bi)) + unat (hhdm_offset bi) \<or> 2 ^ 64 - 2 ^ 32 \<le> unat (hhdm_offset bi))
   \<and> (\<forall>bm ops g h. mem_init region_at bi = Ok bm \<and> pre_ops fr_step fr_pre ops (Some (bm_frames bm), [])
        \<and> run_ops fr_step ops (Some (bm_frames bm), []) = (g, h) \<longrightarrow>
      (\<forall>a\<in>set h. \<forall>c\<in>set h. a \<noteq> c \<longrightarrow> pframes a \<inter> pframes c = {})
      \<and> (\<forall>a\<in>set h. \<forall>p\<in>pframes a. usable_frame region_at bi p
            \<and> \<not> (bm_desc_start bm \<le> p \<and> p < bm_desc_start bm + bm_desc_frames bm))
      \<and> unat (free_frame_count g) + (\<Sum>(pa, k)\<leftarrow>h. 2 ^ k) + bm_desc_frames bm = bm_total_pages bm
      \<and> (\<forall>k. alloc_frames g k \<noteq> None) \<and> (\<forall>pa\<in>fst ` set h. mem_free_frames g pa \<noteq> None))"
proof (rule conjI; intro allI impI; (elim conjE)?)
  fix bm ops g h assume init: "mem_init region_at bi = Ok bm" and pre: "pre_ops fr_step fr_pre ops (Some (bm_frames bm), [])"
    and run: "run_ops fr_step ops (Some (bm_frames bm), []) = (g, h)"
  obtain U where U: "frames_ok U (Some (bm_frames bm)) {}" "\<forall>p\<in>U. usable_frame region_at bi p"
    "card U + bm_desc_frames bm = bm_total_pages bm" "U \<inter> {bm_desc_start bm..<bm_desc_start bm + bm_desc_frames bm} = {}"
    using mem_init_cases(2) [OF init] by blast
  have "fr_inv U (g, h)" using frame_machine.run_inv [OF _ pre, of U] U(1) run by simp
  then have ok: "frames_ok U g (set h)" and h: "distinct h" by auto
  have "pframes a \<inter> pframes c = {}" if "a \<in> set h" "c \<in> set h" "a \<noteq> c" for a c using kernel_frames.apart [OF ok that] .
  moreover have "usable_frame region_at bi p \<and> \<not> (bm_desc_start bm \<le> p \<and> p < bm_desc_start bm + bm_desc_frames bm)"
    if "a \<in> set h" "p \<in> pframes a" for a p
    using frames_ok_blocks(2) [OF ok that(1)] that(2) U(2,4) by (auto simp: disjoint_iff)
  moreover have "unat (free_frame_count g) + (\<Sum>(pa, k)\<leftarrow>h. 2 ^ k) + bm_desc_frames bm = bm_total_pages bm"
    using frames_ok_count(2) [OF ok] U(3) h by (simp add: sum_list_distinct_conv_sum_set)
  moreover have "alloc_frames g k \<noteq> None" for k using kernel_frames.alloc_law [OF ok, of k] by auto
  moreover have "mem_free_frames g pa \<noteq> None" if "pa \<in> fst ` set h" for pa using kernel_frames.free_law [OF ok] that by force
  ultimately show "(\<forall>a\<in>set h. \<forall>c\<in>set h. a \<noteq> c \<longrightarrow> pframes a \<inter> pframes c = {})
      \<and> (\<forall>a\<in>set h. \<forall>p\<in>pframes a. usable_frame region_at bi p
            \<and> \<not> (bm_desc_start bm \<le> p \<and> p < bm_desc_start bm + bm_desc_frames bm))
      \<and> unat (free_frame_count g) + (\<Sum>(pa, k)\<leftarrow>h. 2 ^ k) + bm_desc_frames bm = bm_total_pages bm
      \<and> (\<forall>k. alloc_frames g k \<noteq> None) \<and> (\<forall>pa\<in>fst ` set h. mem_free_frames g pa \<noteq> None)" by blast
qed (rule mem_init_cases(1))

definition demo_regions :: "u64 \<Rightarrow> mem_region" where
  "demo_regions a = (if a = 0x2000 then \<lparr>mr_base = 0x5000, mr_pages = 3, mr_kind = 1, mr_pad = 0\<rparr>
     else \<lparr>mr_base = 0x2000, mr_pages = 2, mr_kind = USABLE, mr_pad = 0\<rparr>)"

definition demo_boot_info :: warden_boot_info where
  "demo_boot_info = \<lparr>magic = WARDEN_MAGIC, abi_version = WARDEN_ABI_VERSION, bi_pad = 0,
     memmap = \<lparr>mm_regions = 0x2000, mm_count = 2\<rparr>, framebuffer = OptFb_NONE, modules = ModuleList_EMPTY, hhdm_offset = 0,
     rsdp = 0, tpm_event_log = OptRange_NONE, cmdline = PhysStr_EMPTY\<rparr>"

definition demo_bm :: boot_memory where
  "demo_bm = \<lparr>bm_frames = \<lparr>fa_buddy = \<lparr>desc = [RESERVED, RESERVED\<lparr>fd_free := True\<rparr>], heads = 1 # replicate 18 NIL_FRAME,
       nframes = 2, bfree = 1\<rparr>, base_pfn = 2\<rparr>,
     bm_span = 2, bm_desc_start = 2, bm_desc_frames = 1, bm_total_pages = 2, bm_zeroed = [(0x2000, 24)]\<rparr>"

lemma demo_boot: "mem_init demo_regions demo_boot_info = Ok demo_bm"
proof -
  have "region_slice demo_regions demo_boot_info = Some [demo_regions 0x2000, demo_regions 0x2018]" by code_simp
  moreover have "collect_usable [] [demo_regions 0x2000, demo_regions 0x2018] = Inr [(2, 4)]" by code_simp
  moreover have "build_frames 0 [(2, 4)] = Ok demo_bm"
  proof -
    have d: "desc_frames 2 = 1" and z: "zero_range 0 (pfn_to_phys 2) (desc_bytes 2) = Some (0x2000, 24)" by code_simp+
    have r: "release_ranges 2 2 1 (buddy_new (replicate 2 ZERO_DESC)) [(2, 4)] = Some (fa_buddy (bm_frames demo_bm))" by code_simp
    have "build_frames 0 [(2, 4)] = Ok \<lparr>bm_frames = \<lparr>fa_buddy = fa_buddy (bm_frames demo_bm), base_pfn = 2\<rparr>, bm_span = 2,
        bm_desc_start = 2, bm_desc_frames = 1, bm_total_pages = 2, bm_zeroed = [(0x2000, 24)]\<rparr>"
      by (simp add: build_frames_def idx_def sub_w_def d z r del: release_ranges.simps One_nat_def)
    then show ?thesis by (simp add: demo_bm_def)
  qed
  ultimately show ?thesis by (simp add: mem_init_def demo_boot_info_def)
qed

theorem boot_frames_safe_witness:
  "\<exists>g. run_ops fr_step [FAlloc 0] (Some (bm_frames demo_bm), []) = (g, [(0x3000, 0)])
     \<and> unat (free_frame_count g) + 1 + bm_desc_frames demo_bm = 2 \<and> usable_frame demo_regions demo_boot_info 3"
proof -
  have a: "snd (run_ops fr_step [FAlloc 0] (Some (bm_frames demo_bm), [])) = [(0x3000, 0)]" by code_simp
  then obtain g where g: "run_ops fr_step [FAlloc 0] (Some (bm_frames demo_bm), []) = (g, [(0x3000, 0)])" by (metis prod.collapse)
  have "pre_ops fr_step fr_pre [FAlloc 0] (Some (bm_frames demo_bm), [])" by simp
  then have "unat (free_frame_count g) + (\<Sum>(pa, k)\<leftarrow>[(0x3000 :: u64, 0)]. 2 ^ k) + bm_desc_frames demo_bm = bm_total_pages demo_bm
      \<and> (\<forall>a\<in>set [(0x3000, 0)]. \<forall>p\<in>pframes a. usable_frame demo_regions demo_boot_info p)"
    using conjunct2 [OF boot_frames_safe [of demo_regions demo_boot_info]] demo_boot g by blast
  moreover have "3 \<in> pframes (0x3000, 0)" by (simp add: pframes_def phys_to_pfn_def PAGE_SHIFT_def)
  moreover have "bm_total_pages demo_bm = 2" by (simp add: demo_bm_def)
  ultimately show ?thesis using g by (auto simp del: run_ops.simps)
qed

end
