(* ===== verification/Arch_Seam.thy ===== *)
theory Arch_Seam
  imports Prelude
begin

text \<open>
  The architecture seam, \<^verbatim>\<open>src/kernel/src/arch/mod.rs\<close>: the protections a mapping can have, the
  description of the kernel's own address space and the handle to a built one.  A protection that is
  writable and executable does not exist.
\<close>

datatype prot = Ro | Rw | Rx

fun prot_checked :: "bool \<Rightarrow> bool \<Rightarrow> bool \<Rightarrow> prot option" where
  "prot_checked True False False = Some Ro"
| "prot_checked True True False = Some Rw"
| "prot_checked True False True = Some Rx"
| "prot_checked _ _ _ = None"

record kernel_map =
  km_hhdm_offset :: u64
  identity_bytes :: u64
  kernel_vbase :: u64
  kernel_vend :: u64
  kernel_phys :: u64
  km_text :: "u64 \<times> u64"
  km_rodata :: "u64 \<times> u64"
  km_data :: "u64 \<times> u64"

record address_space =
  primary :: u64
  secondary :: u64

text \<open>What a protection lets the code do: \<open>(writable, executable)\<close>.\<close>

fun prot_wx :: "prot \<Rightarrow> bool \<times> bool" where
  "prot_wx Ro = (False, False)"
| "prot_wx Rw = (True, False)"
| "prot_wx Rx = (False, True)"

lemma prot_checked_wx: "prot_checked r w x = Some p \<longleftrightarrow> r \<and> prot_wx p = (w, x) \<and> \<not> (w \<and> x)"
  by (cases r; cases w; cases x; cases p) simp_all

end
