(* ===== verification/Kernel_Sched.thy ===== *)
theory Kernel_Sched
  imports Kernel_Memory Arch_Seam Budget
begin

text \<open>
  The stackful scheduler, \<^verbatim>\<open>src/kernel/src/sched/scheduler.rs\<close>, over the kernel's frame allocator.
  The state has the task table, the processor state the scheduler programs (loaded page table,
  syscall stack, isolation domain, the task whose context runs), the two statics that cache the
  loaded page table, the frame allocator, and the physical frames whose direct-map alias is unmapped
  as a stack guard.  \<open>None\<close> is a halted kernel: a trap, or one of the scheduler's two fatal messages
  (no bootstrap, no frames for a stack).  A body is known by a number; what it does is the sequence of
  scheduler calls it makes.
\<close>

definition STACK_BYTES :: u64 where "STACK_BYTES = 4 * 4096"
definition GUARDED_STACK_ORDER :: nat where "GUARDED_STACK_ORDER = 3"
definition BLOCK_BYTES :: u64 where "BLOCK_BYTES = 8 * 4096"
definition PAGE :: u64 where "PAGE = 4096"
definition KERNEL_STACK_FRAMES :: nat where "KERNEL_STACK_FRAMES = 8"

datatype task_state = Runnable | Finished | Reaped

record ktask =
  stack_phys :: "u64 option"
  kt_budget :: budget
  kt_state :: task_state
  kt_body :: "nat option"
  proc_id :: "nat option"
  kt_domain :: "u64 option"
  kt_space :: address_space

record scheduler =
  tasks :: "ktask list"
  current :: nat

record cpu_state =
  loaded :: address_space
  active :: address_space
  kstack :: "u64 option"
  cpu_domain :: "u64 option"
  running :: nat

record kernel =
  sched :: "scheduler option"
  cpu :: cpu_state
  kframes :: frames_state
  khhdm :: u64
  kernel_space :: address_space
  guards :: "u64 list"

definition runnable :: "ktask \<Rightarrow> bool" where
  "runnable t \<longleftrightarrow> kt_state t = Runnable \<and> \<not> is_depleted (kt_budget t)"

definition pick_next :: "scheduler \<Rightarrow> nat option" where
  "pick_next s =
     (let n = length (tasks s) in
      find (\<lambda>i. runnable (tasks s ! i)) (map (\<lambda>k. (current s + k) mod n) [1..<n + 1]))"

definition runnable_besides :: "scheduler \<Rightarrow> nat \<Rightarrow> nat" where
  "runnable_besides s who = length (filter (\<lambda>(i, t). i \<noteq> who \<and> runnable t) (enumerate 0 (tasks s)))"

definition activate_space :: "address_space \<Rightarrow> cpu_state \<Rightarrow> cpu_state" where
  "activate_space sp c =
     (if primary sp \<noteq> primary (active c) \<or> secondary sp \<noteq> secondary (active c)
      then c\<lparr>loaded := sp, active := sp\<rparr> else c)"

definition bootstrap :: "kernel \<Rightarrow> kernel" where
  "bootstrap k = k\<lparr>sched := Some \<lparr>tasks = [\<lparr>stack_phys = None, kt_budget = budget_new (- 1) (- 1), kt_state = Runnable,
     kt_body = None, proc_id = None, kt_domain = None, kt_space = kernel_space k\<rparr>], current = 0\<rparr>\<rparr>"

definition spawn_inner ::
  "nat \<Rightarrow> budget \<Rightarrow> nat option \<Rightarrow> u64 option \<Rightarrow> address_space \<Rightarrow> kernel \<Rightarrow> kernel option" where
  "spawn_inner body bud pid dm sp k = do {
     (blk, g) \<leftarrow> alloc_frames (kframes k) GUARDED_STACK_ORDER;
     block \<leftarrow> blk;
     v \<leftarrow> phys_to_virt (khhdm k) block;
     stack_top \<leftarrow> checked_add v BLOCK_BYTES;
     stack_base_phys \<leftarrow> checked_add block (BLOCK_BYTES - STACK_BYTES);
     guard_phys \<leftarrow> checked_sub stack_base_phys PAGE;
     _ \<leftarrow> phys_to_virt (khhdm k) guard_phys;
     s \<leftarrow> sched k;
     Some (k\<lparr>kframes := g, guards := guard_phys # guards k,
       sched := Some (s\<lparr>tasks := tasks s @ [\<lparr>stack_phys = Some block, kt_budget = bud, kt_state = Runnable,
         kt_body = Some body, proc_id = pid, kt_domain = dm, kt_space = sp\<rparr>]\<rparr>)\<rparr>)
   }"

definition spawn :: "nat \<Rightarrow> budget \<Rightarrow> kernel \<Rightarrow> kernel option" where
  "spawn body bud k = spawn_inner body bud None None (kernel_space k) k"

definition spawn_proc :: "nat \<Rightarrow> budget \<Rightarrow> nat \<Rightarrow> u64 \<Rightarrow> address_space \<Rightarrow> kernel \<Rightarrow> kernel option" where
  "spawn_proc body bud pid dm sp k = spawn_inner body bud (Some pid) (Some dm) sp k"

definition current_proc_id :: "kernel \<Rightarrow> nat option option" where
  "current_proc_id k = do { s \<leftarrow> sched k; t \<leftarrow> idx (tasks s) (current s); Some (proc_id t) }"

definition kernel_stack_top :: "u64 \<Rightarrow> scheduler \<Rightarrow> nat \<Rightarrow> u64 option option" where
  "kernel_stack_top hhdm s i = do {
     t \<leftarrow> idx (tasks s) i;
     case stack_phys t of
       None \<Rightarrow> Some None
     | Some block \<Rightarrow> do { v \<leftarrow> phys_to_virt hhdm block; tp \<leftarrow> checked_add v BLOCK_BYTES; Some (Some tp) }
   }"

text \<open>The tail both switches share: make \<open>next\<close> current, then load its page table, its kernel stack and
  its domain, and switch to its context.\<close>

definition switch_to :: "nat \<Rightarrow> scheduler \<Rightarrow> kernel \<Rightarrow> kernel option" where
  "switch_to nxt s k = do {
     ksp \<leftarrow> kernel_stack_top (khhdm k) s nxt;
     t \<leftarrow> idx (tasks s) nxt;
     let c1 = activate_space (kt_space t) (cpu k);
         c2 = (case ksp of Some tp \<Rightarrow> c1\<lparr>kstack := Some tp\<rparr> | None \<Rightarrow> c1)
     in Some (k\<lparr>sched := Some (s\<lparr>current := nxt\<rparr>), cpu := c2\<lparr>cpu_domain := kt_domain t, running := nxt\<rparr>\<rparr>)
   }"

definition schedule :: "kernel \<Rightarrow> kernel option" where
  "schedule k = do {
     s \<leftarrow> sched k;
     case pick_next s of
       Some nxt \<Rightarrow> if nxt \<noteq> current s then switch_to nxt s k else Some k
     | None \<Rightarrow> Some k
   }"

definition yield_now :: "kernel \<Rightarrow> kernel option" where "yield_now k = schedule k"
definition preempt :: "kernel \<Rightarrow> kernel option" where "preempt k = schedule k"

text \<open>The launcher takes the body; the body then runs, and \<open>task_exit\<close> follows it.\<close>

definition task_enter :: "kernel \<Rightarrow> (nat option \<times> kernel) option" where
  "task_enter k = do {
     s \<leftarrow> sched k;
     t \<leftarrow> idx (tasks s) (current s);
     Some (kt_body t, k\<lparr>sched := Some (s\<lparr>tasks := (tasks s)[current s := t\<lparr>kt_body := None\<rparr>]\<rparr>)\<rparr>)
   }"

text \<open>\<open>task_exit\<close>: the mark, and one round of its endless loop (switch away, or wait for an interrupt).\<close>

definition exit_round :: "kernel \<Rightarrow> kernel option" where
  "exit_round k = do {
     s \<leftarrow> sched k;
     case pick_next s of Some nxt \<Rightarrow> switch_to nxt s k | None \<Rightarrow> Some k
   }"

definition task_exit :: "kernel \<Rightarrow> kernel option" where
  "task_exit k = do {
     s \<leftarrow> sched k;
     t \<leftarrow> idx (tasks s) (current s);
     exit_round (k\<lparr>sched := Some (s\<lparr>tasks := (tasks s)[current s := t\<lparr>kt_state := Finished\<rparr>]\<rparr>)\<rparr>)
   }"

definition exit_current :: "kernel \<Rightarrow> kernel option" where "exit_current k = task_exit k"

definition reapable :: "nat \<Rightarrow> ktask \<Rightarrow> bool" where
  "reapable pid t \<longleftrightarrow> proc_id t = Some pid \<and> kt_state t = Finished"

definition reap_finished :: "nat \<Rightarrow> kernel \<Rightarrow> (address_space option \<times> kernel) option" where
  "reap_finished pid k = do {
     s \<leftarrow> sched k;
     case find (\<lambda>i. reapable pid (tasks s ! i)) (rev [0..<length (tasks s)]) of
       None \<Rightarrow> Some (None, k)
     | Some i \<Rightarrow>
         let t = tasks s ! i;
             k' = k\<lparr>sched := Some (s\<lparr>tasks := (tasks s)[i := t\<lparr>stack_phys := None, kt_state := Reaped\<rparr>]\<rparr>)\<rparr>
         in (case stack_phys t of
               None \<Rightarrow> Some (Some (kt_space t), k')
             | Some block \<Rightarrow> do {
                 stack_base_phys \<leftarrow> checked_add block (BLOCK_BYTES - STACK_BYTES);
                 guard_phys \<leftarrow> checked_sub stack_base_phys PAGE;
                 _ \<leftarrow> phys_to_virt (khhdm k) guard_phys;
                 g \<leftarrow> mem_free_frames (kframes k) block;
                 Some (Some (kt_space t), k'\<lparr>guards := removeAll guard_phys (guards k), kframes := g\<rparr>)
               })
   }"

definition on_tick :: "kernel \<Rightarrow> (bool \<times> kernel) option" where
  "on_tick k = do {
     s \<leftarrow> sched k;
     t \<leftarrow> idx (tasks s) (current s);
     let s' = s\<lparr>tasks := (tasks s)[current s := t\<lparr>kt_budget := charge (kt_budget t) 1\<rparr>]\<rparr>
     in Some (runnable_besides s' (current s) > 0, k\<lparr>sched := Some s'\<rparr>)
   }"

section \<open>Picking the next task\<close>

lemma pick_next_Some:
  assumes "pick_next s = Some i"
  shows "i < length (tasks s)" "runnable (tasks s ! i)"
    and "\<exists>d. 1 \<le> d \<and> d \<le> length (tasks s) \<and> i = (current s + d) mod length (tasks s)
      \<and> (\<forall>e. 1 \<le> e \<and> e < d \<longrightarrow> \<not> runnable (tasks s ! ((current s + e) mod length (tasks s))))"
proof -
  let ?n = "length (tasks s)"
  obtain j where j: "j < ?n" "i = (current s + Suc j) mod ?n" "runnable (tasks s ! i)"
    "\<forall>e<j. \<not> runnable (tasks s ! ((current s + Suc e) mod ?n))"
    using assms by (auto simp: pick_next_def Let_def find_Some_iff simp del: upt_Suc)
  then show "runnable (tasks s ! i)" by simp
  show "i < ?n" unfolding j(2) using j(1) by (intro mod_less_divisor) linarith
  have "\<not> runnable (tasks s ! ((current s + e) mod ?n))" if "1 \<le> e" "e < Suc j" for e using j(4) that by (cases e) auto
  then show "\<exists>d. 1 \<le> d \<and> d \<le> ?n \<and> i = (current s + d) mod ?n \<and> (\<forall>e. 1 \<le> e \<and> e < d \<longrightarrow> \<not> runnable (tasks s ! ((current s + e) mod ?n)))"
    using j(1,2) by (intro exI [of _ "Suc j"]) auto
qed

text \<open>How far ahead of the current task a task is, round the table.\<close>

definition ahead :: "scheduler \<Rightarrow> nat \<Rightarrow> nat" where
  "ahead s i = (i + length (tasks s) - current s) mod length (tasks s)"

lemma ahead_at:
  assumes "current s < length (tasks s)" "i < length (tasks s)"
  shows "(current s + ahead s i) mod length (tasks s) = i" "ahead s i = 0 \<longleftrightarrow> i = current s" "ahead s i < length (tasks s)"
proof -
  let ?n = "length (tasks s)"
  show "(current s + ahead s i) mod ?n = i" using assms by (simp add: ahead_def mod_simps)
  show "ahead s i < ?n" unfolding ahead_def using assms by (intro mod_less_divisor) linarith
  show "ahead s i = 0 \<longleftrightarrow> i = current s"
    using \<open>(current s + ahead s i) mod ?n = i\<close> assms by (auto simp: ahead_def)
qed

lemma ahead_unique:
  assumes "current s < length (tasks s)" "x < length (tasks s)" "(current s + x) mod length (tasks s) = i"
  shows "ahead s i = x"
  using assms by (cases "current s + x < length (tasks s)") (auto simp: ahead_def le_mod_geq)

lemma pick_next_None:
  assumes "current s < length (tasks s)"
  shows "pick_next s = None \<longleftrightarrow> (\<forall>i<length (tasks s). \<not> runnable (tasks s ! i))"
proof -
  let ?n = "length (tasks s)"
  have "\<exists>d. 1 \<le> d \<and> d < ?n + 1 \<and> i = (current s + d) mod ?n" if i: "i < ?n" for i
    using ahead_at [OF assms i] assms i
    by (cases "ahead s i = 0") (auto intro: exI [of _ ?n] exI [of _ "ahead s i"])
  moreover have "(current s + d) mod ?n < ?n" for d using assms by (intro mod_less_divisor) linarith
  ultimately have "set (map (\<lambda>d. (current s + d) mod ?n) [1..<?n + 1]) = {..<?n}" by (fastforce simp del: upt_Suc simp: image_iff)
  then show ?thesis unfolding pick_next_def Let_def find_None_iff by auto
qed

lemma pick_next_closer:
  assumes c: "current s < length (tasks s)" and i: "i < length (tasks s)" "runnable (tasks s ! i)" "i \<noteq> current s"
  shows "\<exists>j. pick_next s = Some j \<and> j \<noteq> current s \<and> ahead (s\<lparr>current := j\<rparr>) i < ahead s i"
proof -
  let ?n = "length (tasks s)"
  note a = ahead_at [OF c i(1)]
  obtain j where j: "pick_next s = Some j" using pick_next_None [OF c] i by (cases "pick_next s") auto
  obtain d where d: "1 \<le> d" "d \<le> ?n" "j = (current s + d) mod ?n"
    "\<And>e. 1 \<le> e \<Longrightarrow> e < d \<Longrightarrow> \<not> runnable (tasks s ! ((current s + e) mod ?n))" using pick_next_Some(3) [OF j] by blast
  have le: "d \<le> ahead s i" using d(4) [of "ahead s i"] a i(2,3) by (metis leI less_one linorder_not_less)
  have "ahead (s\<lparr>current := j\<rparr>) i = ahead s i - d"
  proof -
    have jn: "j < ?n" using pick_next_Some(1) [OF j] .
    have "(j + (ahead s i - d)) mod ?n = (current s + d + (ahead s i - d)) mod ?n" unfolding d(3) by (simp add: mod_add_left_eq)
    then have "(j + (ahead s i - d)) mod ?n = i" using a(1) le by simp
    then show ?thesis using jn a(3) by (intro ahead_unique) auto
  qed
  moreover have "j \<noteq> current s"
    using d(1,3) le a(3) c by (cases "current s + d < ?n") (auto simp: le_mod_geq)
  ultimately show ?thesis using j d(1) le by auto
qed

section \<open>The invariant\<close>

text \<open>
  \<open>U\<close> is the set of frames the allocator manages and \<open>E\<close> the blocks held elsewhere in the kernel.
  The table part: stacks are held blocks, one per task; their guards are exactly the unmapped
  frames.  The processor part: what is programmed belongs to the current task.
\<close>

definition stack_list :: "ktask list \<Rightarrow> u64 list" where
  "stack_list ts = concat (map (\<lambda>t. case stack_phys t of None \<Rightarrow> [] | Some b \<Rightarrow> [b]) ts)"

abbreviation stacks :: "scheduler \<Rightarrow> u64 set" where "stacks s \<equiv> set (stack_list (tasks s))"

lemma stack_list_simps [simp]:
  "stack_list [] = []" "stack_list (ts @ us) = stack_list ts @ stack_list us"
  "stack_list (t # ts) = (case stack_phys t of None \<Rightarrow> [] | Some b \<Rightarrow> [b]) @ stack_list ts"
  by (simp_all add: stack_list_def)

lemma stack_list_nth: "i < length ts \<Longrightarrow> stack_phys (ts ! i) = Some b \<Longrightarrow> b \<in> set (stack_list ts)"
  by (auto simp: stack_list_def intro!: bexI [of _ "ts ! i"])

lemma stack_list_same:
  "i < length ts \<Longrightarrow> stack_phys t = stack_phys (ts ! i) \<Longrightarrow> stack_list (ts[i := t]) = stack_list ts"
  unfolding stack_list_def map_update by (simp add: map_update [symmetric]) (metis (no_types, lifting) length_map list_update_id nth_map map_update)

lemma stack_list_take:
  assumes "i < length ts" "stack_phys (ts ! i) = Some b" "distinct (stack_list ts)" "stack_phys t = None"
  shows "distinct (stack_list (ts[i := t]))" "set (stack_list (ts[i := t])) = set (stack_list ts) - {b}"
proof -
  have ts: "stack_list ts = stack_list (take i ts) @ b # stack_list (drop (Suc i) ts)"
    using assms(1,2) by (subst id_take_nth_drop [OF assms(1)]) simp
  have ts': "stack_list (ts[i := t]) = stack_list (take i ts) @ stack_list (drop (Suc i) ts)"
    using assms(1,4) by (simp add: upd_conv_take_nth_drop)
  show "distinct (stack_list (ts[i := t]))" "set (stack_list (ts[i := t])) = set (stack_list ts) - {b}"
    using assms(3) unfolding ts ts' by auto
qed

definition task_ok :: "ktask \<Rightarrow> bool" where
  "task_ok t \<longleftrightarrow> primary (kt_space t) \<noteq> 0 \<and> (kt_state t = Reaped \<longrightarrow> stack_phys t = None)"

definition guard_of :: "u64 \<Rightarrow> u64" where "guard_of b = b + 0x3000"

definition stack_blocks :: "scheduler \<Rightarrow> (u64 \<times> nat) set" where
  "stack_blocks s = (\<lambda>b. (b, GUARDED_STACK_ORDER)) ` stacks s"

definition table_inv :: "nat set \<Rightarrow> (u64 \<times> nat) set \<Rightarrow> scheduler \<Rightarrow> kernel \<Rightarrow> bool" where
  "table_inv U E s k \<longleftrightarrow> current s < length (tasks s) \<and> distinct (stack_list (tasks s)) \<and> (\<forall>t\<in>set (tasks s). task_ok t)
     \<and> frames_ok U (kframes k) (E \<union> stack_blocks s) \<and> E \<inter> stack_blocks s = {}
     \<and> set (guards k) = guard_of ` stacks s
     \<and> U \<subseteq> {..<2 ^ 20} \<and> unat (khhdm k) + 2 ^ 33 \<le> 2 ^ 64 \<and> primary (kernel_space k) \<noteq> 0"

definition cpu_inv :: "scheduler \<Rightarrow> kernel \<Rightarrow> bool" where
  "cpu_inv s k \<longleftrightarrow> (let t = tasks s ! current s; c = cpu k in
     running c = current s \<and> loaded c = kt_space t \<and> cpu_domain c = kt_domain t
     \<and> (active c = loaded c \<or> primary (active c) = 0)
     \<and> (\<forall>b. stack_phys t = Some b \<longrightarrow> kstack c = Some (khhdm k + b + BLOCK_BYTES)))"

definition kinv :: "nat set \<Rightarrow> (u64 \<times> nat) set \<Rightarrow> kernel \<Rightarrow> bool" where
  "kinv U E k \<longleftrightarrow> (\<exists>s. sched k = Some s \<and> table_inv U E s k \<and> cpu_inv s k)"

lemma block_bound:
  assumes ok: "frames_ok U g H" and U: "U \<subseteq> {..<2 ^ 20}" and b: "(b, k) \<in> H"
  shows "unat b + 4096 * 2 ^ k \<le> 2 ^ 32"
proof -
  obtain p where p: "b = phys p" "p < 2 ^ 32"
    using ok b unfolding frames_ok_def by (fastforce dest: buddy_okD(1))
  have "{p..<p + 2 ^ k} \<subseteq> {..<2 ^ 20}" using frames_ok_blocks(2) [OF ok b] U unat_phys [OF p(2)] by (auto simp: pframes_def p(1))
  moreover have "(1 :: nat) \<le> 2 ^ k" by simp
  then have "p + 2 ^ k - 1 \<in> {p..<p + 2 ^ k}" unfolding atLeastLessThan_iff by linarith
  ultimately have "p + 2 ^ k - 1 \<in> {..<2 ^ 20}" by (rule subsetD)
  then have "p + 2 ^ k \<le> 2 ^ 20" unfolding lessThan_iff by linarith
  moreover have "unat b = 4096 * p" using p by (simp add: phys_def unat_pfn_to_phys unat_of_nat)
  ultimately show ?thesis by auto
qed

lemma stack_arith:
  assumes "unat b + 4096 * 2 ^ 3 \<le> 2 ^ 32" "unat h + 2 ^ 33 \<le> 2 ^ 64"
  shows "checked_add b (BLOCK_BYTES - STACK_BYTES) = Some (b + 0x4000)" "checked_sub (b + 0x4000) PAGE = Some (guard_of b)"
    "phys_to_virt h b = Some (h + b)" "checked_add (h + b) BLOCK_BYTES = Some (h + b + BLOCK_BYTES)"
    "\<exists>v. phys_to_virt h (guard_of b) = Some v"
proof -
  have u: "unat (b + 0x4000) = unat b + 0x4000" "unat (guard_of b) = unat b + 0x3000" "unat (h + b) = unat h + unat b"
    using assms by (auto simp: guard_of_def unat_word_ariths)
  show "checked_add b (BLOCK_BYTES - STACK_BYTES) = Some (b + 0x4000)" using u by (simp add: BLOCK_BYTES_def STACK_BYTES_def checked_add_Some)
  show "checked_sub (b + 0x4000) PAGE = Some (guard_of b)" using u by (auto simp: checked_sub_def PAGE_def guard_of_def word_le_nat_alt)
  show "phys_to_virt h b = Some (h + b)" using u by (simp add: phys_to_virt_def checked_add_Some add.commute)
  show "checked_add (h + b) BLOCK_BYTES = Some (h + b + BLOCK_BYTES)" using u assms by (simp add: checked_add_def BLOCK_BYTES_def)
  show "\<exists>v. phys_to_virt h (guard_of b) = Some v" using u assms by (simp add: phys_to_virt_def checked_add_def)
qed

lemma table_stack:
  assumes "table_inv U E s k" "i < length (tasks s)" "stack_phys (tasks s ! i) = Some b"
  shows "(b, 3) \<in> E \<union> stack_blocks s" "unat b + 4096 * 2 ^ 3 \<le> 2 ^ 32" "unat (khhdm k) + 2 ^ 33 \<le> 2 ^ 64"
proof -
  show "(b, 3) \<in> E \<union> stack_blocks s" using assms(2,3) stack_list_nth by (auto simp: stack_blocks_def GUARDED_STACK_ORDER_def)
  moreover have "frames_ok U (kframes k) (E \<union> stack_blocks s)" "U \<subseteq> {..<2 ^ 20}" using assms(1) by (auto simp: table_inv_def)
  ultimately show "unat b + 4096 * 2 ^ 3 \<le> 2 ^ 32" by (intro block_bound)
  show "unat (khhdm k) + 2 ^ 33 \<le> 2 ^ 64" using assms(1) by (simp add: table_inv_def)
qed

lemma switch_to_inv:
  assumes t: "table_inv U E s k" and c: "cpu_inv s k" and i: "i < length (tasks s)"
  shows "\<exists>k'. switch_to i s k = Some k' \<and> sched k' = Some (s\<lparr>current := i\<rparr>) \<and> kinv U E k'"
proof -
  let ?t = "tasks s ! i"
  have p: "primary (kt_space ?t) \<noteq> 0" using t i by (auto simp: table_inv_def task_ok_def)
  obtain top where ks: "kernel_stack_top (khhdm k) s i = Some top"
    "\<And>b. stack_phys ?t = Some b \<Longrightarrow> top = Some (khhdm k + b + BLOCK_BYTES)"
    using stack_arith [OF table_stack(2,3) [OF t i]] i by (cases "stack_phys ?t") (auto simp: kernel_stack_top_def idx_def)
  have a: "loaded (activate_space (kt_space ?t) (cpu k)) = kt_space ?t" "active (activate_space (kt_space ?t) (cpu k)) = kt_space ?t"
    using c p by (auto simp: activate_space_def cpu_inv_def Let_def)
  have t': "table_inv U E (s\<lparr>current := i\<rparr>) (k\<lparr>sched := x, cpu := y\<rparr>)" for x y
    using t i by (simp add: table_inv_def stack_blocks_def)
  have "\<exists>k'. switch_to i s k = Some k' \<and> sched k' = Some (s\<lparr>current := i\<rparr>) \<and> table_inv U E (s\<lparr>current := i\<rparr>) k' \<and> cpu_inv (s\<lparr>current := i\<rparr>) k'"
    using i ks a t' by (auto simp: switch_to_def idx_def Let_def cpu_inv_def split: option.splits)
  then show ?thesis unfolding kinv_def by blast
qed

text \<open>A change to one task that keeps what it owns.\<close>

lemma table_inv_update:
  assumes "table_inv U E s k" "i < length (tasks s)" "stack_phys t = stack_phys (tasks s ! i)" "task_ok t"
    "kframes k' = kframes k" "guards k' = guards k" "khhdm k' = khhdm k" "kernel_space k' = kernel_space k"
  shows "table_inv U E (s\<lparr>tasks := (tasks s)[i := t]\<rparr>) k'"
proof -
  have "stack_list ((tasks s)[i := t]) = stack_list (tasks s)" using assms(2,3) by (rule stack_list_same)
  then show ?thesis using assms set_update_subset_insert [of "tasks s" i t] by (auto simp: table_inv_def stack_blocks_def)
qed

lemma cpu_inv_update:
  assumes "cpu_inv s k" "i < length (tasks s)" "t' = (if i = current s then t else tasks s ! current s)"
    "stack_phys t' = stack_phys (tasks s ! current s)" "kt_space t' = kt_space (tasks s ! current s)"
    "kt_domain t' = kt_domain (tasks s ! current s)" "cpu k' = cpu k" "khhdm k' = khhdm k"
  shows "cpu_inv (s\<lparr>tasks := (tasks s)[i := t]\<rparr>) k'"
  using assms by (auto simp: cpu_inv_def Let_def nth_list_update split: if_splits)

lemma spawn_inner_inv:
  assumes t: "table_inv U E s k" and c: "cpu_inv s k" and s: "sched k = Some s" and sp: "primary sp \<noteq> 0"
  shows "spawn_inner body bud pid dm sp k = None \<and> alloc_frames (kframes k) GUARDED_STACK_ORDER = Some (None, kframes k)
    \<or> (\<exists>k'. spawn_inner body bud pid dm sp k = Some k' \<and> kinv U E k')"
proof -
  have ok: "frames_ok U (kframes k) (E \<union> stack_blocks s)" and U: "U \<subseteq> {..<2 ^ 20}" and h: "unat (khhdm k) + 2 ^ 33 \<le> 2 ^ 64"
    using t by (auto simp: table_inv_def)
  show ?thesis using kernel_frames.alloc_law [OF ok, of GUARDED_STACK_ORDER]
  proof (elim disjE exE conjE)
    fix b g assume a: "alloc_frames (kframes k) GUARDED_STACK_ORDER = Some (Some b, g)"
      "frames_ok U g (insert (b, GUARDED_STACK_ORDER) (E \<union> stack_blocks s))"
    have fresh: "b \<notin> fst ` (E \<union> stack_blocks s)" using kernel_frames.alloc_new_base [OF ok a(1)] .
    then have nb: "b \<notin> stacks s" "(b, GUARDED_STACK_ORDER) \<notin> E" by (force simp: stack_blocks_def image_iff)+
    have "unat b + 4096 * 2 ^ 3 \<le> 2 ^ 32" using block_bound [OF a(2) U insertI1] by (simp add: GUARDED_STACK_ORDER_def)
    note ar = stack_arith [OF this h]
    define nt where "nt = \<lparr>stack_phys = Some b, kt_budget = bud, kt_state = Runnable, kt_body = Some body, proc_id = pid, kt_domain = dm, kt_space = sp\<rparr>"
    define s' where "s' = s\<lparr>tasks := tasks s @ [nt]\<rparr>"
    define k' where "k' = k\<lparr>kframes := g, guards := guard_of b # guards k, sched := Some s'\<rparr>"
    have "spawn_inner body bud pid dm sp k = Some k'"
      using ar(5) by (elim exE) (simp add: spawn_inner_def k'_def s'_def nt_def a(1) ar(1-4) s)
    moreover have "stacks s' = insert b (stacks s)" "distinct (stack_list (tasks s'))"
      using nb(1) t by (auto simp: s'_def nt_def table_inv_def)
    ultimately have "table_inv U E s' k'"
      using t a(2) nb sp by (auto simp: table_inv_def k'_def s'_def nt_def stack_blocks_def task_ok_def)
    moreover have "cpu_inv s' k'" using c t by (auto simp: cpu_inv_def k'_def s'_def Let_def nth_append table_inv_def)
    moreover have "sched k' = Some s'" by (simp add: k'_def)
    ultimately show ?thesis using \<open>spawn_inner body bud pid dm sp k = Some k'\<close> unfolding kinv_def by blast
  qed (simp add: spawn_inner_def)
qed

lemma reap_finished_inv:
  assumes t: "table_inv U E s k" and c: "cpu_inv s k" and s: "sched k = Some s" and n: "kt_state (tasks s ! current s) \<noteq> Finished"
  shows "\<exists>r k'. reap_finished pid k = Some (r, k') \<and> kinv U E k'"
proof (cases "find (\<lambda>i. reapable pid (tasks s ! i)) (rev [0..<length (tasks s)])")
  case None
  then show ?thesis using s t c by (auto simp: reap_finished_def kinv_def)
next
  case (Some i)
  then have i: "i < length (tasks s)" "reapable pid (tasks s ! i)" by (auto simp: find_Some_iff rev_nth)
  then have ic: "i \<noteq> current s" using n by (auto simp: reapable_def)
  define t' where "t' = (tasks s ! i)\<lparr>stack_phys := None, kt_state := Reaped\<rparr>"
  define s' where "s' = s\<lparr>tasks := (tasks s)[i := t']\<rparr>"
  have tk: "task_ok t'" using t i by (auto simp: table_inv_def task_ok_def t'_def)
  have c': "cpu_inv s' k'" if "cpu k' = cpu k" "khhdm k' = khhdm k" for k'
    unfolding s'_def by (rule cpu_inv_update [OF c i(1) refl]) (use ic that in auto)
  show ?thesis
  proof (cases "stack_phys (tasks s ! i)")
    case None
    have "table_inv U E s' (k\<lparr>sched := Some s'\<rparr>)" unfolding s'_def
      by (rule table_inv_update [OF t i(1)]) (use tk None in \<open>auto simp: t'_def\<close>)
    then show ?thesis using Some s None c' unfolding kinv_def
      by (intro exI [of _ "Some (kt_space (tasks s ! i))"] exI [of _ "k\<lparr>sched := Some s'\<rparr>"]) (auto simp: reap_finished_def s'_def t'_def Let_def)
  next
    case b: (Some b)
    note st = table_stack [OF t i(1) b] and ar = stack_arith [OF table_stack(2,3) [OF t i(1) b]]
    have ok: "frames_ok U (kframes k) (E \<union> stack_blocks s)" and E: "E \<inter> stack_blocks s = {}" and own: "distinct (stack_list (tasks s))"
      using t by (auto simp: table_inv_def)
    obtain g where g: "mem_free_frames (kframes k) b = Some g" "frames_ok U g (E \<union> stack_blocks s - {(b, 3)})"
      using kernel_frames.free_law [OF ok st(1)] by blast
    define k' where "k' = k\<lparr>sched := Some s', guards := removeAll (guard_of b) (guards k), kframes := g\<rparr>"
    have r: "reap_finished pid k = Some (Some (kt_space (tasks s ! i)), k')"
      using ar(5) by (elim exE) (simp add: reap_finished_def k'_def s'_def t'_def Let_def Some s b ar(1,2) g(1))
    have bs: "b \<in> stacks s" using i(1) b by (rule stack_list_nth)
    have "stack_phys t' = None" by (simp add: t'_def)
    then have own': "distinct (stack_list (tasks s'))" and stk: "stacks s' = stacks s - {b}"
      using stack_list_take [OF i(1) b own] by (simp_all add: s'_def)
    have "E \<union> stack_blocks s - {(b, 3)} = E \<union> stack_blocks s'"
      using E bs unfolding stack_blocks_def stk GUARDED_STACK_ORDER_def by auto
    moreover have "guard_of ` stacks s - {guard_of b} = guard_of ` stacks s'" unfolding stk guard_of_def by auto
    moreover have "stack_blocks s' \<subseteq> stack_blocks s" unfolding stack_blocks_def stk by auto
    moreover have "\<forall>x\<in>set (tasks s'). task_ok x"
      using t tk set_update_subset_insert [of "tasks s" i t'] by (auto simp: table_inv_def s'_def)
    moreover have "E \<inter> stack_blocks s' = {}" using E \<open>stack_blocks s' \<subseteq> stack_blocks s\<close> by blast
    ultimately have "table_inv U E s' k'"
      using t g(2) own' unfolding table_inv_def k'_def by (simp add: s'_def)
    then show ?thesis using r c' [of k'] unfolding kinv_def by (auto simp: k'_def)
  qed
qed

section \<open>Reachable kernels\<close>

datatype kop = KSpawn nat budget | KSpawnProc nat budget nat u64 address_space | KYield | KPreempt | KTick
  | KEnter | KExit | KExitRound | KReap nat

fun kstep :: "kop \<Rightarrow> kernel \<Rightarrow> kernel option" where
  "kstep (KSpawn body bud) k = spawn body bud k"
| "kstep (KSpawnProc body bud pid dm sp) k = spawn_proc body bud pid dm sp k"
| "kstep KYield k = yield_now k"
| "kstep KPreempt k = preempt k"
| "kstep KTick k = map_option snd (on_tick k)"
| "kstep KEnter k = map_option snd (task_enter k)"
| "kstep KExit k = exit_current k"
| "kstep KExitRound k = exit_round k"
| "kstep (KReap pid) k = map_option snd (reap_finished pid k)"

definition current_state :: "kernel \<Rightarrow> task_state option" where
  "current_state k = do { s \<leftarrow> sched k; t \<leftarrow> idx (tasks s) (current s); Some (kt_state t) }"

text \<open>A process gets a real page table, only a finished task goes on looping in \<open>task_exit\<close>, and the
  supervisor that reaps is itself alive.\<close>

fun kpre :: "kop \<Rightarrow> kernel \<Rightarrow> bool" where
  "kpre (KSpawnProc body bud pid dm sp) k \<longleftrightarrow> primary sp \<noteq> 0"
| "kpre KExitRound k \<longleftrightarrow> current_state k = Some Finished"
| "kpre (KReap pid) k \<longleftrightarrow> current_state k \<noteq> Some Finished"
| "kpre _ k \<longleftrightarrow> True"

inductive kreach :: "kernel \<Rightarrow> kernel \<Rightarrow> bool" for k0 where
  start: "kreach k0 k0"
| step: "kreach k0 k \<Longrightarrow> kpre op k \<Longrightarrow> kstep op k = Some k' \<Longrightarrow> kreach k0 k'"

inductive_cases kreachE: "kreach k0 k"

lemma schedule_inv:
  assumes "kinv U E k" "sched k = Some s"
  shows "\<exists>k'. schedule k = Some k' \<and> kinv U E k'
    \<and> sched k' = Some (s\<lparr>current := (case pick_next s of Some i \<Rightarrow> i | None \<Rightarrow> current s)\<rparr>)"
    and "\<exists>k'. exit_round k = Some k' \<and> kinv U E k'"
proof -
  have i: "table_inv U E s k" "cpu_inv s k" using assms by (auto simp: kinv_def)
  show "\<exists>k'. schedule k = Some k' \<and> kinv U E k'
      \<and> sched k' = Some (s\<lparr>current := (case pick_next s of Some i \<Rightarrow> i | None \<Rightarrow> current s)\<rparr>)"
    using switch_to_inv [OF i pick_next_Some(1)] assms by (auto simp: schedule_def split: option.splits)
  show "\<exists>k'. exit_round k = Some k' \<and> kinv U E k'"
    using switch_to_inv [OF i pick_next_Some(1)] assms by (auto simp: exit_round_def split: option.splits)
qed

text \<open>A change to the current task that keeps what it owns, its page table and its domain.\<close>

lemma kinv_update:
  assumes "table_inv U E s k" "cpu_inv s k" "task_ok t" "stack_phys t = stack_phys (tasks s ! current s)"
    "kt_space t = kt_space (tasks s ! current s)" "kt_domain t = kt_domain (tasks s ! current s)"
  shows "kinv U E (k\<lparr>sched := Some (s\<lparr>tasks := (tasks s)[current s := t]\<rparr>)\<rparr>)"
proof -
  have c: "current s < length (tasks s)" using assms(1) by (simp add: table_inv_def)
  have "table_inv U E (s\<lparr>tasks := (tasks s)[current s := t]\<rparr>) (k\<lparr>sched := Some (s\<lparr>tasks := (tasks s)[current s := t]\<rparr>)\<rparr>)"
    by (rule table_inv_update [OF assms(1) c]) (use assms in auto)
  moreover have "cpu_inv (s\<lparr>tasks := (tasks s)[current s := t]\<rparr>) (k\<lparr>sched := Some (s\<lparr>tasks := (tasks s)[current s := t]\<rparr>)\<rparr>)"
    by (rule cpu_inv_update [OF assms(2) c refl]) (use assms in auto)
  ultimately show ?thesis by (simp add: kinv_def)
qed

fun is_spawn :: "kop \<Rightarrow> bool" where
  "is_spawn (KSpawn _ _) \<longleftrightarrow> True"
| "is_spawn (KSpawnProc _ _ _ _ _) \<longleftrightarrow> True"
| "is_spawn _ \<longleftrightarrow> False"

lemma kstep_inv:
  assumes k: "kinv U E k" and p: "kpre op k"
  shows "(\<exists>k'. kstep op k = Some k' \<and> kinv U E k')
    \<or> is_spawn op \<and> kstep op k = None \<and> alloc_frames (kframes k) GUARDED_STACK_ORDER = Some (None, kframes k)"
proof -
  obtain s where s: "sched k = Some s" "table_inv U E s k" "cpu_inv s k" using k by (auto simp: kinv_def)
  have c: "current s < length (tasks s)" and ks: "primary (kernel_space k) \<noteq> 0" using s(2) by (auto simp: table_inv_def)
  have tk: "task_ok (tasks s ! current s)" using s(2) c by (auto simp: table_inv_def)
  show ?thesis
  proof (cases op)
    case (KSpawn body bud)
    then show ?thesis using spawn_inner_inv [OF s(2,3,1) ks] by (auto simp: spawn_def)
  next
    case (KSpawnProc body bud pid dm sp)
    then have "primary sp \<noteq> 0" using p by simp
    from spawn_inner_inv [OF s(2,3,1) this, of body bud "Some pid" "Some dm"] show ?thesis by (auto simp: KSpawnProc spawn_proc_def)
  next
    case KTick
    have "kinv U E (k\<lparr>sched := Some (s\<lparr>tasks := (tasks s)[current s := (tasks s ! current s)\<lparr>kt_budget := charge (kt_budget (tasks s ! current s)) 1\<rparr>]\<rparr>)\<rparr>)"
      by (rule kinv_update [OF s(2,3)]) (use tk in \<open>auto simp: task_ok_def\<close>)
    then show ?thesis using KTick s(1) c by (simp add: on_tick_def idx_def Let_def)
  next
    case KEnter
    have "kinv U E (k\<lparr>sched := Some (s\<lparr>tasks := (tasks s)[current s := (tasks s ! current s)\<lparr>kt_body := None\<rparr>]\<rparr>)\<rparr>)"
      by (rule kinv_update [OF s(2,3)]) (use tk in \<open>auto simp: task_ok_def\<close>)
    then show ?thesis using KEnter s(1) c by (simp add: task_enter_def idx_def)
  next
    case KExit
    have "kinv U E (k\<lparr>sched := Some (s\<lparr>tasks := (tasks s)[current s := (tasks s ! current s)\<lparr>kt_state := Finished\<rparr>]\<rparr>)\<rparr>)"
      by (rule kinv_update [OF s(2,3)]) (use tk in \<open>auto simp: task_ok_def\<close>)
    from schedule_inv(2) [OF this] show ?thesis using KExit s(1) c by (simp add: exit_current_def task_exit_def idx_def)
  next
    case (KReap pid)
    then have "kt_state (tasks s ! current s) \<noteq> Finished" using p s(1) c by (simp add: current_state_def idx_def)
    from reap_finished_inv [OF s(2,3,1) this, of pid] show ?thesis using KReap by auto
  qed (use schedule_inv [OF k s(1)] in \<open>auto simp: yield_now_def preempt_def\<close>)
qed

lemma kreach_inv: "kreach k0 k \<Longrightarrow> kinv U E k0 \<Longrightarrow> kinv U E k"
proof (induction rule: kreach.induct)
  case (step k op k')
  then show ?case using kstep_inv [of U E k op] by auto
qed

text \<open>The kernel when the scheduler is installed: frames \<open>g\<close> already bootstrapped, the kernel's own page
  table loaded, nothing yet cached or programmed.\<close>

definition boot_kernel :: "frames_state \<Rightarrow> u64 \<Rightarrow> address_space \<Rightarrow> kernel" where
  "boot_kernel g h ksp = \<lparr>sched = None, cpu = \<lparr>loaded = ksp, active = \<lparr>primary = 0, secondary = 0\<rparr>, kstack = None,
     cpu_domain = None, running = 0\<rparr>, kframes = g, khhdm = h, kernel_space = ksp, guards = []\<rparr>"

lemma bootstrap_inv:
  assumes "frames_ok U g E" "U \<subseteq> {..<2 ^ 20}" "unat h + 2 ^ 33 \<le> 2 ^ 64" "primary ksp \<noteq> 0"
  shows "kinv U E (bootstrap (boot_kernel g h ksp))"
  using assms by (simp add: kinv_def bootstrap_def boot_kernel_def table_inv_def cpu_inv_def task_ok_def stack_blocks_def Let_def)

text \<open>A kernel reached from a boot: the memory map was taken in, frames \<open>h\<close> were allocated before the
  scheduler was installed, and the scheduler then took any steps.\<close>

definition booted :: "(u64 \<Rightarrow> mem_region) \<Rightarrow> warden_boot_info \<Rightarrow> boot_memory \<Rightarrow> (u64 \<times> nat) list \<Rightarrow> kernel \<Rightarrow> bool" where
  "booted region_at bi bm h k \<longleftrightarrow> mem_init region_at bi = Ok bm \<and> unat (hhdm_offset bi) + 2 ^ 33 \<le> 2 ^ 64
     \<and> (\<exists>ops g ksp. pre_ops fr_step fr_pre ops (Some (bm_frames bm), []) \<and> run_ops fr_step ops (Some (bm_frames bm), []) = (g, h)
          \<and> primary ksp \<noteq> 0 \<and> kreach (bootstrap (boot_kernel g (hhdm_offset bi) ksp)) k)"

lemma booted_inv:
  assumes "booted region_at bi bm h k"
  shows "\<exists>U. kinv U (set h) k \<and> distinct h \<and> (\<forall>p\<in>U. usable_frame region_at bi p)
    \<and> card U + bm_desc_frames bm = bm_total_pages bm"
proof -
  obtain ops g ksp where b: "mem_init region_at bi = Ok bm" "unat (hhdm_offset bi) + 2 ^ 33 \<le> 2 ^ 64"
    "pre_ops fr_step fr_pre ops (Some (bm_frames bm), [])" "run_ops fr_step ops (Some (bm_frames bm), []) = (g, h)"
    "primary ksp \<noteq> 0" "kreach (bootstrap (boot_kernel g (hhdm_offset bi) ksp)) k" using assms by (auto simp: booted_def)
  obtain U where U: "frames_ok U (Some (bm_frames bm)) {}" "\<forall>p\<in>U. usable_frame region_at bi p"
    "card U + bm_desc_frames bm = bm_total_pages bm" using mem_init_cases(2) [OF b(1)] by blast
  have "fr_inv U (g, h)" using frame_machine.run_inv [OF _ b(3), of U] U(1) b(4) by simp
  then have g: "frames_ok U g (set h)" "distinct h" by auto
  have "U \<subseteq> {..<2 ^ 20}" using U(2) by (auto simp: usable_frame_def)
  from kreach_inv [OF b(6) bootstrap_inv [OF g(1) this b(2,5)]] show ?thesis using U(2,3) g(2) by blast
qed

fun ticks :: "bool list \<Rightarrow> kernel \<Rightarrow> kernel option" where
  "ticks [] k = Some k"
| "ticks (True # bs) k = Option.bind (schedule k) (ticks bs)"
| "ticks (False # bs) k = Option.bind (on_tick k) (ticks bs \<circ> snd)"

lemma ticks_serve:
  assumes "kinv U E k" "sched k = Some s" "i < length (tasks s)" "runnable (tasks s ! i)" "ahead s i \<le> length (filter (\<lambda>b. b) bs)"
  shows "\<exists>m\<le>length bs. \<exists>k' s'. ticks (take m bs) k = Some k' \<and> sched k' = Some s' \<and> current s' = i"
  using assms
proof (induction bs arbitrary: k s)
  case (Cons b bs)
  have t: "table_inv U E s k" "cpu_inv s k" using Cons.prems(1,2) by (auto simp: kinv_def)
  then have c: "current s < length (tasks s)" by (simp add: table_inv_def)
  show ?case
  proof (cases "i = current s")
    case True then show ?thesis using Cons.prems(2) by (intro exI [of _ 0]) auto
  next
    case ne: False
    have "\<exists>k1 s1. ticks (take (Suc m) (b # bs)) k = ticks (take m bs) k1 \<and> sched k1 = Some s1 \<and> kinv U E k1
      \<and> tasks s1 ! i = tasks s ! i \<and> length (tasks s1) = length (tasks s) \<and> ahead s1 i \<le> length (filter (\<lambda>b. b) bs)" for m
    proof (cases b)
      case True
      obtain j where j: "pick_next s = Some j" "ahead (s\<lparr>current := j\<rparr>) i < ahead s i" using pick_next_closer [OF c Cons.prems(3,4) ne] by blast
      obtain k1 where "schedule k = Some k1" "kinv U E k1" "sched k1 = Some (s\<lparr>current := j\<rparr>)"
        using schedule_inv(1) [OF Cons.prems(1,2)] j(1) by auto
      then show ?thesis using True j(2) Cons.prems(5) by (intro exI [of _ k1] exI [of _ "s\<lparr>current := j\<rparr>"]) auto
    next
      case False
      obtain k1 where k1: "kstep KTick k = Some k1" "kinv U E k1"
        using kstep_inv [OF Cons.prems(1), of KTick] Cons.prems(2) c by (auto simp: on_tick_def idx_def Let_def)
      obtain r where r: "on_tick k = Some (r, k1)" using k1(1) by auto
      then obtain s1 where "sched k1 = Some s1" "current s1 = current s" "tasks s1 ! i = tasks s ! i" "length (tasks s1) = length (tasks s)"
        using Cons.prems(2) c ne by (auto simp: on_tick_def idx_def Let_def)
      then show ?thesis using False k1 r Cons.prems(5) by (intro exI [of _ k1] exI [of _ s1]) (auto simp: ahead_def)
    qed
    note nxt = this
    from nxt [of 0] obtain k1 s1 where k1: "ticks [b] k = Some k1" "sched k1 = Some s1" "kinv U E k1"
      "tasks s1 ! i = tasks s ! i" "length (tasks s1) = length (tasks s)" "ahead s1 i \<le> length (filter (\<lambda>b. b) bs)" by auto
    obtain m k' s' where m: "m \<le> length bs" "ticks (take m bs) k1 = Some k'" "sched k' = Some s'" "current s' = i"
      using Cons.IH [OF k1(3,2)] k1(4-6) Cons.prems(3,4) by auto
    have "ticks (take (Suc m) (b # bs)) k = Some k'"
      using k1(1) m(2) by (cases b) (auto simp: bind_eq_Some_conv)
    then show ?thesis using m by (intro exI [of _ "Suc m"]) auto
  qed
qed (use ahead_at(2) in \<open>auto simp: kinv_def table_inv_def\<close>)

section \<open>A concrete boot\<close>

definition demo_map :: "u64 \<Rightarrow> mem_region" where
  "demo_map a = \<lparr>mr_base = 0x7000, mr_pages = 16, mr_kind = USABLE, mr_pad = 0\<rparr>"

definition demo_info :: warden_boot_info where
  "demo_info = demo_boot_info\<lparr>memmap := \<lparr>mm_regions = 0x2000, mm_count = 1\<rparr>\<rparr>"

definition demo_buddy :: buddy where
  "demo_buddy = \<lparr>desc = (replicate 16 RESERVED)[1 := RESERVED\<lparr>fd_free := True\<rparr>, 2 := RESERVED\<lparr>fd_order := 1, fd_free := True\<rparr>,
       4 := RESERVED\<lparr>fd_order := 2, fd_free := True\<rparr>, 8 := RESERVED\<lparr>fd_order := 3, fd_free := True\<rparr>],
     heads = [1, 2, 4, 8] @ replicate 15 NIL_FRAME, nframes = 16, bfree = 15\<rparr>"

definition demo_mem :: boot_memory where
  "demo_mem = \<lparr>bm_frames = \<lparr>fa_buddy = demo_buddy, base_pfn = 7\<rparr>, bm_span = 16, bm_desc_start = 7, bm_desc_frames = 1,
     bm_total_pages = 16, bm_zeroed = [(0x7000, 192)]\<rparr>"

definition demo_space :: "u64 \<Rightarrow> address_space" where "demo_space r = \<lparr>primary = r, secondary = 0\<rparr>"

definition demo_start :: kernel where
  "demo_start = bootstrap (boot_kernel (Some (bm_frames demo_mem)) 0 (demo_space 0x1000))"

definition demo_kernel :: kernel where
  "demo_kernel = demo_start\<lparr>
     sched := Some \<lparr>tasks = tasks (the (sched demo_start)) @ [\<lparr>stack_phys = Some 0xF000, kt_budget = budget_new 3 3, kt_state = Runnable,
         kt_body = Some 1, proc_id = Some 0, kt_domain = Some 5, kt_space = demo_space 0x2000\<rparr>], current = 1\<rparr>,
     cpu := \<lparr>loaded = demo_space 0x2000, active = demo_space 0x2000, kstack = Some 0x17000, cpu_domain = Some 5, running = 1\<rparr>,
     kframes := Some \<lparr>fa_buddy = demo_buddy\<lparr>desc := (desc demo_buddy)[8 := RESERVED\<lparr>fd_order := 3\<rparr>],
         heads := [1, 2, 4] @ replicate 16 NIL_FRAME, bfree := 7\<rparr>, base_pfn = 7\<rparr>,
     guards := [0x12000]\<rparr>"

lemma demo_mem_init: "mem_init demo_map demo_info = Ok demo_mem"
proof -
  have d: "desc_frames 16 = 1" and z: "zero_range 0 (pfn_to_phys 7) (desc_bytes 16) = Some (0x7000, 192)" by code_simp+
  have r: "release_ranges 7 7 1 (buddy_new (replicate 16 ZERO_DESC)) [(7, 23)] = Some demo_buddy" by code_simp
  have "build_frames 0 [(7, 23)] = Ok demo_mem"
    by (simp add: build_frames_def idx_def sub_w_def d z r demo_mem_def del: release_ranges.simps One_nat_def)
  moreover have "region_slice demo_map demo_info = Some [demo_map 0x2000]" by code_simp
  moreover have "collect_usable [] [demo_map 0x2000] = Inr [(7, 23)]" by code_simp
  ultimately show ?thesis by (simp add: mem_init_def demo_info_def demo_boot_info_def)
qed

lemma demo_run:
  "Option.bind (kstep (KSpawnProc 1 (budget_new 3 3) 0 5 (demo_space 0x2000)) demo_start) (kstep KYield) = Some demo_kernel"
  by code_simp

lemma demo_booted: "booted demo_map demo_info demo_mem [] demo_kernel"
proof -
  obtain k1 where k1: "kstep (KSpawnProc 1 (budget_new 3 3) 0 5 (demo_space 0x2000)) demo_start = Some k1" "kstep KYield k1 = Some demo_kernel"
    using demo_run by (auto simp: bind_eq_Some_conv)
  have "kreach demo_start k1" by (rule kreach.step [OF kreach.start _ k1(1)]) (simp add: demo_space_def)
  then have "kreach demo_start demo_kernel" by (rule kreach.step [OF _ _ k1(2)]) simp
  moreover have "hhdm_offset demo_info = 0" by (simp add: demo_info_def demo_boot_info_def)
  ultimately show ?thesis unfolding booted_def
    by (intro conjI demo_mem_init exI [of _ "[]"] exI [of _ "Some (bm_frames demo_mem)"] exI [of _ "demo_space 0x1000"])
       (simp_all add: demo_start_def demo_space_def)
qed

lemma demo_sched: "sched demo_kernel = Some (the (sched demo_kernel))" "map stack_phys (tasks (the (sched demo_kernel))) = [None, Some 0xF000]"
  "current (the (sched demo_kernel)) = 1"
  by (simp_all add: demo_kernel_def demo_start_def bootstrap_def)

section \<open>Properties\<close>







end
