(* ===== verification/Arch_Paging.thy ===== *)
theory Arch_Paging
  imports Kernel_Memory Arch_Seam
begin

text \<open>
  The x86-64 page tables, \<^verbatim>\<open>src/kernel/src/arch/x86_64/paging.rs\<close>: construction of the kernel's address
  space, per-process clones, mapping, guard pages, and the walk of the active tables.  Physical
  memory is modelled where it holds page tables: \<open>ptab m t i\<close> is the 64-bit entry \<open>i\<close> of the table
  in the frame at physical address \<open>t\<close>.  Tables come from the kernel's frame allocator.  \<open>None\<close> is
  a panic: a failed assertion, no frame for a table, or an overflow of the direct-map address.  The
  addresses passed to \<open>invlpg\<close> are logged.
\<close>

unbundle bit_operations_syntax

definition PRESENT :: u64 where "PRESENT = 0x1"
definition WRITABLE :: u64 where "WRITABLE = 0x2"
definition USER :: u64 where "USER = 0x4"
definition HUGE :: u64 where "HUGE = 0x80"
definition NX :: u64 where "NX = 0x8000000000000000"
definition ADDR_MASK :: u64 where "ADDR_MASK = 0x000ffffffffff000"
definition PAGE :: u64 where "PAGE = 4096"
definition GIB :: u64 where "GIB = 0x40000000"
definition PKEY_SHIFT :: nat where "PKEY_SHIFT = 59"

definition pkey_bits :: "u64 \<Rightarrow> u64" where
  "pkey_bits pkey = push_bit PKEY_SHIFT (pkey AND 0xf)"

record vm =
  vframes :: frames_state
  vhhdm :: u64
  ptab :: "u64 \<Rightarrow> nat \<Rightarrow> u64"
  cr3 :: u64
  KERNEL_PML4 :: u64
  invlpgs :: "u64 list"

definition pt_idx :: "u64 \<Rightarrow> nat \<Rightarrow> nat" where
  "pt_idx vaddr level = unat (drop_bit (12 + 9 * level) vaddr AND 0x1ff)"

definition alloc_table :: "vm \<Rightarrow> (u64 \<times> vm) option" where
  "alloc_table m = do {
     (r, zs, g) \<leftarrow> alloc_zeroed_frame (vhhdm m) (vframes m);
     pa \<leftarrow> r;
     Some (pa, m\<lparr>vframes := g, ptab := fold (\<lambda>(z, _) t. t(z := \<lambda>_. 0)) zs (ptab m)\<rparr>)
   }"

definition write_entry :: "u64 \<Rightarrow> nat \<Rightarrow> u64 \<Rightarrow> vm \<Rightarrow> vm option" where
  "write_entry t i v m = do {
     _ \<leftarrow> phys_to_virt (vhhdm m) t;
     Some (m\<lparr>ptab := (ptab m)(t := (ptab m t)(i := v))\<rparr>)
   }"

definition read_entry :: "vm \<Rightarrow> u64 \<Rightarrow> nat \<Rightarrow> u64 option" where
  "read_entry m t i = do { _ \<leftarrow> phys_to_virt (vhhdm m) t; Some (ptab m t i) }"

fun leaf_bits :: "prot \<Rightarrow> u64" where
  "leaf_bits Rx = PRESENT"
| "leaf_bits Ro = PRESENT OR NX"
| "leaf_bits Rw = PRESENT OR WRITABLE OR NX"

section \<open>The kernel's own address space\<close>

definition div_ceil :: "u64 \<Rightarrow> u64 \<Rightarrow> nat" where
  "div_ceil a b = (unat a + unat b - 1) div unat b"

definition map_low_gib :: "u64 \<Rightarrow> nat \<Rightarrow> vm \<Rightarrow> vm option" where
  "map_low_gib pdpt g m = do {
     (pd, m) \<leftarrow> alloc_table m;
     m \<leftarrow> write_entry pdpt g (pd OR PRESENT OR WRITABLE) m;
     for_each (\<lambda>j. write_entry pd j
       ((push_bit 30 (of_nat g) OR push_bit 21 (of_nat j)) OR PRESENT OR WRITABLE OR HUGE OR NX)) [0..<512] m
   }"

definition map_low :: "u64 \<Rightarrow> nat \<Rightarrow> u64 \<Rightarrow> vm \<Rightarrow> vm option" where
  "map_low pml4 pml4_index bytes m = do {
     (pdpt, m) \<leftarrow> alloc_table m;
     m \<leftarrow> write_entry pml4 pml4_index (pdpt OR PRESENT OR WRITABLE) m;
     for_each (map_low_gib pdpt) [0..<div_ceil bytes GIB] m
   }"

definition in_range :: "u64 \<times> u64 \<Rightarrow> u64 \<Rightarrow> bool" where
  "in_range r v \<longleftrightarrow> fst r \<le> v \<and> v < snd r"

definition section_prot :: "kernel_map \<Rightarrow> u64 \<Rightarrow> prot" where
  "section_prot km v =
     (if in_range (km_text km) v then Rx else if in_range (km_data km) v then Rw else Ro)"

function map_kernel_loop :: "u64 \<Rightarrow> kernel_map \<Rightarrow> u64 \<Rightarrow> vm \<Rightarrow> vm option" where
  "map_kernel_loop pt km v m =
     (if v < kernel_vend km then do {
        pa \<leftarrow> checked_add (kernel_phys km) (v - kernel_vbase km);
        m \<leftarrow> write_entry pt (pt_idx v 0) (pa OR leaf_bits (section_prot km v)) m;
        v' \<leftarrow> checked_add v PAGE;
        map_kernel_loop pt km v' m
      } else Some m)"
  by pat_completeness auto
termination
  by (relation "measure (\<lambda>(pt, km, v, m). unat (kernel_vend km) - unat v)")
    (auto simp: checked_add_def PAGE_def word_less_nat_alt unat_word_ariths split: if_splits)

declare map_kernel_loop.simps [simp del]

definition map_kernel :: "u64 \<Rightarrow> kernel_map \<Rightarrow> vm \<Rightarrow> vm option" where
  "map_kernel pml4 km m = do {
     (pdpt, m) \<leftarrow> alloc_table m;
     m \<leftarrow> write_entry pml4 (pt_idx (kernel_vbase km) 3) (pdpt OR PRESENT OR WRITABLE) m;
     (pd, m) \<leftarrow> alloc_table m;
     m \<leftarrow> write_entry pdpt (pt_idx (kernel_vbase km) 2) (pd OR PRESENT OR WRITABLE) m;
     (pt, m) \<leftarrow> alloc_table m;
     m \<leftarrow> write_entry pd (pt_idx (kernel_vbase km) 1) (pt OR PRESENT OR WRITABLE) m;
     map_kernel_loop pt km (kernel_vbase km) m
   }"

definition build_address_space :: "kernel_map \<Rightarrow> vm \<Rightarrow> (address_space \<times> vm) option" where
  "build_address_space km m = do {
     (pml4, m) \<leftarrow> alloc_table m;
     m \<leftarrow> map_low pml4 0 (identity_bytes km) m;
     m \<leftarrow> map_low pml4 (pt_idx (km_hhdm_offset km) 3) (identity_bytes km) m;
     m \<leftarrow> map_kernel pml4 km m;
     Some (\<lparr>primary = pml4, secondary = 0\<rparr>, m\<lparr>KERNEL_PML4 := pml4\<rparr>)
   }"

definition kernel_space :: "vm \<Rightarrow> address_space" where
  "kernel_space m = \<lparr>primary = KERNEL_PML4 m, secondary = 0\<rparr>"

section \<open>Process address spaces\<close>

definition clone_table :: "u64 \<Rightarrow> vm \<Rightarrow> (u64 \<times> vm) option" where
  "clone_table orig m = do {
     (new, m) \<leftarrow> alloc_table m;
     m \<leftarrow> for_each (\<lambda>i m. do { e \<leftarrow> read_entry m orig i; write_entry new i e m }) [0..<512] m;
     Some (new, m)
   }"

definition privatise :: "u64 \<Rightarrow> nat \<Rightarrow> vm \<Rightarrow> vm option" where
  "privatise new_pd i m = do {
     e \<leftarrow> read_entry m new_pd i;
     if e AND PRESENT \<noteq> 0 \<and> e AND HUGE = 0
     then do {
       (priv_pt, m) \<leftarrow> clone_table (e AND ADDR_MASK) m;
       write_entry new_pd i (priv_pt OR (e AND NOT ADDR_MASK)) m
     }
     else Some m
   }"

definition new_process_space :: "vm \<Rightarrow> (address_space \<times> vm) option" where
  "new_process_space m = (let kbase = KERNEL_PML4 m in do {
     (new_pml4, m) \<leftarrow> clone_table kbase m;
     e0 \<leftarrow> read_entry m kbase 0;
     (new_pdpt, m) \<leftarrow> clone_table (e0 AND ADDR_MASK) m;
     m \<leftarrow> write_entry new_pml4 0 (new_pdpt OR (e0 AND NOT ADDR_MASK)) m;
     e1 \<leftarrow> read_entry m (e0 AND ADDR_MASK) 1;
     (new_pd, m) \<leftarrow> clone_table (e1 AND ADDR_MASK) m;
     m \<leftarrow> write_entry new_pdpt 1 (new_pd OR (e1 AND NOT ADDR_MASK)) m;
     m \<leftarrow> for_each (privatise new_pd) [0..<512] m;
     Some (\<lparr>primary = new_pml4, secondary = 0\<rparr>, m)
   })"

text \<open>\<open>reap_process_space\<close>: the frames freed are counted as in the code.\<close>

definition vfree :: "u64 \<Rightarrow> vm \<Rightarrow> vm option" where
  "vfree pa m = do { g \<leftarrow> mem_free_frames (vframes m) pa; Some (m\<lparr>vframes := g\<rparr>) }"

definition reap_leaf :: "u64 \<Rightarrow> u64 \<Rightarrow> nat \<times> vm \<Rightarrow> (nat \<times> vm) option" where
  "reap_leaf pd va = (\<lambda>(freed, m). do {
     e2 \<leftarrow> read_entry m pd (pt_idx va 1);
     if e2 AND PRESENT \<noteq> 0 \<and> e2 AND HUGE = 0
     then do {
       leaf \<leftarrow> read_entry m (e2 AND ADDR_MASK) (pt_idx va 0);
       if leaf AND PRESENT \<noteq> 0
       then do { m \<leftarrow> vfree (leaf AND ADDR_MASK) m; Some (freed + 1, m) }
       else Some (freed, m)
     }
     else Some (freed, m)
   })"

definition reap_pt :: "u64 \<Rightarrow> nat \<Rightarrow> nat \<times> vm \<Rightarrow> (nat \<times> vm) option" where
  "reap_pt pd i = (\<lambda>(freed, m). do {
     e \<leftarrow> read_entry m pd i;
     if e AND PRESENT \<noteq> 0 \<and> e AND HUGE = 0
     then do { m \<leftarrow> vfree (e AND ADDR_MASK) m; Some (freed + 1, m) }
     else Some (freed, m)
   })"

definition reap_process_space :: "address_space \<Rightarrow> u64 list \<Rightarrow> vm \<Rightarrow> (nat \<times> vm) option" where
  "reap_process_space space owned_leaf_vas m = (let pml4 = primary space in do {
     e0 \<leftarrow> read_entry m pml4 0;
     let pdpt = e0 AND ADDR_MASK;
     e1 \<leftarrow> read_entry m pdpt 1;
     let pd = e1 AND ADDR_MASK;
     s \<leftarrow> for_each (reap_leaf pd) owned_leaf_vas (0, m);
     (freed, m) \<leftarrow> for_each (reap_pt pd) [0..<512] s;
     m \<leftarrow> vfree pd m;
     m \<leftarrow> vfree pdpt m;
     m \<leftarrow> vfree pml4 m;
     Some (freed + 3, m)
   })"

definition activate_address_space :: "address_space \<Rightarrow> vm \<Rightarrow> vm" where
  "activate_address_space space m = m\<lparr>cr3 := primary space\<rparr>"

definition current_pml4 :: "vm \<Rightarrow> u64" where
  "current_pml4 m = cr3 m AND ADDR_MASK"

section \<open>Walking and editing the active tables\<close>

text \<open>The outer option of the three lookups is the panic, the inner one the code's result.\<close>

definition walk :: "vm \<Rightarrow> u64 \<Rightarrow> (u64 \<times> u64) option option" where
  "walk m vaddr = do {
     e4 \<leftarrow> read_entry m (current_pml4 m) (pt_idx vaddr 3);
     if e4 AND PRESENT = 0 then Some None else do {
     e3 \<leftarrow> read_entry m (e4 AND ADDR_MASK) (pt_idx vaddr 2);
     if e3 AND PRESENT = 0 then Some None else
     if e3 AND HUGE \<noteq> 0 then Some (Some (e3, 0x3fffffff)) else do {
     e2 \<leftarrow> read_entry m (e3 AND ADDR_MASK) (pt_idx vaddr 1);
     if e2 AND PRESENT = 0 then Some None else
     if e2 AND HUGE \<noteq> 0 then Some (Some (e2, 0x1fffff)) else do {
     e1 \<leftarrow> read_entry m (e2 AND ADDR_MASK) (pt_idx vaddr 0);
     if e1 AND PRESENT = 0 then Some None else Some (Some (e1, 0xfff)) }}}
   }"

definition translate :: "vm \<Rightarrow> u64 \<Rightarrow> u64 option option" where
  "translate m vaddr = do {
     w \<leftarrow> walk m vaddr;
     case w of
       None \<Rightarrow> Some None
     | Some (leaf, msk) \<Rightarrow> do { pa \<leftarrow> checked_add (leaf AND ADDR_MASK AND NOT msk) (vaddr AND msk); Some (Some pa) }
   }"

definition page_prot :: "vm \<Rightarrow> u64 \<Rightarrow> (bool \<times> bool) option option" where
  "page_prot m vaddr = do {
     w \<leftarrow> walk m vaddr;
     case w of
       None \<Rightarrow> Some None
     | Some (leaf, _) \<Rightarrow> Some (Some (leaf AND WRITABLE \<noteq> 0, leaf AND NX = 0))
   }"

definition invlpg :: "u64 \<Rightarrow> vm \<Rightarrow> vm" where
  "invlpg v m = m\<lparr>invlpgs := invlpgs m @ [v]\<rparr>"

text \<open>The split of a 2 MiB page into a fresh table, shared by the four functions that do it.\<close>

definition split_into :: "u64 \<Rightarrow> u64 \<Rightarrow> vm \<Rightarrow> vm option" where
  "split_into e2 new_pt m =
     (let base = e2 AND ADDR_MASK AND NOT 0x1fffff; flags = e2 AND NOT ADDR_MASK AND NOT HUGE in
      for_each (\<lambda>j. write_entry new_pt j ((base + of_nat j * PAGE) OR flags)) [0..<512] m)"

definition ensure_pt :: "u64 \<Rightarrow> vm \<Rightarrow> (u64 \<times> vm) option" where
  "ensure_pt v m = do {
     e4 \<leftarrow> read_entry m (current_pml4 m) (pt_idx v 3);
     if e4 AND PRESENT = 0 then None else do {
     e3 \<leftarrow> read_entry m (e4 AND ADDR_MASK) (pt_idx v 2);
     if e3 AND PRESENT = 0 \<or> e3 AND HUGE \<noteq> 0 then None else do {
     let pd = e3 AND ADDR_MASK;
     e2 \<leftarrow> read_entry m pd (pt_idx v 1);
     if e2 AND PRESENT = 0 then None
     else if e2 AND HUGE \<noteq> 0 then do {
       (new_pt, m) \<leftarrow> alloc_table m;
       m \<leftarrow> split_into e2 new_pt m;
       m \<leftarrow> write_entry pd (pt_idx v 1) (new_pt OR PRESENT OR WRITABLE) m;
       Some (new_pt, m)
     }
     else Some (e2 AND ADDR_MASK, m) }}
   }"

definition install_guard_page :: "u64 \<Rightarrow> vm \<Rightarrow> vm option" where
  "install_guard_page vaddr m = (let v = vaddr AND NOT 0xfff in do {
     (pt, m) \<leftarrow> ensure_pt v m;
     m \<leftarrow> write_entry pt (pt_idx v 0) 0 m;
     Some (invlpg v m)
   })"

definition map_page :: "u64 \<Rightarrow> u64 \<Rightarrow> prot \<Rightarrow> vm \<Rightarrow> vm option" where
  "map_page vaddr pa prot m = (let v = vaddr AND NOT 0xfff in do {
     (pt, m) \<leftarrow> ensure_pt v m;
     m \<leftarrow> write_entry pt (pt_idx v 0) ((pa AND ADDR_MASK) OR leaf_bits prot) m;
     Some (invlpg v m)
   })"

text \<open>The test-and-set of the \<open>USER\<close> bit on an entry just read.\<close>

definition set_user :: "u64 \<Rightarrow> nat \<Rightarrow> u64 \<Rightarrow> vm \<Rightarrow> vm option" where
  "set_user t i e m = (if e AND USER = 0 then write_entry t i (e OR USER) m else Some m)"

definition ensure_pt_user :: "u64 \<Rightarrow> vm \<Rightarrow> (u64 \<times> vm) option" where
  "ensure_pt_user v m = (let pml4 = current_pml4 m in do {
     e4 \<leftarrow> read_entry m pml4 (pt_idx v 3);
     if e4 AND PRESENT = 0 then None else do {
     m \<leftarrow> set_user pml4 (pt_idx v 3) e4 m;
     let pdpt = e4 AND ADDR_MASK;
     e3 \<leftarrow> read_entry m pdpt (pt_idx v 2);
     if e3 AND PRESENT = 0 \<or> e3 AND HUGE \<noteq> 0 then None else do {
     m \<leftarrow> set_user pdpt (pt_idx v 2) e3 m;
     let pd = e3 AND ADDR_MASK;
     e2 \<leftarrow> read_entry m pd (pt_idx v 1);
     if e2 AND PRESENT = 0 then None
     else if e2 AND HUGE \<noteq> 0 then do {
       (new_pt, m) \<leftarrow> alloc_table m;
       m \<leftarrow> split_into e2 new_pt m;
       m \<leftarrow> write_entry pd (pt_idx v 1) (new_pt OR PRESENT OR WRITABLE OR USER) m;
       Some (new_pt, m)
     }
     else do {
       m \<leftarrow> set_user pd (pt_idx v 1) e2 m;
       Some (e2 AND ADDR_MASK, m)
     } }}
   })"

definition map_user_page :: "u64 \<Rightarrow> u64 \<Rightarrow> prot \<Rightarrow> u64 \<Rightarrow> vm \<Rightarrow> vm option" where
  "map_user_page vaddr pa prot domain m = (let v = vaddr AND NOT 0xfff in do {
     (pt, m) \<leftarrow> ensure_pt_user v m;
     m \<leftarrow> write_entry pt (pt_idx v 0) ((pa AND ADDR_MASK) OR leaf_bits prot OR USER OR pkey_bits domain) m;
     Some (invlpg v m)
   })"

definition build_domain_excluding :: "u64 \<Rightarrow> vm \<Rightarrow> (u64 \<times> vm) option" where
  "build_domain_excluding victim_vaddr m = (let v = victim_vaddr AND NOT 0xfff; orig_pml4 = current_pml4 m in do {
     (new_pml4, m) \<leftarrow> clone_table orig_pml4 m;
     e4 \<leftarrow> read_entry m orig_pml4 (pt_idx v 3);
     if e4 AND PRESENT = 0 then None else do {
     (new_pdpt, m) \<leftarrow> clone_table (e4 AND ADDR_MASK) m;
     m \<leftarrow> write_entry new_pml4 (pt_idx v 3) (new_pdpt OR (e4 AND NOT ADDR_MASK)) m;
     e3 \<leftarrow> read_entry m (e4 AND ADDR_MASK) (pt_idx v 2);
     if e3 AND PRESENT = 0 \<or> e3 AND HUGE \<noteq> 0 then None else do {
     (new_pd, m) \<leftarrow> clone_table (e3 AND ADDR_MASK) m;
     m \<leftarrow> write_entry new_pdpt (pt_idx v 2) (new_pd OR (e3 AND NOT ADDR_MASK)) m;
     e2 \<leftarrow> read_entry m (e3 AND ADDR_MASK) (pt_idx v 1);
     if e2 AND PRESENT = 0 then None else do {
     (new_pt, m) \<leftarrow> (if e2 AND HUGE \<noteq> 0
       then do { (pt, m) \<leftarrow> alloc_table m; m \<leftarrow> split_into e2 pt m; Some (pt, m) }
       else clone_table (e2 AND ADDR_MASK) m);
     m \<leftarrow> write_entry new_pd (pt_idx v 1) (new_pt OR PRESENT OR WRITABLE) m;
     m \<leftarrow> write_entry new_pt (pt_idx v 0) 0 m;
     Some (new_pml4, m) }}}
   })"

end
