(* ===== verification/Arch_Tables.thy ===== *)
theory Arch_Tables
  imports Arch_Paging
begin

text \<open>
  The translation hardware as a specification: what a walk of the tables of \<^verbatim>\<open>paging.rs\<close> finds, which
  tables a root reaches at which position, and how an edit of one entry changes both.  A position is
  the list of indices from the root; \<open>trees_ok\<close> says that every reached table is an allocated frame
  found at one position only, and that the tables above and below the process window belong to one
  root only.  The walk theory is independent of the allocator.
\<close>

section \<open>Bits of an entry\<close>

lemma addr_mask_bits: "ADDR_MASK = mask 52 AND NOT (mask 12)"
  by (simp add: ADDR_MASK_def mask_eq_exp_minus_1)

definition nxt :: "u64 \<Rightarrow> u64" where "nxt e = e AND ADDR_MASK"

definition has :: "u64 \<Rightarrow> u64 \<Rightarrow> bool" where "has b e \<longleftrightarrow> e AND b \<noteq> 0"

definition flag :: "u64 \<Rightarrow> bool" where "flag b \<longleftrightarrow> b AND ADDR_MASK = 0"

named_theorems pte \<open>reading the fields of a table entry\<close>

lemma flag_bits: "flag b \<longleftrightarrow> (\<forall>n. bit b n \<longrightarrow> \<not> (12 \<le> n \<and> n < 52))"
proof -
  have "flag b \<longleftrightarrow> (\<forall>n<64. \<not> (bit b n \<and> 12 \<le> n \<and> n < 52))"
    by (auto simp: flag_def addr_mask_bits bit_eq_iff bit_simps)
  moreover have "n < 64" if "n < 52" for n :: nat using that by simp
  ultimately show ?thesis by blast
qed

lemma flags [pte]: "flag PRESENT" "flag WRITABLE" "flag USER" "flag HUGE" "flag NX"
  by (simp_all add: flag_def PRESENT_def WRITABLE_def USER_def HUGE_def NX_def ADDR_MASK_def)

lemma flag_pkey [pte]: "flag (pkey_bits d)"
  by (auto simp: flag_bits pkey_bits_def PKEY_SHIFT_def bit_simps)

lemma flag_and [pte]: "flag (e AND NOT ADDR_MASK)" "flag x \<Longrightarrow> flag (x AND y)"
  by (auto simp: flag_bits addr_mask_bits bit_simps)

lemma flag_or [pte]: "flag (x OR y) \<longleftrightarrow> flag x \<and> flag y"
  by (auto simp: flag_bits bit_simps)

lemma flag_0 [pte]: "flag 0"
  by (simp add: flag_def)

lemma nxt_flag [pte]: "flag f \<Longrightarrow> nxt f = 0"
  by (simp add: nxt_def flag_def)

lemma nxt_or [pte]: "nxt (x OR y) = nxt x OR nxt y"
  by (simp add: nxt_def bit.conj_disj_distrib2)

lemma nxt_nxt [pte]: "nxt (nxt e) = nxt e"
  by (simp add: nxt_def ac_simps)

lemma has_bits: "has b x \<longleftrightarrow> (\<exists>n. bit x n \<and> bit b n)"
  by (simp add: has_def bit_eq_iff [of "x AND b"] bit_and_iff) (use bit_imp_le_length in fastforce)

lemma has_or [pte]: "has b (x OR y) \<longleftrightarrow> has b x \<or> has b y"
  by (auto simp: has_bits bit_or_iff)

lemma has_addr [pte]: "flag b \<Longrightarrow> nxt t = t \<Longrightarrow> \<not> has b t"
proof -
  assume f: "flag b" and n: "nxt t = t"
  have "t AND b = (t AND ADDR_MASK) AND b" using n by (simp add: nxt_def)
  also have "\<dots> = t AND (b AND ADDR_MASK)" by (simp add: ac_simps)
  finally show ?thesis using f by (simp add: has_def flag_def)
qed

lemma has_0 [pte]: "\<not> has b 0"
  by (simp add: has_def)

lemma has_keep [pte]: "flag b \<Longrightarrow> has b (e AND NOT ADDR_MASK) \<longleftrightarrow> has b e"
proof -
  assume "flag b"
  then have "(e AND NOT ADDR_MASK) AND b = e AND b"
    by (auto simp: bit_eq_iff bit_simps flag_bits addr_mask_bits)
  then show ?thesis by (simp add: has_def)
qed

lemma has_drop [pte]: "has HUGE (x AND NOT HUGE) \<longleftrightarrow> False" "has PRESENT (x AND NOT HUGE) \<longleftrightarrow> has PRESENT x"
  "has WRITABLE (x AND NOT HUGE) \<longleftrightarrow> has WRITABLE x" "has USER (x AND NOT HUGE) \<longleftrightarrow> has USER x"
  "has NX (x AND NOT HUGE) \<longleftrightarrow> has NX x"
  by (simp_all add: has_def and.assoc PRESENT_def WRITABLE_def USER_def HUGE_def NX_def)

lemma has_const [pte]: "has PRESENT PRESENT" "has WRITABLE WRITABLE" "has USER USER" "has HUGE HUGE" "has NX NX"
  "\<not> has PRESENT WRITABLE" "\<not> has PRESENT USER" "\<not> has PRESENT HUGE" "\<not> has PRESENT NX"
  "\<not> has WRITABLE PRESENT" "\<not> has WRITABLE USER" "\<not> has WRITABLE HUGE" "\<not> has WRITABLE NX"
  "\<not> has USER PRESENT" "\<not> has USER WRITABLE" "\<not> has USER HUGE" "\<not> has USER NX"
  "\<not> has HUGE PRESENT" "\<not> has HUGE WRITABLE" "\<not> has HUGE USER" "\<not> has HUGE NX"
  "\<not> has NX PRESENT" "\<not> has NX WRITABLE" "\<not> has NX USER" "\<not> has NX HUGE"
  by (simp_all add: has_def PRESENT_def WRITABLE_def USER_def HUGE_def NX_def)

lemma has_pkey [pte]: "\<not> has PRESENT (pkey_bits d)" "\<not> has WRITABLE (pkey_bits d)" "\<not> has USER (pkey_bits d)"
  "\<not> has HUGE (pkey_bits d)" "\<not> has NX (pkey_bits d)"
  by (simp_all add: has_def pkey_bits_def PKEY_SHIFT_def PRESENT_def WRITABLE_def USER_def HUGE_def NX_def push_bit_and and.assoc)

lemma leaf_bits_has [pte]: "has PRESENT (leaf_bits p)" "\<not> has USER (leaf_bits p)" "\<not> has HUGE (leaf_bits p)"
  "has WRITABLE (leaf_bits p) = fst (prot_wx p)" "has NX (leaf_bits p) = (\<not> snd (prot_wx p))" "flag (leaf_bits p)"
  by (cases p; simp add: pte)+

section \<open>The walk\<close>

type_synonym tables = "u64 \<Rightarrow> nat \<Rightarrow> u64"

text \<open>Does an entry with \<open>n\<close> levels below it point to a table?  The root level ignores \<open>HUGE\<close>.\<close>

definition descends :: "nat \<Rightarrow> u64 \<Rightarrow> bool" where
  "descends n e \<longleftrightarrow> has PRESENT e \<and> n \<noteq> 0 \<and> (n = 3 \<or> \<not> has HUGE e)"

text \<open>The leaf entry found, the levels left below it, and whether all entries had \<open>USER\<close>.\<close>

fun hw :: "tables \<Rightarrow> u64 \<Rightarrow> nat list \<Rightarrow> (u64 \<times> nat \<times> bool) option" where
  "hw E t [] = None"
| "hw E t (i # is) =
     (let e = E t i in
      if \<not> has PRESENT e then None
      else if descends (length is) e
      then map_option (\<lambda>(l, n, u). (l, n, u \<and> has USER e)) (hw E (nxt e) is)
      else Some (e, length is, has USER e))"

text \<open>The table at a position, and whether the entries on the way had \<open>USER\<close>.\<close>

fun tab_at :: "tables \<Rightarrow> nat \<Rightarrow> u64 \<Rightarrow> nat list \<Rightarrow> u64 option" where
  "tab_at E n t [] = Some t"
| "tab_at E n t (i # p) = (if descends n (E t i) then tab_at E (n - 1) (nxt (E t i)) p else None)"

fun users :: "tables \<Rightarrow> u64 \<Rightarrow> nat list \<Rightarrow> bool" where
  "users E t [] = True"
| "users E t (i # p) \<longleftrightarrow> has USER (E t i) \<and> users E (nxt (E t i)) p"

lemma tab_at_snoc: "tab_at E n r (q @ [j]) =
    (case tab_at E n r q of None \<Rightarrow> None
     | Some t \<Rightarrow> if descends (n - length q) (E t j) then Some (nxt (E t j)) else None)"
  by (induction q arbitrary: n r) (auto split: option.split)

lemma tab_at_append: "tab_at E n r (p @ q) =
    (case tab_at E n r p of None \<Rightarrow> None | Some t \<Rightarrow> tab_at E (n - length p) t q)"
  by (induction p arbitrary: n r) (auto split: option.split)

lemma users_append: "tab_at E n r p = Some t \<Longrightarrow> users E r (p @ q) \<longleftrightarrow> users E r p \<and> users E t q"
  by (induction p arbitrary: n r) (auto split: if_splits)

lemma tab_at_length: "tab_at E n r p = Some t \<Longrightarrow> length p \<le> n"
proof (induction p arbitrary: n r)
  case (Cons i p)
  then have "n \<noteq> 0" "length p \<le> n - 1" by (auto simp: descends_def split: if_splits)
  then show ?case by simp
qed simp

lemma hw_append: "tab_at E (length p + length q - 1) r p = Some t \<Longrightarrow> q \<noteq> [] \<Longrightarrow>
    hw E r (p @ q) = map_option (\<lambda>(l, n, u). (l, n, u \<and> users E r p)) (hw E t q)"
proof (induction p arbitrary: r)
  case (Cons i p)
  have d: "descends (length p + length q) (E r i)" and t: "tab_at E (length p + length q - 1) (nxt (E r i)) p = Some t"
    using Cons.prems by (auto split: if_splits)
  have "has PRESENT (E r i)" using d by (simp add: descends_def)
  then show ?case using d Cons.IH [OF t Cons.prems(2)]
    by (cases "hw E t q") (auto simp: Let_def ac_simps)
qed (auto simp: option.map_ident split_def)

lemma hw_cong:
  "(\<And>p i s t. q = p @ i # s \<Longrightarrow> tab_at E (length q - 1) r p = Some t \<Longrightarrow> E' t i = E t i) \<Longrightarrow> hw E' r q = hw E r q"
proof (induction q arbitrary: r)
  case (Cons i q)
  have e: "E' r i = E r i" using Cons.prems [of "[]" i q r] by simp
  have "hw E' (nxt (E r i)) q = hw E (nxt (E r i)) q" if d: "descends (length q) (E r i)"
  proof (rule Cons.IH)
    fix p j s t assume "q = p @ j # s" "tab_at E (length q - 1) (nxt (E r i)) p = Some t"
    then show "E' t j = E t j" using Cons.prems [of "i # p" j s t] d by simp
  qed
  then show ?case by (simp add: e Let_def)
qed simp

lemma tab_at_cong:
  "(\<And>q i s t. p = q @ i # s \<Longrightarrow> tab_at E n r q = Some t \<Longrightarrow> E' t i = E t i) \<Longrightarrow> tab_at E' n r p = tab_at E n r p"
proof (induction p arbitrary: r n)
  case (Cons i p)
  have e: "E' r i = E r i" using Cons.prems [of "[]" i p r] by simp
  have "tab_at E' (n - 1) (nxt (E r i)) p = tab_at E (n - 1) (nxt (E r i)) p" if d: "descends n (E r i)"
  proof (rule Cons.IH)
    fix q j s t assume "p = q @ j # s" "tab_at E (n - 1) (nxt (E r i)) q = Some t"
    then show "E' t j = E t j" using Cons.prems [of "i # q" j s t] d by simp
  qed
  then show ?case by (simp add: e)
qed simp

lemma users_cong:
  "(\<And>q i s t. p = q @ i # s \<Longrightarrow> tab_at E n r q = Some t \<Longrightarrow> E' t i = E t i) \<Longrightarrow> tab_at E n r p = Some t0 \<Longrightarrow> users E' r p = users E r p"
proof (induction p arbitrary: r n)
  case (Cons i p)
  have e: "E' r i = E r i" using Cons.prems(1) [of "[]" i p r] by simp
  have d: "descends n (E r i)" "tab_at E (n - 1) (nxt (E r i)) p = Some t0" using Cons.prems(2) by (auto split: if_splits)
  have "users E' (nxt (E r i)) p = users E (nxt (E r i)) p"
  proof (rule Cons.IH [OF _ d(2)])
    fix q j s t assume "p = q @ j # s" "tab_at E (n - 1) (nxt (E r i)) q = Some t"
    then show "E' t j = E t j" using Cons.prems(1) [of "i # q" j s t] d by simp
  qed
  then show ?case by (simp add: e)
qed simp

section \<open>Trees of tables\<close>

definition indices :: "nat list \<Rightarrow> bool" where "indices p \<longleftrightarrow> (\<forall>i\<in>set p. i < 512)"

text \<open>Positions on the way to, or inside, the process window of PML4 entry 0, PDPT entry 1.\<close>

definition window :: "nat list \<Rightarrow> bool" where "window p \<longleftrightarrow> take 2 p = take (length p) [0, 1]"

definition trees_ok :: "tables \<Rightarrow> u64 set \<Rightarrow> u64 set \<Rightarrow> bool" where
  "trees_ok E Rs T \<longleftrightarrow>
     (\<forall>r\<in>Rs. \<forall>p t. indices p \<longrightarrow> tab_at E 3 r p = Some t \<longrightarrow> t \<in> T)
   \<and> (\<forall>r\<in>Rs. \<forall>r'\<in>Rs. \<forall>p p' t. indices p \<longrightarrow> indices p' \<longrightarrow> tab_at E 3 r p = Some t \<longrightarrow> tab_at E 3 r' p' = Some t
        \<longrightarrow> p = p' \<and> (r \<noteq> r' \<longrightarrow> \<not> window p))"

lemma indices_simps [simp]: "indices []" "indices (i # p) \<longleftrightarrow> i < 512 \<and> indices p" "indices (p @ q) \<longleftrightarrow> indices p \<and> indices q"
  by (auto simp: indices_def)

lemma trees_okD:
  assumes "trees_ok E Rs T" "r \<in> Rs" "indices p" "tab_at E 3 r p = Some t"
  shows trees_ok_table: "t \<in> T"
    and trees_ok_pos: "r' \<in> Rs \<Longrightarrow> indices p' \<Longrightarrow> tab_at E 3 r' p' = Some t \<Longrightarrow> p' = p"
    and trees_ok_private: "r' \<in> Rs \<Longrightarrow> tab_at E 3 r' p = Some t \<Longrightarrow> window p \<Longrightarrow> r' = r"
  using assms unfolding trees_ok_def by blast+

lemma window_prefix: "window (p @ q) \<Longrightarrow> window p"
proof -
  assume "window (p @ q)"
  then have "take (length p) (take 2 (p @ q)) = take (length p) (take (length p + length q) [0, 1])"
    by (simp add: window_def)
  then show ?thesis by (simp add: window_def min_def split: if_splits)
qed

section \<open>Editing one entry\<close>

text \<open>\<open>E'\<close> has the entry \<open>e\<close> at index \<open>i\<close> of table \<open>t\<close> and is \<open>E\<close> elsewhere on the tables \<open>T\<close>.\<close>

definition edited :: "tables \<Rightarrow> u64 set \<Rightarrow> u64 \<Rightarrow> nat \<Rightarrow> u64 \<Rightarrow> tables \<Rightarrow> bool" where
  "edited E T t i e E' \<longleftrightarrow> E' t i = e \<and> (\<forall>t'\<in>T. \<forall>j. (t', j) \<noteq> (t, i) \<longrightarrow> E' t' j = E t' j)"

text \<open>An edit of the entry \<open>i\<close> of the table that some root reaches at position \<open>p\<close>.\<close>

definition edit_at :: "tables \<Rightarrow> u64 set \<Rightarrow> u64 set \<Rightarrow> nat list \<Rightarrow> u64 \<Rightarrow> nat \<Rightarrow> u64 \<Rightarrow> tables \<Rightarrow> bool" where
  "edit_at E Rs T p t i e E' \<longleftrightarrow> trees_ok E Rs T \<and> edited E T t i e E' \<and> indices p \<and> i < 512
     \<and> (\<exists>r\<in>Rs. tab_at E 3 r p = Some t)"

lemma edit_atD:
  assumes "edit_at E Rs T p t i e E'"
  shows edit_at_trees: "trees_ok E Rs T" and edit_at_new: "E' t i = e" and edit_at_indices: "indices p" "i < 512"
    and edit_at_same: "t' \<in> T \<Longrightarrow> (t', j) \<noteq> (t, i) \<Longrightarrow> E' t' j = E t' j"
    and edit_at_pos: "r \<in> Rs \<Longrightarrow> indices q \<Longrightarrow> tab_at E 3 r q = Some t \<Longrightarrow> q = p"
    and edit_at_length: "length p \<le> 3"
  using assms tab_at_length unfolding edit_at_def edited_def by (blast intro: trees_ok_pos)+

lemma edit_prefix:
  assumes e: "edit_at E Rs T p t i e E'" and r: "r \<in> Rs" and q: "indices q" and n: "\<not> (\<exists>s. q = p @ i # s \<and> tab_at E 3 r p = Some t)"
  shows "tab_at E' 3 r q = tab_at E 3 r q" "tab_at E 3 r q = Some t0 \<Longrightarrow> users E' r q = users E r q"
proof -
  have *: "E' t1 j = E t1 j" if s: "q = q' @ j # s" "tab_at E 3 r q' = Some t1" for q' j s t1
  proof (rule edit_at_same [OF e])
    have q': "indices q'" using q s by simp
    show "t1 \<in> T" using trees_ok_table [OF edit_at_trees [OF e] r q' s(2)] .
    show "(t1, j) \<noteq> (t, i)"
    proof
      assume "(t1, j) = (t, i)"
      then have "tab_at E 3 r q' = Some t" "j = i" using s(2) by auto
      with edit_at_pos [OF e r q'] n s(1) show False by auto
    qed
  qed
  show "tab_at E' 3 r q = tab_at E 3 r q" by (rule tab_at_cong) (rule *)
  show "tab_at E 3 r q = Some t0 \<Longrightarrow> users E' r q = users E r q" by (rule users_cong) (rule *)
qed

lemma edit_other:
  assumes e: "edit_at E Rs T p t i e E'" and r: "r \<in> Rs" and q: "indices q" "length q = 4"
    and n: "\<not> (\<exists>s. q = p @ i # s \<and> tab_at E 3 r p = Some t)"
  shows "hw E' r q = hw E r q"
proof (rule hw_cong)
  fix q' j s t1 assume s: "q = q' @ j # s" "tab_at E (length q - 1) r q' = Some t1"
  then have t1: "tab_at E 3 r q' = Some t1" "indices q'" using q by auto
  show "E' t1 j = E t1 j"
  proof (rule edit_at_same [OF e])
    show "t1 \<in> T" using trees_ok_table [OF edit_at_trees [OF e] r t1(2,1)] .
    show "(t1, j) \<noteq> (t, i)" using edit_at_pos [OF e r t1(2)] t1 n s(1) by auto
  qed
qed

lemma edit_pass:
  assumes e: "edit_at E Rs T p t i e E'" and r: "r \<in> Rs" and t: "tab_at E 3 r p = Some t" and l: "length p + length s = 3"
  shows "hw E' r (p @ i # s) = map_option (\<lambda>(l, n, u). (l, n, u \<and> users E r p)) (hw E' t (i # s))"
proof -
  have n: "\<not> (\<exists>s. p = p @ i # s \<and> tab_at E 3 r p = Some t)" by simp
  note pre = edit_prefix [OF e r edit_at_indices(1) [OF e] n]
  have "tab_at E' (length p + length (i # s) - 1) r p = Some t" using pre(1) t l by simp
  from hw_append [OF this] show ?thesis using pre(2) [OF t] by simp
qed

lemma edit_below:
  assumes e: "edit_at E Rs T p t i e E'" and r: "r \<in> Rs" and t: "tab_at E 3 r p = Some t" and l: "length p + length s = 3"
    and d: "descends (length s) (E t i)" and s: "indices s"
  shows "hw E' (nxt (E t i)) s = hw E (nxt (E t i)) s"
proof (rule hw_cong)
  fix q j s' t1 assume q: "s = q @ j # s'" "tab_at E (length s - 1) (nxt (E t i)) q = Some t1"
  have "3 - length p = length s" using l by simp
  then have t1: "tab_at E 3 r (p @ i # q) = Some t1" using t d q(2) by (simp add: tab_at_append)
  have ind: "indices (p @ i # q)" using edit_at_indices [OF e] s q(1) by simp
  show "E' t1 j = E t1 j"
  proof (rule edit_at_same [OF e])
    show "t1 \<in> T" using trees_ok_table [OF edit_at_trees [OF e] r ind t1] .
    show "(t1, j) \<noteq> (t, i)" using edit_at_pos [OF e r ind] t1 by auto
  qed
qed

lemma trees_ok_cong:
  assumes "trees_ok E Rs T" "\<And>r q. r \<in> Rs \<Longrightarrow> indices q \<Longrightarrow> tab_at E' 3 r q = tab_at E 3 r q"
  shows "trees_ok E' Rs T"
  using assms unfolding trees_ok_def by simp

text \<open>An edit that keeps where the entry points.\<close>

lemma edit_keep:
  assumes e: "edit_at E Rs T p t i e E'" and d: "descends (3 - length p) e = descends (3 - length p) (E t i)"
    and x: "descends (3 - length p) e \<Longrightarrow> nxt e = nxt (E t i)" and r: "r \<in> Rs" and q: "indices q"
  shows "tab_at E' 3 r q = tab_at E 3 r q"
  using q
proof (induction q rule: rev_induct)
  case (snoc j q)
  then have IH: "tab_at E' 3 r q = tab_at E 3 r q" and q: "indices q" by simp_all
  show ?case
  proof (cases "tab_at E 3 r q")
    case (Some t1)
    show ?thesis
    proof (cases "(t1, j) = (t, i)")
      case True
      then have "q = p" using edit_at_pos [OF e r q] Some by simp
      then show ?thesis using True Some IH d x edit_at_new [OF e] by (simp add: tab_at_snoc)
    next
      case False
      then have "E' t1 j = E t1 j" using edit_at_same [OF e trees_ok_table [OF edit_at_trees [OF e] r q Some]] by simp
      then show ?thesis using Some IH by (simp add: tab_at_snoc)
    qed
  qed (simp add: tab_at_snoc IH)
qed simp

text \<open>An edit that links a fresh table whose entries lead to no further table.\<close>

lemma edit_attach:
  assumes e: "edit_at E Rs T p t i e E'" and o: "\<not> descends (3 - length p) (E t i)" and d: "descends (3 - length p) e"
    and f: "nxt e \<notin> T" and z: "\<And>j. j < 512 \<Longrightarrow> \<not> descends (3 - length p - 1) (E' (nxt e) j)" and r: "r \<in> Rs" and q: "indices q"
  shows "tab_at E' 3 r q = (if q = p @ [i] \<and> tab_at E 3 r p = Some t then Some (nxt e) else tab_at E 3 r q)"
  using q
proof (induction q rule: rev_induct)
  case (snoc j q)
  then have q: "indices q" "j < 512" by simp_all
  show ?case
  proof (cases "q = p @ [i] \<and> tab_at E 3 r p = Some t")
    case True
    then have "tab_at E 3 r q = None" using o by (simp add: tab_at_snoc)
    moreover have "tab_at E' 3 r q = Some (nxt e)" using True snoc.IH [OF q(1)] by simp
    moreover have "q \<noteq> p" "3 - length q = 3 - length p - 1" using True by auto
    ultimately show ?thesis using z [OF q(2)] by (simp add: tab_at_snoc)
  next
    case False
    then have IH: "tab_at E' 3 r q = tab_at E 3 r q" using snoc.IH [OF q(1)] by auto
    show ?thesis
    proof (cases "tab_at E 3 r q")
      case None
      then show ?thesis using IH by (auto simp: tab_at_snoc)
    next
      case (Some t1)
      note T1 = trees_ok_table [OF edit_at_trees [OF e] r q(1) Some]
      show ?thesis
      proof (cases "(t1, j) = (t, i)")
        case True
        then have "q = p" using edit_at_pos [OF e r q(1)] Some by simp
        then show ?thesis using True Some IH d edit_at_new [OF e] by (simp add: tab_at_snoc)
      next
        case F: False
        then have "E' t1 j = E t1 j" using edit_at_same [OF e T1] by simp
        then show ?thesis using Some IH F by (auto simp: tab_at_snoc)
      qed
    qed
  qed
qed simp

lemma edit_attach_trees:
  assumes e: "edit_at E Rs T p t i e E'" and o: "\<not> descends (3 - length p) (E t i)" and d: "descends (3 - length p) e"
    and f: "nxt e \<notin> T" and z: "\<And>j. j < 512 \<Longrightarrow> \<not> descends (3 - length p - 1) (E' (nxt e) j)"
  shows "trees_ok E' Rs (insert (nxt e) T)"
proof -
  have at: "tab_at E' 3 r q = (if q = p @ [i] \<and> tab_at E 3 r p = Some t then Some (nxt e) else tab_at E 3 r q)"
    if "r \<in> Rs" "indices q" for r q by (rule edit_attach [OF e o d f z that])
  have new: "tab_at E 3 r q \<noteq> Some (nxt e)" if "r \<in> Rs" "indices q" for r q
    using trees_ok_table [OF edit_at_trees [OF e] that] f by auto
  have w: "window (p @ [i]) \<Longrightarrow> window p" by (rule window_prefix)
  have "q = q' \<and> (r \<noteq> r' \<longrightarrow> \<not> window q)"
    if "r \<in> Rs" "r' \<in> Rs" "indices q" "indices q'" "tab_at E' 3 r q = Some x" "tab_at E' 3 r' q' = Some x" for r r' q q' x
    using that at [OF that(1,3)] at [OF that(2,4)] new [OF that(1,3)] new [OF that(2,4)]
      trees_ok_pos [OF edit_at_trees [OF e], of r q x r' q'] trees_ok_private [OF edit_at_trees [OF e], of r q x r']
      trees_ok_private [OF edit_at_trees [OF e], of r p t r'] edit_at_indices [OF e] w
    by (auto split: if_splits)
  moreover have "x \<in> insert (nxt e) T" if "r \<in> Rs" "indices q" "tab_at E' 3 r q = Some x" for r q x
    using at [OF that(1,2)] that trees_ok_table [OF edit_at_trees [OF e], of r q x] by (auto split: if_splits)
  ultimately show ?thesis unfolding trees_ok_def by blast
qed

end
