(* ===== verification/Arch_Edits.thy ===== *)
theory Arch_Edits
  imports Arch_Tables
begin

text \<open>
  What the three edits of \<^verbatim>\<open>paging.rs\<close> do to the translation: granting \<open>USER\<close> on an intermediate entry,
  splitting a 2 MiB page into a fresh table, and writing a leaf.  \<open>mapping\<close> is the abstract view of
  an address space: the physical address a virtual address translates to, whether the page is
  writable and executable, and whether user mode may reach it.
\<close>

definition path :: "u64 \<Rightarrow> nat list" where "path va = [pt_idx va 3, pt_idx va 2, pt_idx va 1, pt_idx va 0]"

definition mapping :: "tables \<Rightarrow> u64 \<Rightarrow> u64 \<Rightarrow> (u64 \<times> bool \<times> bool \<times> bool) option" where
  "mapping E r va = map_option
     (\<lambda>(l, n, u). ((nxt l AND NOT (mask (12 + 9 * n))) + (va AND mask (12 + 9 * n)), has WRITABLE l, \<not> has NX l, u))
     (hw E r (path va))"

text \<open>
  No leaf has \<open>USER\<close> but 4 KiB pages of the process window of a root other than the kernel's, and
  then every entry above it has it too.
\<close>

definition users_ok :: "tables \<Rightarrow> u64 set \<Rightarrow> u64 \<Rightarrow> bool" where
  "users_ok E Rs K \<longleftrightarrow> (\<forall>r\<in>Rs. \<forall>ps l n u. length ps = 4 \<longrightarrow> indices ps \<longrightarrow> hw E r ps = Some (l, n, u) \<longrightarrow> has USER l
      \<longrightarrow> n = 0 \<and> u \<and> window ps \<and> r \<noteq> K)"

lemma pt_idx_bound [simp]: "pt_idx va k < 512"
proof -
  have "drop_bit (12 + 9 * k) va AND 0x1ff \<le> 0x1ff" by (rule word_and_le1)
  then show ?thesis by (simp add: pt_idx_def word_le_nat_alt)
qed

lemma path_ok [simp]: "indices (path va)" "length (path va) = 4"
  by (simp_all add: path_def)

lemma hw_user: "hw E r ps = Some (l, n, u) \<Longrightarrow> u \<Longrightarrow> has USER l"
  by (induction ps arbitrary: r l n u) (auto simp: Let_def split: if_splits)

lemma hw_user_iff: "users_ok E Rs K \<Longrightarrow> r \<in> Rs \<Longrightarrow> length ps = 4 \<Longrightarrow> indices ps \<Longrightarrow> hw E r ps = Some (l, n, u) \<Longrightarrow> u = has USER l"
  using hw_user unfolding users_ok_def by blast

section \<open>Granting \<open>USER\<close> on the way\<close>

definition hw_le :: "(u64 \<times> nat \<times> bool) option \<Rightarrow> (u64 \<times> nat \<times> bool) option \<Rightarrow> bool" where
  "hw_le = rel_option (\<lambda>(l, n, u) (l', n', u'). l' = l \<and> n' = n \<and> (u \<longrightarrow> u'))"

lemma hw_le_refl [simp]: "hw_le x x"
  by (simp add: hw_le_def option.rel_refl split_def)

lemma users_ok_le:
  assumes u: "users_ok E Rs K" and le: "\<And>r ps. r \<in> Rs \<Longrightarrow> length ps = 4 \<Longrightarrow> indices ps \<Longrightarrow> hw_le (hw E r ps) (hw E' r ps)"
  shows "users_ok E' Rs K"
  unfolding users_ok_def
proof (intro ballI allI impI)
  fix r ps l n v assume r: "r \<in> Rs" "length ps = 4" "indices ps" and h: "hw E' r ps = Some (l, n, v)" "has USER l"
  obtain w where w: "hw E r ps = Some (l, n, w)" "w \<longrightarrow> v" using le [OF r] h(1) by (cases "hw E r ps") (auto simp: hw_le_def)
  then show "n = 0 \<and> v \<and> window ps \<and> r \<noteq> K" using u r h(2) unfolding users_ok_def by blast
qed

lemma mapping_le:
  assumes "users_ok E Rs K" "users_ok E' Rs K" "r \<in> Rs" "hw_le (hw E r (path va)) (hw E' r (path va))"
  shows "mapping E' r va = mapping E r va"
proof (cases "hw E r (path va)")
  case (Some x)
  obtain l n u where x: "x = (l, n, u)" by (cases x)
  obtain u' where u': "hw E' r (path va) = Some (l, n, u')" using assms(4) Some x by (cases "hw E' r (path va)") (auto simp: hw_le_def)
  have "u = has USER l" "u' = has USER l"
    using hw_user_iff [OF assms(1,3) path_ok(2,1)] hw_user_iff [OF assms(2,3) path_ok(2,1)] Some x u' by blast+
  then show ?thesis using Some x u' by (simp add: mapping_def)
qed (use assms(4) in \<open>auto simp: mapping_def hw_le_def\<close>)

lemma descends_or_user: "descends n (e OR USER) = descends n e" "nxt (e OR USER) = nxt e"
  by (simp_all add: descends_def pte)

lemma user_step:
  assumes e: "edit_at E Rs T p t i (E t i OR USER) E'" and d: "descends (3 - length p) (E t i)"
  shows user_step_tab: "r \<in> Rs \<Longrightarrow> indices q \<Longrightarrow> tab_at E' 3 r q = tab_at E 3 r q"
    and user_step_trees: "trees_ok E' Rs T"
    and user_step_hw: "r \<in> Rs \<Longrightarrow> length ps = 4 \<Longrightarrow> indices ps \<Longrightarrow> hw_le (hw E r ps) (hw E' r ps)"
proof -
  show tab: "tab_at E' 3 r q = tab_at E 3 r q" if "r \<in> Rs" "indices q" for r q
    by (rule edit_keep [OF e _ _ that]) (simp_all add: descends_or_user)
  then show "trees_ok E' Rs T" using trees_ok_cong [OF edit_at_trees [OF e]] by blast
  show "hw_le (hw E r ps) (hw E' r ps)" if r: "r \<in> Rs" and ps: "length ps = 4" "indices ps" for r ps
  proof (cases "\<exists>s. ps = p @ i # s \<and> tab_at E 3 r p = Some t")
    case False
    then show ?thesis using edit_other [OF e r ps(2,1)] by simp
  next
    case True
    then obtain s where s: "ps = p @ i # s" and t: "tab_at E 3 r p = Some t" by blast
    have l: "length p + length s = 3" and is_s: "indices s" using ps s by auto
    have n: "3 - length p = length s" "length p + length (i # s) - 1 = 3" using l by auto
    have p: "has PRESENT (E t i)" using d by (simp add: descends_def)
    have "hw E' t (i # s) = map_option (\<lambda>(l, n, u). (l, n, u)) (hw E (nxt (E t i)) s)"
      using edit_below [OF e r t l _ is_s] d n(1) p edit_at_new [OF e] descends_or_user
      by (simp add: pte Let_def)
    then show ?thesis
      using edit_pass [OF e r t l] hw_append [of E p "i # s" r t] t n p d
      by (cases "hw E (nxt (E t i)) s") (auto simp: s hw_le_def Let_def)
  qed
qed

section \<open>Splitting a 2 MiB page\<close>

definition split_leaf :: "u64 \<Rightarrow> nat \<Rightarrow> u64" where
  "split_leaf e2 j = ((e2 AND ADDR_MASK AND NOT 0x1fffff) + of_nat j * PAGE) OR (e2 AND NOT ADDR_MASK AND NOT HUGE)"

lemma small_bits: "j < 512 \<Longrightarrow> bit (of_nat j :: u64) k \<Longrightarrow> k < 9"
  using take_bit_nat_eq_self [of j 9] by (simp add: bit_of_nat_iff) (metis bit_take_bit_iff)

lemma page_index_bits: "of_nat j * PAGE = push_bit 12 (of_nat j :: u64)"
  by (simp add: PAGE_def push_bit_eq_mult)

lemma split_base:
  assumes "j < 512"
  shows "(e AND ADDR_MASK AND NOT 0x1fffff) + of_nat j * PAGE = (nxt e AND NOT (mask 21)) OR push_bit 12 (of_nat j)"
proof -
  have m: "(0x1fffff :: u64) = mask 21" by (simp add: mask_eq_exp_minus_1)
  have "(e AND ADDR_MASK AND NOT 0x1fffff) + of_nat j * PAGE = (nxt e AND NOT (mask 21)) + push_bit 12 (of_nat j)"
    by (simp only: page_index_bits m nxt_def and.assoc)
  also have "\<dots> = (nxt e AND NOT (mask 21)) OR push_bit 12 (of_nat j)"
    by (rule disjunctive_add) (use small_bits [OF assms] in \<open>fastforce simp: bit_simps\<close>)
  finally show ?thesis .
qed

lemma nxt_split_base:
  assumes "j < 512"
  shows "nxt ((nxt e AND NOT (mask 21)) OR push_bit 12 (of_nat j)) = (nxt e AND NOT (mask 21)) OR push_bit 12 (of_nat j)"
  unfolding nxt_def addr_mask_bits
  by (rule bit_eqI) (use small_bits [OF assms] in \<open>force simp: bit_and_iff bit_or_iff bit_not_iff bit_mask_iff bit_push_bit_iff\<close>)

lemma split_leaf_has [pte]:
  assumes "j < 512"
  shows "has PRESENT (split_leaf e j) = has PRESENT e" "has WRITABLE (split_leaf e j) = has WRITABLE e"
    "has NX (split_leaf e j) = has NX e" "has USER (split_leaf e j) = has USER e" "\<not> has HUGE (split_leaf e j)"
    "nxt (split_leaf e j) = (nxt e AND NOT (mask 21)) OR push_bit 12 (of_nat j)"
proof -
  have b: "\<not> has b (nxt e AND NOT (mask 21))" "\<not> has b (push_bit 12 (of_nat j))" if "flag b" for b
    using has_addr [OF that nxt_split_base [OF assms]] by (simp_all add: has_or)
  have f: "flag (e AND NOT ADDR_MASK AND NOT HUGE)" using flag_and(2) [OF flag_and(1) [of e], of "NOT HUGE"] by (simp add: and.assoc)
  have h: "has b (e AND NOT ADDR_MASK AND NOT HUGE) = has b ((e AND NOT ADDR_MASK) AND NOT HUGE)" for b
    by (simp add: and.assoc)
  show "has PRESENT (split_leaf e j) = has PRESENT e" "has WRITABLE (split_leaf e j) = has WRITABLE e"
    "has NX (split_leaf e j) = has NX e" "has USER (split_leaf e j) = has USER e" "\<not> has HUGE (split_leaf e j)"
    unfolding split_leaf_def split_base [OF assms] has_or h by (simp_all add: b pte)
  show "nxt (split_leaf e j) = (nxt e AND NOT (mask 21)) OR push_bit 12 (of_nat j)"
    unfolding split_leaf_def split_base [OF assms] nxt_or [of "_ OR _"] nxt_split_base [OF assms] by (simp add: nxt_flag [OF f])
qed

lemma split_leaf_address:
  "(nxt (split_leaf e (pt_idx va 0)) AND NOT (mask 12)) + (va AND mask 12) = (nxt e AND NOT (mask 21)) + (va AND mask 21)"
proof -
  have j: "(of_nat (pt_idx va 0) :: u64) = drop_bit 12 va AND mask 9"
    by (simp add: pt_idx_def mask_eq_exp_minus_1)
  have "(nxt (split_leaf e (pt_idx va 0)) AND NOT (mask 12)) + (va AND mask 12)
      = (nxt (split_leaf e (pt_idx va 0)) AND NOT (mask 12)) OR (va AND mask 12)"
    by (rule disjunctive_add) (auto simp: bit_simps)
  also have "\<dots> = (nxt e AND NOT (mask 21)) OR (va AND mask 21)"
    unfolding split_leaf_has(6) [OF pt_idx_bound] j
    by (auto simp: nxt_def addr_mask_bits bit_eq_iff bit_simps)
  also have "\<dots> = (nxt e AND NOT (mask 21)) + (va AND mask 21)"
    by (rule disjunctive_add [symmetric]) (auto simp: bit_simps)
  finally show ?thesis .
qed

lemma split_step:
  assumes e: "edit_at E Rs T p t i e E'" and p: "length p = 2" and o: "has PRESENT (E t i)" "has HUGE (E t i)"
    and n: "has PRESENT e" "\<not> has HUGE e" "nxt e \<notin> T" and s: "\<And>j. j < 512 \<Longrightarrow> E' (nxt e) j = split_leaf (E t i) j"
    and u: "users_ok E Rs K"
  shows split_step_trees: "trees_ok E' Rs (insert (nxt e) T)"
    and split_step_tab: "r \<in> Rs \<Longrightarrow> indices q \<Longrightarrow>
      tab_at E' 3 r q = (if q = p @ [i] \<and> tab_at E 3 r p = Some t then Some (nxt e) else tab_at E 3 r q)"
    and split_step_users: "users_ok E' Rs K"
    and split_step_mapping: "r \<in> Rs \<Longrightarrow> mapping E' r va = mapping E r va"
proof -
  have od: "\<not> descends (3 - length p) (E t i)" and nd: "descends (3 - length p) e"
    using o n p by (simp_all add: descends_def)
  have z: "\<not> descends (3 - length p - 1) (E' (nxt e) j)" if "j < 512" for j using p by (simp add: descends_def)
  show "trees_ok E' Rs (insert (nxt e) T)" by (rule edit_attach_trees [OF e od nd n(3) z])
  show "tab_at E' 3 r q = (if q = p @ [i] \<and> tab_at E 3 r p = Some t then Some (nxt e) else tab_at E 3 r q)"
    if "r \<in> Rs" "indices q" for r q by (rule edit_attach [OF e od nd n(3) z that])
  have pass: "hw E r ps = Some (E t i, 1, has USER (E t i) \<and> users E r p) \<and> \<not> has USER (E t i)
      \<and> hw E' r ps = Some (split_leaf (E t i) (ps ! 3), 0, False)"
    if r: "r \<in> Rs" and ps: "length ps = 4" "indices ps" and w: "ps = p @ i # s'" "tab_at E 3 r p = Some t" for r ps s'
  proof -
    obtain j where s': "s' = [j]" using ps(1) w(1) p by (cases s') auto
    then have j: "j < 512" "ps ! 3 = j" using ps w(1) p by (auto simp: nth_append)
    have h: "hw E r ps = Some (E t i, 1, has USER (E t i) \<and> users E r p)"
      using hw_append [of E p "i # s'" r t] w(2) p s' o by (auto simp: w(1) descends_def Let_def)
    moreover have nu: "\<not> has USER (E t i)" using u r ps h unfolding users_ok_def by fastforce
    moreover have "hw E' r ps = Some (split_leaf (E t i) (ps ! 3), 0, False)"
      using edit_pass [OF e r w(2), of s'] p s' n j s [OF j(1)] o nu edit_at_new [OF e]
      by (auto simp: w(1) descends_def Let_def pte)
    ultimately show ?thesis by blast
  qed
  show "users_ok E' Rs K"
    unfolding users_ok_def
  proof (intro ballI allI impI)
    fix r ps l m v assume r: "r \<in> Rs" "length ps = 4" "indices ps" and h: "hw E' r ps = Some (l, m, v)" "has USER l"
    show "m = 0 \<and> v \<and> window ps \<and> r \<noteq> K"
    proof (cases "\<exists>s'. ps = p @ i # s' \<and> tab_at E 3 r p = Some t")
      case True
      then obtain s' where w: "ps = p @ i # s'" "tab_at E 3 r p = Some t" by blast
      have "ps ! 3 < 512" using r(2,3) by (auto simp: indices_def)
      then show ?thesis using pass [OF r w] h by (auto simp: pte)
    next
      case False
      then show ?thesis using edit_other [OF e r(1,3,2)] h u r unfolding users_ok_def by fastforce
    qed
  qed
  show "mapping E' r va = mapping E r va" if r: "r \<in> Rs" for r
  proof (cases "\<exists>s'. path va = p @ i # s' \<and> tab_at E 3 r p = Some t")
    case True
    then obtain s' where w: "path va = p @ i # s'" "tab_at E 3 r p = Some t" by blast
    have "path va ! 3 = pt_idx va 0" by (simp add: path_def)
    then show ?thesis using pass [OF r path_ok(2,1) w] split_leaf_address [of "E t i" va]
      by (simp add: mapping_def pte)
  next
    case False
    then show ?thesis using edit_other [OF e r path_ok(1,2)] by (simp add: mapping_def)
  qed
qed

section \<open>Writing a leaf\<close>

lemma leaf_step:
  assumes e: "edit_at E Rs T p t i e E'" and p: "length p = 3"
  shows leaf_step_tab: "r \<in> Rs \<Longrightarrow> indices q \<Longrightarrow> tab_at E' 3 r q = tab_at E 3 r q"
    and leaf_step_trees: "trees_ok E' Rs T"
    and leaf_step_hw: "r \<in> Rs \<Longrightarrow> length ps = 4 \<Longrightarrow> indices ps \<Longrightarrow> hw E' r ps =
      (if ps = p @ [i] \<and> tab_at E 3 r p = Some t
       then if has PRESENT e then Some (e, 0, has USER e \<and> users E r p) else None else hw E r ps)"
proof -
  show tab: "tab_at E' 3 r q = tab_at E 3 r q" if "r \<in> Rs" "indices q" for r q
    by (rule edit_keep [OF e _ _ that]) (simp_all add: descends_def p)
  then show "trees_ok E' Rs T" using trees_ok_cong [OF edit_at_trees [OF e]] by blast
  show "hw E' r ps = (if ps = p @ [i] \<and> tab_at E 3 r p = Some t
       then if has PRESENT e then Some (e, 0, has USER e \<and> users E r p) else None else hw E r ps)"
    if r: "r \<in> Rs" and ps: "length ps = 4" "indices ps" for r ps
  proof (cases "\<exists>s. ps = p @ i # s \<and> tab_at E 3 r p = Some t")
    case True
    then have "ps = p @ [i]" "tab_at E 3 r p = Some t" using ps p by auto
    then show ?thesis using edit_pass [OF e r, of "[]"] p edit_at_new [OF e] by (auto simp: descends_def Let_def)
  next
    case False
    then show ?thesis using edit_other [OF e r ps(2,1)] by auto
  qed
qed

lemma leaf_step_users:
  assumes e: "edit_at E Rs T p t i e E'" and p: "length p = 3" and u: "users_ok E Rs K"
    and g: "\<And>r. has USER e \<Longrightarrow> r \<in> Rs \<Longrightarrow> tab_at E 3 r p = Some t \<Longrightarrow> users E r p \<and> window (p @ [i]) \<and> r \<noteq> K"
  shows "users_ok E' Rs K"
  unfolding users_ok_def
proof (intro ballI allI impI)
  fix r ps l n v assume r: "r \<in> Rs" "length ps = 4" "indices ps" and h: "hw E' r ps = Some (l, n, v)" "has USER l"
  show "n = 0 \<and> v \<and> window ps \<and> r \<noteq> K"
  proof (cases "ps = p @ [i] \<and> tab_at E 3 r p = Some t")
    case True
    then show ?thesis using leaf_step_hw [OF e p r] h g [OF _ r(1)] by (auto split: if_splits)
  next
    case False
    then have "hw E r ps = Some (l, n, v)" using leaf_step_hw [OF e p r] h by auto
    then show ?thesis using u r h(2) unfolding users_ok_def by blast
  qed
qed

end
