(* ===== verification/Arch_Space.thy ===== *)
theory Arch_Space
  imports Arch_Edits
begin

text \<open>
  The address-space operations of \<^verbatim>\<open>paging.rs\<close> against the walk specification: every operation keeps
  the tables a forest (\<open>trees_ok\<close>) of allocated frames, and its effect on the abstract \<open>mapping\<close> of
  every root is exactly what it promises.
\<close>

section \<open>The state\<close>

definition vm_ok :: "nat set \<Rightarrow> u64 set \<Rightarrow> u64 set \<Rightarrow> (u64 \<times> nat) set \<Rightarrow> vm \<Rightarrow> bool" where
  "vm_ok U Rs T H m \<longleftrightarrow> frames_ok U (vframes m) H \<and> U \<subseteq> {..<2 ^ 20} \<and> unat (vhhdm m) + 2 ^ 33 \<le> 2 ^ 64
     \<and> (\<forall>t\<in>T. (t, 0) \<in> H) \<and> trees_ok (ptab m) Rs T \<and> users_ok (ptab m) Rs (KERNEL_PML4 m)
     \<and> KERNEL_PML4 m \<in> Rs \<and> cr3 m \<in> Rs \<and> (\<forall>r\<in>Rs. tab_at (ptab m) 3 r [0, 1] \<noteq> None)"

lemma vm_okD:
  assumes "vm_ok U Rs T H m"
  shows "frames_ok U (vframes m) H" "U \<subseteq> {..<2 ^ 20}" "unat (vhhdm m) + 2 ^ 33 \<le> 2 ^ 64" "t \<in> T \<Longrightarrow> (t, 0) \<in> H"
    "trees_ok (ptab m) Rs T" "users_ok (ptab m) Rs (KERNEL_PML4 m)" "KERNEL_PML4 m \<in> Rs" "cr3 m \<in> Rs"
    "r \<in> Rs \<Longrightarrow> \<exists>t. tab_at (ptab m) 3 r [0, 1] = Some t"
  using assms by (auto simp: vm_ok_def)

lemma vm_ok_update:
  assumes ok: "vm_ok U Rs T H m" and f: "frames_ok U (vframes m') H'"
    and "vhhdm m' = vhhdm m" "KERNEL_PML4 m' = KERNEL_PML4 m" "cr3 m' \<in> Rs"
    and "\<And>t. t \<in> T' \<Longrightarrow> (t, 0) \<in> H'" "trees_ok (ptab m') Rs T'" "users_ok (ptab m') Rs (KERNEL_PML4 m)"
    and w: "\<And>r t. r \<in> Rs \<Longrightarrow> tab_at (ptab m) 3 r [0, 1] = Some t \<Longrightarrow> tab_at (ptab m') 3 r [0, 1] = Some t"
  shows "vm_ok U Rs T' H' m'"
proof -
  have "tab_at (ptab m') 3 r [0, 1] \<noteq> None" if "r \<in> Rs" for r using w [OF that] vm_okD(9) [OF ok that] by (auto simp del: tab_at.simps)
  then show ?thesis using assms vm_okD [OF ok] by (simp add: vm_ok_def del: tab_at.simps)
qed

text \<open>A frame of the allocator is below 4 GiB and page-aligned.\<close>

definition frame_addr :: "u64 \<Rightarrow> bool" where "frame_addr t \<longleftrightarrow> (\<exists>p<2 ^ 20. t = phys p)"

lemma frame_addr_held:
  assumes "frames_ok U g H" "U \<subseteq> {..<2 ^ 20}" "(t, k) \<in> H"
  shows "frame_addr t"
proof -
  obtain fa :: frame_allocator and F A n where g: "buddy_ok n (fa_buddy fa) F A {x. base_pfn fa + x \<in> U}" "base_pfn fa + n < 2 ^ 32"
    "H = (\<lambda>(x, k). (phys (base_pfn fa + x), k)) ` A" using assms(1) unfolding frames_ok_def by blast
  obtain x where x: "(x, k) \<in> A" "t = phys (base_pfn fa + x)" using assms(3) g(3) by auto
  have "x \<in> frames (x, k)" by (rule base_in_frames)
  then have "base_pfn fa + x \<in> U" using buddy_okD(4) [OF g(1) x(1)] by auto
  then show ?thesis using x(2) assms(2) by (auto simp: frame_addr_def)
qed

lemma nxt_pfn_to_phys: "nxt (pfn_to_phys p) = pfn_to_phys p"
  unfolding nxt_def addr_mask_bits pfn_to_phys_def PAGE_SHIFT_def
proof (rule bit_eqI)
  fix n assume "possible_bit TYPE(64 word) n"
  have "n < 52" if "bit (ucast p :: u64) (n - 12)" "12 \<le> n"
    using that bit_imp_le_length [of p "n - 12"] by (simp add: bit_ucast_iff)
  then show "bit (push_bit 12 (ucast p :: u64) AND mask 52 AND NOT (mask 12)) n = bit (push_bit 12 (ucast p :: u64)) n"
    by (auto simp: bit_and_iff bit_not_iff bit_mask_iff bit_push_bit_iff)
qed

lemma frame_addr_bits:
  assumes "frame_addr t"
  shows "nxt t = t" "unat t < 2 ^ 32"
proof -
  obtain p where p: "p < 2 ^ 20" "t = pfn_to_phys (of_nat p)" using assms by (auto simp: frame_addr_def phys_def)
  show "nxt t = t" using p(2) nxt_pfn_to_phys by simp
  have "unat (of_nat p :: u32) = p" using p(1) by (simp add: unat_of_nat)
  then have "unat t = 4096 * p" using p(2) unat_pfn_to_phys by simp
  then show "unat t < 2 ^ 32" using p(1) by simp
qed

lemma frame_virt:
  assumes "frame_addr t" "unat hhdm + 2 ^ 33 \<le> 2 ^ 64"
  shows "\<exists>v. phys_to_virt hhdm t = Some v"
  using frame_addr_bits(2) [OF assms(1)] assms(2) by (cases "checked_add t hhdm") (auto simp: phys_to_virt_def checked_add_None)

lemma table_frame: "vm_ok U Rs T H m \<Longrightarrow> t \<in> T \<Longrightarrow> frame_addr t"
  by (rule frame_addr_held [OF vm_okD(1) vm_okD(2) vm_okD(4)])

lemma entry_ops:
  assumes "frame_addr t" "unat (vhhdm m) + 2 ^ 33 \<le> 2 ^ 64"
  shows "read_entry m t i = Some (ptab m t i)" "write_entry t i v m = Some (m\<lparr>ptab := (ptab m)(t := (ptab m t)(i := v))\<rparr>)"
  using frame_virt [OF assms] by (auto simp: read_entry_def write_entry_def)

text \<open>A fresh table is a zeroed frame that nobody holds.\<close>

lemma alloc_table_cases:
  assumes f: "frames_ok U (vframes m) H" "U \<subseteq> {..<2 ^ 20}" "unat (vhhdm m) + 2 ^ 33 \<le> 2 ^ 64"
  obtains "alloc_table m = None"
  | t g where "alloc_table m = Some (t, m\<lparr>vframes := g, ptab := (ptab m)(t := \<lambda>_. 0)\<rparr>)"
      "(t, 0) \<notin> H" "frames_ok U g (insert (t, 0) H)" "frame_addr t"
proof -
  from kernel_frames.alloc_law [OF f(1), of 0] show ?thesis
  proof (elim disjE exE conjE)
    assume "alloc_frames (vframes m) 0 = Some (None, vframes m)"
    then have "alloc_table m = None" by (simp add: alloc_table_def alloc_zeroed_frame_def)
    then show ?thesis by (rule that(1))
  next
    fix pa g assume a: "alloc_frames (vframes m) 0 = Some (Some pa, g)" "(pa, 0) \<notin> H" "frames_ok U g (insert (pa, 0) H)"
    have pa: "frame_addr pa" using frame_addr_held [OF a(3) f(2)] by blast
    obtain v where "phys_to_virt (vhhdm m) pa = Some v" using frame_virt [OF pa f(3)] by blast
    then have "alloc_table m = Some (pa, m\<lparr>vframes := g, ptab := (ptab m)(pa := \<lambda>_. 0)\<rparr>)"
      using a(1) by (simp add: alloc_table_def alloc_zeroed_frame_def zero_range_def)
    then show ?thesis by (rule that(2)) (use a pa in auto)
  qed
qed

lemma current_pml4_eq: "vm_ok U Rs T H m \<Longrightarrow> current_pml4 m = cr3 m"
  using table_frame trees_ok_table [OF vm_okD(5), of U Rs T H m "cr3 m" "[]" "cr3 m"] vm_okD(8) frame_addr_bits(1)
  by (fastforce simp: current_pml4_def nxt_def)

section \<open>The walk of the code is the walk of the hardware\<close>

lemma has_alt: "(e AND b = 0) \<longleftrightarrow> \<not> has b e" "e AND ADDR_MASK = nxt e"
  by (simp_all add: has_def nxt_def)

lemma position_tables:
  assumes ok: "vm_ok U Rs T H m" and r: "r \<in> Rs" and p: "indices p" "tab_at (ptab m) 3 r p = Some t"
  shows "read_entry m t i = Some (ptab m t i)"
  using entry_ops(1) [OF table_frame [OF ok trees_ok_table [OF vm_okD(5) [OF ok] r p]] vm_okD(3) [OF ok]] .

lemma walk_hw:
  assumes ok: "vm_ok U Rs T H m"
  shows "walk m va = Some (map_option (\<lambda>(l, n, u). (l, mask (12 + 9 * n))) (hw (ptab m) (cr3 m) (path va)))"
proof -
  let ?E = "ptab m" and ?r = "cr3 m"
  note rd = position_tables [OF ok vm_okD(8) [OF ok]]
  note m = mask_eq_exp_minus_1
  show ?thesis
    using rd [of "[]" ?r "pt_idx va 3"]
      rd [of "[pt_idx va 3]" "nxt (?E ?r (pt_idx va 3))" "pt_idx va 2"]
      rd [of "[pt_idx va 3, pt_idx va 2]" "nxt (?E (nxt (?E ?r (pt_idx va 3))) (pt_idx va 2))" "pt_idx va 1"]
      rd [of "[pt_idx va 3, pt_idx va 2, pt_idx va 1]"
        "nxt (?E (nxt (?E (nxt (?E ?r (pt_idx va 3))) (pt_idx va 2))) (pt_idx va 1))" "pt_idx va 0"]
    by (simp add: walk_def current_pml4_eq [OF ok] has_alt path_def descends_def Let_def m)
qed

lemma hw_levels: "length ps = 4 \<Longrightarrow> hw E r ps = Some (l, n, u) \<Longrightarrow> n \<le> 2"
proof -
  have sub: "hw E t q = Some (l, n, u) \<Longrightarrow> n < length q" for t q u
    by (induction q arbitrary: t u) (auto simp: Let_def intro: less_SucI split: if_splits)
  assume ps: "length ps = 4" and h: "hw E r ps = Some (l, n, u)"
  then obtain i q where q: "ps = i # q" "length q = 3" by (cases ps) auto
  then obtain b where "hw E (nxt (E r i)) q = Some (l, n, b)" using h by (auto simp: Let_def descends_def split: if_splits)
  then show ?thesis using sub q(2) by fastforce
qed

lemma translate_mapping:
  assumes ok: "vm_ok U Rs T H m"
  shows "translate m va = Some (map_option fst (mapping (ptab m) (cr3 m) va))"
proof (cases "hw (ptab m) (cr3 m) (path va)")
  case None
  then show ?thesis by (simp add: translate_def walk_hw [OF ok] mapping_def)
next
  case (Some x)
  obtain l n u where x: "x = (l, n, u)" by (cases x)
  let ?k = "12 + 9 * n" and ?a = "nxt l AND NOT (mask (12 + 9 * n))" and ?b = "va AND mask (12 + 9 * n)"
  have n: "n \<le> 2" using hw_levels [OF path_ok(2)] Some x by blast
  have "?a \<le> ADDR_MASK" using word_and_le1 [of "l AND NOT (mask ?k)" ADDR_MASK] by (simp add: nxt_def ac_simps)
  then have a: "unat ?a < 2 ^ 52" by (simp add: word_le_nat_alt ADDR_MASK_def)
  have "?b \<le> mask ?k" by (rule word_and_le1)
  moreover have "(mask ?k :: u64) \<le> mask 30"
  proof -
    have "n = 0 \<or> n = 1 \<or> n = 2" using n by auto
    then show ?thesis by (auto simp: mask_eq_exp_minus_1)
  qed
  ultimately have "?b \<le> mask 30" by simp
  then have b: "unat ?b < 2 ^ 31" by (simp add: word_le_nat_alt mask_eq_exp_minus_1)
  have "checked_add ?a ?b = Some (?a + ?b)" using a b by (simp add: checked_add_def unat_bound)
  then show ?thesis using Some x by (simp add: translate_def walk_hw [OF ok] mapping_def nxt_def and.assoc)
qed

lemma page_prot_mapping:
  assumes ok: "vm_ok U Rs T H m"
  shows "page_prot m va = Some (map_option (\<lambda>(_, w, x, _). (w, x)) (mapping (ptab m) (cr3 m) va))"
  by (cases "hw (ptab m) (cr3 m) (path va)") (auto simp: page_prot_def walk_hw [OF ok] mapping_def has_def)

section \<open>Loops over a table\<close>

lemma fill_table:
  assumes "frame_addr t" "unat (vhhdm m) + 2 ^ 33 \<le> 2 ^ 64"
  shows "for_each (\<lambda>j. write_entry t j (f j)) [0..<n] m
    = Some (m\<lparr>ptab := (ptab m)(t := \<lambda>j. if j < n then f j else ptab m t j)\<rparr>)"
proof (induction n)
  case (Suc n)
  let ?m = "m\<lparr>ptab := (ptab m)(t := \<lambda>j. if j < n then f j else ptab m t j)\<rparr>"
  have "(\<lambda>j. if j < n then f j else ptab m t j)(n := f n) = (\<lambda>j. if j < Suc n then f j else ptab m t j)" by auto
  then show ?case using Suc entry_ops(2) [OF assms(1), of ?m n "f n"] assms(2) by (simp del: fun_upd_apply add: fun_upd_same)
qed simp

lemma copy_table:
  assumes "frame_addr new" "frame_addr orig" "orig \<noteq> new" "unat (vhhdm m) + 2 ^ 33 \<le> 2 ^ 64"
  shows "for_each (\<lambda>i m. do { e \<leftarrow> read_entry m orig i; write_entry new i e m }) [0..<n] m
    = Some (m\<lparr>ptab := (ptab m)(new := \<lambda>j. if j < n then ptab m orig j else ptab m new j)\<rparr>)"
proof (induction n)
  case (Suc n)
  let ?m = "m\<lparr>ptab := (ptab m)(new := \<lambda>j. if j < n then ptab m orig j else ptab m new j)\<rparr>"
  have "(\<lambda>j. if j < n then ptab m orig j else ptab m new j)(n := ptab m orig n)
      = (\<lambda>j. if j < Suc n then ptab m orig j else ptab m new j)" by auto
  then show ?case
    using Suc entry_ops(2) [OF assms(1), of ?m n "ptab m orig n"] entry_ops(1) [OF assms(2), of ?m n] assms(3,4)
    by (simp del: fun_upd_apply add: fun_upd_other fun_upd_same)
qed simp

lemma split_into_eq:
  assumes "frame_addr t" "unat (vhhdm m) + 2 ^ 33 \<le> 2 ^ 64"
  shows "split_into e t m = Some (m\<lparr>ptab := (ptab m)(t := \<lambda>j. if j < 512 then split_leaf e j else ptab m t j)\<rparr>)"
  using fill_table [OF assms, of "split_leaf e" 512] unfolding split_into_def split_leaf_def Let_def .

section \<open>Editing the active tables\<close>

text \<open>Steps that leave every translation and every table where it was.\<close>

definition keeps :: "u64 set \<Rightarrow> vm \<Rightarrow> vm \<Rightarrow> bool" where
  "keeps Rs m m' \<longleftrightarrow> vhhdm m' = vhhdm m \<and> cr3 m' = cr3 m \<and> KERNEL_PML4 m' = KERNEL_PML4 m \<and> invlpgs m' = invlpgs m
     \<and> (\<forall>r\<in>Rs. \<forall>va. mapping (ptab m') r va = mapping (ptab m) r va)
     \<and> (\<forall>r\<in>Rs. \<forall>q t. indices q \<longrightarrow> tab_at (ptab m) 3 r q = Some t \<longrightarrow> tab_at (ptab m') 3 r q = Some t)"

lemma view_keeps_refl [simp]: "keeps Rs m m"
  by (simp add: keeps_def)

lemma view_keeps_trans: "keeps Rs m m' \<Longrightarrow> keeps Rs m' m'' \<Longrightarrow> keeps Rs m m''"
  unfolding keeps_def by metis

lemma keeps_tab: "keeps Rs m m' \<Longrightarrow> r \<in> Rs \<Longrightarrow> indices q \<Longrightarrow> tab_at (ptab m) 3 r q = Some t \<Longrightarrow> tab_at (ptab m') 3 r q = Some t"
  unfolding keeps_def by blast

lemma edit_at_write:
  assumes "trees_ok E Rs T" "r \<in> Rs" "indices p" "tab_at E 3 r p = Some t" "i < 512"
  shows "edit_at E Rs T p t i e (E(t := (E t)(i := e)))"
  using assms by (auto simp: edit_at_def edited_def)

lemma or_user_same: "has USER e \<Longrightarrow> e OR USER = e"
proof -
  assume h: "has USER e"
  have u: "USER = 2 ^ 2" by (simp add: USER_def)
  have "bit e 2" using h unfolding has_def u and_exp_eq_0_iff_not_bit by simp
  then show ?thesis unfolding u by (intro bit_eqI) (simp only: bit_or_iff bit_exp_iff, auto)
qed

lemma set_user_ok:
  assumes ok: "vm_ok U Rs T H m" and r: "r \<in> Rs" and p: "indices p" "tab_at (ptab m) 3 r p = Some t" "i < 512"
    and d: "descends (3 - length p) (ptab m t i)"
  shows "\<exists>m'. set_user t i (ptab m t i) m = Some m' \<and> vm_ok U Rs T H m' \<and> keeps Rs m m'
    \<and> ptab m' = (ptab m)(t := (ptab m t)(i := ptab m t i OR USER)) \<and> vframes m' = vframes m"
proof -
  let ?E = "ptab m" let ?E' = "?E(t := (?E t)(i := ?E t i OR USER))"
  have e: "edit_at ?E Rs T p t i (?E t i OR USER) ?E'" by (rule edit_at_write [OF vm_okD(5) [OF ok] r p])
  note w = entry_ops(2) [OF table_frame [OF ok trees_ok_table [OF vm_okD(5) [OF ok] r p(1,2)]] vm_okD(3) [OF ok]]
  have "set_user t i (?E t i) m = Some (m\<lparr>ptab := ?E'\<rparr>)"
    by (cases "has USER (?E t i)") (simp_all add: set_user_def has_alt or_user_same w)
  moreover have u: "users_ok ?E' Rs (KERNEL_PML4 m)" by (rule users_ok_le [OF vm_okD(6) [OF ok] user_step_hw [OF e d]])
  moreover have "keeps Rs m (m\<lparr>ptab := ?E'\<rparr>)"
    using user_step_tab [OF e d] mapping_le [OF vm_okD(6) [OF ok] u _ user_step_hw [OF e d _ path_ok(2,1)]] by (simp add: keeps_def)
  moreover have "vm_ok U Rs T H (m\<lparr>ptab := ?E'\<rparr>)"
    using u user_step_trees [OF e d] user_step_tab [OF e d, of _ "[0, 1]"] vm_okD(1,4,8) [OF ok]
    by (intro vm_ok_update [OF ok]) (simp_all del: tab_at.simps)
  ultimately show ?thesis by (intro exI [of _ "m\<lparr>ptab := ?E'\<rparr>"]) simp
qed

text \<open>The allocation, split and link of \<open>ensure_pt\<close> and \<open>ensure_pt_user\<close>, with the link flags \<open>g\<close>.\<close>

lemma split_link_ok:
  assumes ok: "vm_ok U Rs T H m" and r: "r \<in> Rs" and p: "indices p" "tab_at (ptab m) 3 r p = Some t" "i < 512" "length p = 2"
    and h: "has PRESENT (ptab m t i)" "has HUGE (ptab m t i)" and g: "flag g" "has PRESENT g" "\<not> has HUGE g"
    and a: "alloc_table m = Some (n, m1)"
  shows "\<exists>m2 m'. split_into (ptab m t i) n m1 = Some m2 \<and> write_entry t i (n OR g) m2 = Some m'
    \<and> vm_ok U Rs (insert n T) (insert (n, 0) H) m' \<and> keeps Rs m m' \<and> n \<notin> T \<and> (n, 0) \<notin> H \<and> nxt n = n
    \<and> (\<forall>t'\<in>T. ptab m' t' = (if t' = t then (ptab m t)(i := n OR g) else ptab m t'))"
proof (rule alloc_table_cases [OF vm_okD(1) [OF ok] vm_okD(2) [OF ok] vm_okD(3) [OF ok]])
  fix n' fr assume al: "alloc_table m = Some (n', m\<lparr>vframes := fr, ptab := (ptab m)(n' := \<lambda>_. 0)\<rparr>)"
    and n': "(n', 0) \<notin> H" "frames_ok U fr (insert (n', 0) H)" "frame_addr n'"
  have n: "n' = n" and m1: "m1 = m\<lparr>vframes := fr, ptab := (ptab m)(n := \<lambda>_. 0)\<rparr>" using a al by auto
  let ?E = "ptab m" let ?s = "\<lambda>j. if j < 512 then split_leaf (?E t i) j else 0"
  define E' where "E' = ?E(n := ?s, t := (?E t)(i := n OR g))"
  have T: "t \<in> T" using trees_ok_table [OF vm_okD(5) [OF ok] r p(1,2)] .
  have nT: "n \<notin> T" using n' n vm_okD(4) [OF ok] by auto
  have nt: "n \<noteq> t" using nT T by auto
  have nn: "nxt n = n" using frame_addr_bits(1) n' n by auto
  have ne: "nxt (n OR g) = n" using nn g(1) by (simp add: pte)
  have e: "edit_at ?E Rs T p t i (n OR g) E'" using vm_okD(5) [OF ok] r p T nT nt by (auto simp: edit_at_def edited_def E'_def)
  have sp: "split_into (?E t i) n m1 = Some (m1\<lparr>ptab := ?E(n := ?s)\<rparr>)"
    using split_into_eq [of n m1 "?E t i"] n' n vm_okD(3) [OF ok] by (simp add: m1 fun_upd_def cong: if_cong)
  let ?m' = "m1\<lparr>ptab := E'\<rparr>"
  have wr: "write_entry t i (n OR g) (m1\<lparr>ptab := ?E(n := ?s)\<rparr>) = Some ?m'"
    using entry_ops(2) [OF table_frame [OF ok T], of "m1\<lparr>ptab := ?E(n := ?s)\<rparr>"] vm_okD(3) [OF ok] nt by (simp add: m1 E'_def)
  have he: "has PRESENT (n OR g)" "\<not> has HUGE (n OR g)" using g nn by (simp_all add: pte)
  have s: "E' (nxt (n OR g)) j = split_leaf (?E t i) j" if "j < 512" for j using that nt by (simp add: ne E'_def)
  have fresh: "nxt (n OR g) \<notin> T" using nT ne by simp
  note st = e p(4) h he fresh s vm_okD(6) [OF ok]
  have tab: "tab_at E' 3 r' q = Some x" if "r' \<in> Rs" "indices q" "tab_at ?E 3 r' q = Some x" for r' q x
    using split_step_tab [OF st that(1,2)] that(3) h(2) p(4) by (auto simp: tab_at_snoc descends_def split: if_splits)
  have "vm_ok U Rs (insert n T) (insert (n, 0) H) ?m'"
    using n' n split_step_trees [OF st] split_step_users [OF st] tab [of _ "[0, 1]"] vm_okD(4,8) [OF ok]
    by (intro vm_ok_update [OF ok]) (auto simp: m1 ne simp del: tab_at.simps)
  moreover have "keeps Rs m ?m'" using split_step_mapping [OF st] tab by (simp add: keeps_def m1)
  moreover have "\<forall>t'\<in>T. ptab ?m' t' = (if t' = t then (?E t)(i := n OR g) else ?E t')" using nT by (auto simp: E'_def)
  ultimately show ?thesis using sp wr nT nn n n' by blast
qed (use a in simp)

text \<open>The 2 MiB region of the address is mapped, by a table or as a whole.\<close>

definition covered :: "tables \<Rightarrow> u64 \<Rightarrow> u64 \<Rightarrow> bool" where
  "covered E r v \<longleftrightarrow> (\<exists>pd. tab_at E 3 r [pt_idx v 3, pt_idx v 2] = Some pd \<and> has PRESENT (E pd (pt_idx v 1)))"

text \<open>Tables added, each in a frame of its own.\<close>

definition grown :: "u64 set \<Rightarrow> (u64 \<times> nat) set \<Rightarrow> u64 set \<Rightarrow> (u64 \<times> nat) set \<Rightarrow> bool" where
  "grown T H T' H' \<longleftrightarrow> (\<exists>N. T' = T \<union> N \<and> H' = H \<union> N \<times> {0} \<and> N \<times> {0} \<inter> H = {})"

lemma grown_refl [simp]: "grown T H T H"
  unfolding grown_def by (rule exI [of _ "{}"]) simp

lemma grown_insert: "(n, 0) \<notin> H \<Longrightarrow> grown T H (insert n T) (insert (n, 0) H)"
  unfolding grown_def by (rule exI [of _ "{n}"]) auto

lemma ensure_pt_covered:
  assumes ok: "vm_ok U Rs T H m" and pd: "tab_at (ptab m) 3 (cr3 m) [pt_idx v 3, pt_idx v 2] = Some pd" "has PRESENT (ptab m pd (pt_idx v 1))"
  shows "ensure_pt v m = (if has HUGE (ptab m pd (pt_idx v 1)) then do {
       (new_pt, m1) \<leftarrow> alloc_table m;
       m1 \<leftarrow> split_into (ptab m pd (pt_idx v 1)) new_pt m1;
       m1 \<leftarrow> write_entry pd (pt_idx v 1) (new_pt OR PRESENT OR WRITABLE) m1;
       Some (new_pt, m1) } else Some (nxt (ptab m pd (pt_idx v 1)), m))"
proof -
  let ?e4 = "ptab m (cr3 m) (pt_idx v 3)" let ?e3 = "ptab m (nxt ?e4) (pt_idx v 2)"
  have d: "descends 3 ?e4" "descends 2 ?e3" "pd = nxt ?e3" using pd(1) by (auto split: if_splits)
  note rd = position_tables [OF ok vm_okD(8) [OF ok]]
  have "read_entry m (cr3 m) (pt_idx v 3) = Some ?e4" "read_entry m (nxt ?e4) (pt_idx v 2) = Some ?e3"
    "read_entry m pd (pt_idx v 1) = Some (ptab m pd (pt_idx v 1))"
    using rd [of "[]"] rd [of "[pt_idx v 3]"] rd [of "[pt_idx v 3, pt_idx v 2]"] d pd by simp_all
  then show ?thesis using d pd(2) by (simp add: ensure_pt_def current_pml4_eq [OF ok] has_alt descends_def Let_def)
qed

lemma ensure_pt_uncovered:
  assumes ok: "vm_ok U Rs T H m" and c: "\<not> covered (ptab m) (cr3 m) v"
  shows "ensure_pt v m = None"
proof -
  let ?e4 = "ptab m (cr3 m) (pt_idx v 3)" let ?e3 = "ptab m (nxt ?e4) (pt_idx v 2)"
  note rd = position_tables [OF ok vm_okD(8) [OF ok]]
  show ?thesis
    using rd [of "[]" "cr3 m" "pt_idx v 3"] rd [of "[pt_idx v 3]" "nxt ?e4" "pt_idx v 2"]
      rd [of "[pt_idx v 3, pt_idx v 2]" "nxt ?e3" "pt_idx v 1"] c
    by (auto simp: ensure_pt_def current_pml4_eq [OF ok] has_alt descends_def Let_def covered_def)
qed

lemma link_flags: "flag (PRESENT OR WRITABLE)" "has PRESENT (PRESENT OR WRITABLE)" "\<not> has HUGE (PRESENT OR WRITABLE)"
    "flag (PRESENT OR WRITABLE OR USER)" "has PRESENT (PRESENT OR WRITABLE OR USER)" "\<not> has HUGE (PRESENT OR WRITABLE OR USER)"
    "has USER (PRESENT OR WRITABLE OR USER)"
  by (simp_all add: pte)

definition edit_ready :: "nat set \<Rightarrow> u64 set \<Rightarrow> u64 set \<Rightarrow> (u64 \<times> nat) set \<Rightarrow> vm \<Rightarrow> u64 \<Rightarrow> u64 \<Rightarrow> vm \<Rightarrow> bool" where
  "edit_ready U Rs T H m v pt m' \<longleftrightarrow> (\<exists>T' H'. vm_ok U Rs T' H' m' \<and> grown T H T' H') \<and> keeps Rs m m'
     \<and> tab_at (ptab m') 3 (cr3 m) [pt_idx v 3, pt_idx v 2, pt_idx v 1] = Some pt"

lemma ensure_pt_ok:
  assumes ok: "vm_ok U Rs T H m"
  shows "case ensure_pt v m of
      None \<Rightarrow> \<not> covered (ptab m) (cr3 m) v \<or> alloc_table m = None
    | Some (pt, m') \<Rightarrow> covered (ptab m) (cr3 m) v \<and> edit_ready U Rs T H m v pt m'"
proof (cases "covered (ptab m) (cr3 m) v")
  case False
  then show ?thesis using ensure_pt_uncovered [OF ok] by simp
next
  case True
  then obtain pd where pd: "tab_at (ptab m) 3 (cr3 m) [pt_idx v 3, pt_idx v 2] = Some pd" "has PRESENT (ptab m pd (pt_idx v 1))"
    by (auto simp: covered_def)
  let ?p = "[pt_idx v 3, pt_idx v 2]" let ?e = "ptab m pd (pt_idx v 1)"
  have snoc: "[pt_idx v 3, pt_idx v 2, pt_idx v 1] = ?p @ [pt_idx v 1]" by simp
  show ?thesis
  proof (cases "has HUGE ?e")
    case False
    then have "tab_at (ptab m) 3 (cr3 m) (?p @ [pt_idx v 1]) = Some (nxt ?e)"
      unfolding tab_at_snoc pd(1) using pd(2) by (simp add: descends_def)
    then have "edit_ready U Rs T H m v (nxt ?e) m"
      unfolding edit_ready_def snoc using ok grown_refl view_keeps_refl by blast
    then show ?thesis using False True ensure_pt_covered [OF ok pd] by simp
  next
    case huge: True
    show ?thesis
    proof (cases "alloc_table m")
      case None
      then show ?thesis using huge ensure_pt_covered [OF ok pd] by simp
    next
      case (Some x)
      obtain n m1 where x: "x = (n, m1)" by (cases x)
      have a: "alloc_table m = Some (n, m1)" using Some x by simp
      obtain m2 m' where s: "split_into ?e n m1 = Some m2" "write_entry pd (pt_idx v 1) (n OR (PRESENT OR WRITABLE)) m2 = Some m'"
        "vm_ok U Rs (insert n T) (insert (n, 0) H) m'" "keeps Rs m m'" "(n, 0) \<notin> H" "n \<notin> T" "nxt n = n"
        "\<forall>t'\<in>T. ptab m' t' = (if t' = pd then (ptab m pd)(pt_idx v 1 := n OR (PRESENT OR WRITABLE)) else ptab m t')"
        using split_link_ok [OF ok vm_okD(8) [OF ok] _ pd(1) _ _ pd(2) huge link_flags(1-3) a] by auto
      have pdT: "pd \<in> T" using trees_ok_table [OF vm_okD(5) [OF ok] vm_okD(8) [OF ok] _ pd(1)] by simp
      have "tab_at (ptab m') 3 (cr3 m) ?p = Some pd" by (rule keeps_tab [OF s(4) vm_okD(8) [OF ok] _ pd(1)]) simp
      then have "tab_at (ptab m') 3 (cr3 m) (?p @ [pt_idx v 1]) = Some n"
        unfolding tab_at_snoc using s(7,8) pdT by (simp add: descends_def pte)
      then have "edit_ready U Rs T H m v n m'"
        unfolding edit_ready_def snoc using s(3,4) grown_insert [OF s(5)] by blast
      moreover have "ensure_pt v m = Some (n, m')" using ensure_pt_covered [OF ok pd] huge a s(1,2) by simp
      ultimately show ?thesis using True by simp
    qed
  qed
qed

lemma alloc_table_None: "vframes m' = vframes m \<Longrightarrow> vhhdm m' = vhhdm m \<Longrightarrow> alloc_table m' = None \<longleftrightarrow> alloc_table m = None"
  by (auto simp: alloc_table_def split: Option.bind_splits)

lemma positions_differ:
  assumes "vm_ok U Rs T H m" "r \<in> Rs" "indices p" "indices q" "tab_at (ptab m) 3 r p = Some a" "tab_at (ptab m) 3 r q = Some b" "p \<noteq> q"
  shows "a \<noteq> b"
  using trees_ok_pos [OF vm_okD(5) [OF assms(1)] assms(2,3,5,2,4)] assms(6,7) by auto

text \<open>Granting \<open>USER\<close> on the first two levels.\<close>

lemma ensure_user_upper:
  assumes ok: "vm_ok U Rs T H m" and pd: "tab_at (ptab m) 3 (cr3 m) [pt_idx v 3, pt_idx v 2] = Some pd"
  defines "e4 \<equiv> ptab m (cr3 m) (pt_idx v 3)"
  shows "\<exists>m1 m2 e3. set_user (cr3 m) (pt_idx v 3) e4 m = Some m1 \<and> read_entry m1 (nxt e4) (pt_idx v 2) = Some e3
    \<and> has PRESENT e4 \<and> has PRESENT e3 \<and> \<not> has HUGE e3 \<and> nxt e3 = pd \<and> set_user (nxt e4) (pt_idx v 2) e3 m1 = Some m2
    \<and> vm_ok U Rs T H m2 \<and> keeps Rs m m2 \<and> vframes m2 = vframes m \<and> (\<forall>j. ptab m2 pd j = ptab m pd j)
    \<and> has USER (ptab m2 (cr3 m) (pt_idx v 3)) \<and> has USER (ptab m2 (nxt e4) (pt_idx v 2)) \<and> nxt e4 \<noteq> cr3 m \<and> cr3 m \<noteq> pd \<and> nxt e4 \<noteq> pd
    \<and> tab_at (ptab m) 3 (cr3 m) [pt_idx v 3] = Some (nxt e4)"
proof -
  let ?r = "cr3 m" let ?t2 = "nxt e4"
  note r = vm_okD(8) [OF ok]
  have t2: "tab_at (ptab m) 3 ?r [pt_idx v 3] = Some ?t2" and d3: "descends 3 e4" using pd by (auto simp: e4_def split: if_splits)
  have ne: "?t2 \<noteq> ?r" "?r \<noteq> pd" "?t2 \<noteq> pd"
    using positions_differ [OF ok r _ _ t2, of "[]" ?r] positions_differ [OF ok r _ _ _ pd, of "[]" ?r] positions_differ [OF ok r _ _ t2 pd]
    by simp_all
  have p0: "tab_at (ptab m) 3 ?r [] = Some ?r" by simp
  obtain m1 where m1: "set_user ?r (pt_idx v 3) e4 m = Some m1" "vm_ok U Rs T H m1" "keeps Rs m m1" "vframes m1 = vframes m"
    "ptab m1 = (ptab m)(?r := (ptab m ?r)(pt_idx v 3 := e4 OR USER))"
    using set_user_ok [OF ok r _ p0, of "pt_idx v 3"] d3 unfolding e4_def by auto
  let ?e3 = "ptab m1 ?t2 (pt_idx v 2)"
  have c1: "cr3 m1 = ?r" using m1(3) by (simp add: keeps_def)
  have t2': "tab_at (ptab m1) 3 ?r [pt_idx v 3] = Some ?t2" by (rule keeps_tab [OF m1(3) r _ t2]) simp
  have pd': "tab_at (ptab m1) 3 ?r [pt_idx v 3, pt_idx v 2] = Some pd" by (rule keeps_tab [OF m1(3) r _ pd]) simp
  have "tab_at (ptab m1) 3 ?r ([pt_idx v 3] @ [pt_idx v 2]) = Some pd" using pd' by simp
  then have d2: "descends 2 ?e3" "nxt ?e3 = pd" unfolding tab_at_snoc t2' by (auto split: if_splits)
  have rd: "read_entry m1 ?t2 (pt_idx v 2) = Some ?e3" by (rule position_tables [OF m1(2) r _ t2']) simp
  obtain m2 where m2: "set_user ?t2 (pt_idx v 2) ?e3 m1 = Some m2" "vm_ok U Rs T H m2" "keeps Rs m1 m2" "vframes m2 = vframes m1"
    "ptab m2 = (ptab m1)(?t2 := (ptab m1 ?t2)(pt_idx v 2 := ?e3 OR USER))"
    using set_user_ok [OF m1(2) r _ t2', of "pt_idx v 2"] d2 by auto
  have "\<forall>j. ptab m2 pd j = ptab m pd j" "has USER (ptab m2 ?r (pt_idx v 3))" "has USER (ptab m2 ?t2 (pt_idx v 2))"
    using m1(5) m2(5) ne by (auto simp: pte)
  then show ?thesis
    using m1 m2 rd d2 d3 ne t2 view_keeps_trans [OF m1(3) m2(3)] by (intro exI [of _ m1] exI [of _ m2] exI [of _ ?e3]) (simp add: descends_def)
qed

lemma ensure_pt_user_no_pd:
  assumes ok: "vm_ok U Rs T H m" and n: "tab_at (ptab m) 3 (cr3 m) [pt_idx v 3, pt_idx v 2] = None"
  shows "ensure_pt_user v m = None"
proof -
  let ?r = "cr3 m" let ?e4 = "ptab m ?r (pt_idx v 3)"
  note r = vm_okD(8) [OF ok]
  have p0: "tab_at (ptab m) 3 ?r [] = Some ?r" by simp
  have rd: "read_entry m ?r (pt_idx v 3) = Some ?e4" by (rule position_tables [OF ok r _ p0]) simp
  show ?thesis
  proof (cases "descends 3 ?e4")
    case False
    then show ?thesis using rd by (simp add: ensure_pt_user_def current_pml4_eq [OF ok] has_alt descends_def Let_def)
  next
    case True
    then have t2: "tab_at (ptab m) 3 ?r [pt_idx v 3] = Some (nxt ?e4)" by simp
    have ne: "nxt ?e4 \<noteq> ?r" using positions_differ [OF ok r _ _ t2, of "[]" ?r] by simp
    obtain m1 where m1: "set_user ?r (pt_idx v 3) ?e4 m = Some m1" "vm_ok U Rs T H m1" "keeps Rs m m1"
      "ptab m1 = (ptab m)(?r := (ptab m ?r)(pt_idx v 3 := ?e4 OR USER))"
      using set_user_ok [OF ok r _ p0, of "pt_idx v 3"] True by auto
    have "tab_at (ptab m1) 3 ?r [pt_idx v 3] = Some (nxt ?e4)" by (rule keeps_tab [OF m1(3) r _ t2]) simp
    then have "read_entry m1 (nxt ?e4) (pt_idx v 2) = Some (ptab m1 (nxt ?e4) (pt_idx v 2))"
      by (intro position_tables [OF m1(2) r, of "[pt_idx v 3]"]) simp_all
    then have rd2: "read_entry m1 (nxt ?e4) (pt_idx v 2) = Some (ptab m (nxt ?e4) (pt_idx v 2))" using m1(4) ne by simp
    have "\<not> descends 2 (ptab m (nxt ?e4) (pt_idx v 2))" using n True by (simp split: if_splits)
    then show ?thesis using rd rd2 m1(1) True
      by (simp add: ensure_pt_user_def current_pml4_eq [OF ok] has_alt descends_def Let_def)
  qed
qed

lemma ensure_pt_user_ok:
  assumes ok: "vm_ok U Rs T H m"
  shows "case ensure_pt_user v m of
      None \<Rightarrow> \<not> covered (ptab m) (cr3 m) v \<or> alloc_table m = None
    | Some (pt, m') \<Rightarrow> covered (ptab m) (cr3 m) v \<and> edit_ready U Rs T H m v pt m'
        \<and> users (ptab m') (cr3 m) [pt_idx v 3, pt_idx v 2, pt_idx v 1]"
proof (cases "tab_at (ptab m) 3 (cr3 m) [pt_idx v 3, pt_idx v 2]")
  case None
  then show ?thesis using ensure_pt_user_no_pd [OF ok None] by (simp add: covered_def del: tab_at.simps)
next
  case pd: (Some pd)
  let ?r = "cr3 m" let ?p = "[pt_idx v 3, pt_idx v 2]" let ?e = "ptab m pd (pt_idx v 1)" let ?e4 = "ptab m (cr3 m) (pt_idx v 3)"
  note r = vm_okD(8) [OF ok]
  obtain m1 m2 e3 where u: "set_user ?r (pt_idx v 3) ?e4 m = Some m1" "read_entry m1 (nxt ?e4) (pt_idx v 2) = Some e3"
    "has PRESENT ?e4" "has PRESENT e3" "\<not> has HUGE e3" "nxt e3 = pd" "set_user (nxt ?e4) (pt_idx v 2) e3 m1 = Some m2"
    "vm_ok U Rs T H m2" "keeps Rs m m2" "vframes m2 = vframes m" "\<forall>j. ptab m2 pd j = ptab m pd j"
    "has USER (ptab m2 ?r (pt_idx v 3))" "has USER (ptab m2 (nxt ?e4) (pt_idx v 2))" "nxt ?e4 \<noteq> ?r" "?r \<noteq> pd" "nxt ?e4 \<noteq> pd"
    "tab_at (ptab m) 3 ?r [pt_idx v 3] = Some (nxt ?e4)"
    using ensure_user_upper [OF ok pd] by blast
  have p0: "tab_at (ptab m) 3 ?r [] = Some ?r" by simp
  have rd: "read_entry m ?r (pt_idx v 3) = Some ?e4" by (rule position_tables [OF ok r _ p0]) simp
  have pd2: "tab_at (ptab m2) 3 ?r ?p = Some pd" by (rule keeps_tab [OF u(9) r _ pd]) simp
  have rd2: "read_entry m2 pd (pt_idx v 1) = Some ?e" using position_tables [OF u(8) r _ pd2, of "pt_idx v 1"] u(11) by simp
  have cov: "covered (ptab m) ?r v \<longleftrightarrow> has PRESENT ?e" using pd by (simp add: covered_def del: tab_at.simps)
  have eq: "ensure_pt_user v m = (if \<not> has PRESENT ?e then None
      else if has HUGE ?e then do {
        (new_pt, m3) \<leftarrow> alloc_table m2;
        m3 \<leftarrow> split_into ?e new_pt m3;
        m3 \<leftarrow> write_entry pd (pt_idx v 1) (new_pt OR PRESENT OR WRITABLE OR USER) m3;
        Some (new_pt, m3) }
      else do { m3 \<leftarrow> set_user pd (pt_idx v 1) ?e m2; Some (nxt ?e, m3) })"
    using u rd rd2 by (simp add: ensure_pt_user_def current_pml4_eq [OF ok] has_alt Let_def)
  have snoc: "[pt_idx v 3, pt_idx v 2, pt_idx v 1] = ?p @ [pt_idx v 1]" by simp
  have T: "?r \<in> T" "nxt ?e4 \<in> T" "pd \<in> T" using trees_ok_table [OF vm_okD(5) [OF ok] r _ p0] trees_ok_table [OF vm_okD(5) [OF ok] r _ u(17)]
      trees_ok_table [OF vm_okD(5) [OF ok] r _ pd] by simp_all
  have fin: "edit_ready U Rs T H m v pt m3 \<and> users (ptab m3) ?r (?p @ [pt_idx v 1])"
    if m3: "vm_ok U Rs T' H' m3" "grown T H T' H'" "keeps Rs m2 m3" "has USER (ptab m3 pd (pt_idx v 1))"
      "descends 1 (ptab m3 pd (pt_idx v 1))" "nxt (ptab m3 pd (pt_idx v 1)) = pt"
      "ptab m3 ?r = ptab m2 ?r" "ptab m3 (nxt ?e4) = ptab m2 (nxt ?e4)" for T' H' m3 pt
  proof -
    note k = view_keeps_trans [OF u(9) m3(3)]
    have t: "tab_at (ptab m3) 3 ?r [pt_idx v 3] = Some (nxt ?e4)" "tab_at (ptab m3) 3 ?r ?p = Some pd"
      using keeps_tab [OF k r _ u(17)] keeps_tab [OF k r _ pd] by simp_all
    have "tab_at (ptab m3) 3 ?r (?p @ [pt_idx v 1]) = Some pt" unfolding tab_at_snoc t using m3(5,6) by simp
    moreover have "users (ptab m3) ?r (([] @ [pt_idx v 3]) @ [pt_idx v 2] @ [pt_idx v 1])"
      using t m3(4,7,8) u(12,13) by (auto split: if_splits)
    ultimately show ?thesis unfolding edit_ready_def snoc using m3(1,2) k by auto
  qed
  show ?thesis
  proof (cases "has PRESENT ?e")
    case False
    then show ?thesis using cov eq by simp
  next
    case present: True
    show ?thesis
    proof (cases "has HUGE ?e")
      case False
      have d: "descends 1 (ptab m2 pd (pt_idx v 1))" using False present u(11) by (simp add: descends_def)
      obtain m3 where m3: "set_user pd (pt_idx v 1) ?e m2 = Some m3" "vm_ok U Rs T H m3" "keeps Rs m2 m3"
        "ptab m3 = (ptab m2)(pd := (ptab m2 pd)(pt_idx v 1 := ptab m2 pd (pt_idx v 1) OR USER))"
        using set_user_ok [OF u(8) r _ pd2, of "pt_idx v 1"] d u(11) by auto
      have "edit_ready U Rs T H m v (nxt ?e) m3 \<and> users (ptab m3) ?r (?p @ [pt_idx v 1])"
        using m3(4) u(11,15,16) d by (intro fin [OF m3(2) grown_refl m3(3)]) (simp_all add: descends_or_user pte)
      then show ?thesis using eq cov present False m3(1) by simp
    next
      case huge: True
      show ?thesis
      proof (cases "alloc_table m2")
        case None
        then have "alloc_table m = None" using alloc_table_None [of m2 m] u(9,10) by (simp add: keeps_def)
        then show ?thesis using eq huge present None by simp
      next
        case (Some x)
        obtain n m1' where x: "x = (n, m1')" by (cases x)
        have a: "alloc_table m2 = Some (n, m1')" using Some x by simp
        let ?g = "PRESENT OR WRITABLE OR USER"
        have h2: "has PRESENT (ptab m2 pd (pt_idx v 1))" "has HUGE (ptab m2 pd (pt_idx v 1))" using present huge u(11) by simp_all
        obtain m3 m4 where s: "split_into ?e n m1' = Some m3" "write_entry pd (pt_idx v 1) (n OR ?g) m3 = Some m4"
          "vm_ok U Rs (insert n T) (insert (n, 0) H) m4" "keeps Rs m2 m4" "(n, 0) \<notin> H" "nxt n = n"
          "\<forall>t'\<in>T. ptab m4 t' = (if t' = pd then (ptab m2 pd)(pt_idx v 1 := n OR ?g) else ptab m2 t')"
          using split_link_ok [OF u(8) r _ pd2 _ _ h2 link_flags(4-6) a] u(11) by auto
        have "edit_ready U Rs T H m v n m4 \<and> users (ptab m4) ?r (?p @ [pt_idx v 1])"
          using s(6,7) T u(15,16) by (intro fin [OF s(3) grown_insert [OF s(5)] s(4)]) (auto simp: descends_def pte)
        then show ?thesis using eq cov present huge a s(1,2) by simp
      qed
    qed
  qed
qed

end
