(* ===== verification/Arch_Map.thy ===== *)
theory Arch_Map
  imports Arch_Space
begin

text \<open>
  The mapping operations of \<^verbatim>\<open>paging.rs\<close> as updates of the abstract address spaces: \<open>map_page\<close>,
  \<open>map_user_page\<close> and \<open>install_guard_page\<close> set exactly the page they name, in the active space.
\<close>

definition page_of :: "u64 \<Rightarrow> u64" where "page_of va = va AND NOT 0xfff"

lemmas page_ops = map_page_def [unfolded Let_def, folded page_of_def]
  install_guard_page_def [unfolded Let_def, folded page_of_def] map_user_page_def [unfolded Let_def, folded page_of_def]

lemma pt_idx_align: "pt_idx (page_of va) k = pt_idx va k"
proof -
  have m: "(0xfff :: u64) = mask 12" by (simp add: mask_eq_exp_minus_1)
  have "drop_bit (12 + 9 * k) (va AND NOT (mask 12)) = drop_bit (12 + 9 * k) va"
    by (rule bit_eqI) (auto simp: bit_drop_bit_eq bit_and_iff bit_not_iff bit_mask_iff dest: bit_imp_le_length)
  then show ?thesis unfolding page_of_def pt_idx_def m by simp
qed

lemma path_align: "path (page_of va) = path va" "covered E r (page_of va) = covered E r va"
  by (simp_all add: path_def covered_def pt_idx_align)

lemma path_snoc: "path v = [pt_idx v 3, pt_idx v 2, pt_idx v 1] @ [pt_idx v 0]"
  by (simp add: path_def)

text \<open>The page of \<open>v\<close> becomes \<open>f\<close> in the space \<open>r\<close>; another space sees it only outside the process window.\<close>

definition page_set :: "u64 set \<Rightarrow> u64 \<Rightarrow> u64 \<Rightarrow> (u64 \<Rightarrow> (u64 \<times> bool \<times> bool \<times> bool) option) \<Rightarrow> vm \<Rightarrow> vm \<Rightarrow> bool" where
  "page_set Rs r v f m m' \<longleftrightarrow>
     (\<forall>va. mapping (ptab m') r va = (if path va = path v then f va else mapping (ptab m) r va))
   \<and> (\<forall>r'\<in>Rs. r' \<noteq> r \<longrightarrow> (\<forall>va. mapping (ptab m') r' va = mapping (ptab m) r' va
        \<or> path va = path v \<and> \<not> window (path v) \<and> mapping (ptab m') r' va = f va))"

text \<open>The registers and globals an edit leaves alone, and the flush it makes.\<close>

definition flushed :: "u64 \<Rightarrow> vm \<Rightarrow> vm \<Rightarrow> bool" where
  "flushed va m m' \<longleftrightarrow> vhhdm m' = vhhdm m \<and> cr3 m' = cr3 m \<and> KERNEL_PML4 m' = KERNEL_PML4 m
     \<and> invlpgs m' = invlpgs m @ [page_of va]"

definition leaf_view :: "u64 \<Rightarrow> u64 \<Rightarrow> (u64 \<times> bool \<times> bool \<times> bool) option" where
  "leaf_view e va = (if has PRESENT e then Some (nxt e + (va AND mask 12), has WRITABLE e, \<not> has NX e, has USER e) else None)"

lemma nxt_page: "nxt e AND NOT (mask 12) = nxt e"
  by (rule bit_eqI) (auto simp: nxt_def addr_mask_bits bit_and_iff bit_not_iff bit_mask_iff)

lemma leaf_write_ok:
  assumes ok: "vm_ok U Rs T H m" and rdy: "edit_ready U Rs T H m (page_of v) pt m1"
    and us: "has USER e \<Longrightarrow> users (ptab m1) (cr3 m) [pt_idx v 3, pt_idx v 2, pt_idx v 1] \<and> window (path v) \<and> cr3 m \<noteq> KERNEL_PML4 m"
  shows "\<exists>m2 T' H'. write_entry pt (pt_idx (page_of v) 0) e m1 = Some m2
    \<and> vm_ok U Rs T' H' (invlpg (page_of v) m2) \<and> grown T H T' H'
    \<and> page_set Rs (cr3 m) v (leaf_view e) m (invlpg (page_of v) m2) \<and> flushed v m (invlpg (page_of v) m2)"
proof -
  let ?p = "[pt_idx v 3, pt_idx v 2, pt_idx v 1]" let ?r = "cr3 m" let ?i = "pt_idx v 0" let ?E = "ptab m1"
  obtain T' H' where v1: "vm_ok U Rs T' H' m1" "grown T H T' H'" and k: "keeps Rs m m1" and pt: "tab_at ?E 3 ?r ?p = Some pt"
    using rdy by (auto simp: edit_ready_def pt_idx_align simp del: tab_at.simps)
  have r: "?r \<in> Rs" using vm_okD(8) [OF ok] .
  have K: "KERNEL_PML4 m1 = KERNEL_PML4 m" "vhhdm m1 = vhhdm m" "cr3 m1 = ?r" "invlpgs m1 = invlpgs m" using k by (auto simp: keeps_def)
  have ptT: "pt \<in> T'" using trees_ok_table [OF vm_okD(5) [OF v1(1)] r _ pt] by simp
  define E' where "E' = ?E(pt := (?E pt)(?i := e))"
  have e: "edit_at ?E Rs T' ?p pt ?i e E'" unfolding E'_def by (rule edit_at_write [OF vm_okD(5) [OF v1(1)] r _ pt]) simp_all
  have l: "length ?p = 3" by simp
  have wr: "write_entry pt (pt_idx (page_of v) 0) e m1 = Some (m1\<lparr>ptab := E'\<rparr>)"
    using entry_ops(2) [OF table_frame [OF v1(1) ptT] vm_okD(3) [OF v1(1)]] by (simp add: E'_def pt_idx_align)
  have priv: "r' = ?r" if "r' \<in> Rs" "tab_at ?E 3 r' ?p = Some pt" "window (path v)" for r'
  proof (rule trees_ok_private [OF vm_okD(5) [OF v1(1)] r _ pt that(1,2)])
    show "window ?p" using that(3) window_prefix [of ?p "[?i]"] by (simp add: path_snoc)
  qed simp
  have u: "users_ok E' Rs (KERNEL_PML4 m1)"
    using us priv K(1) by (intro leaf_step_users [OF e l vm_okD(6) [OF v1(1)]]) (auto simp: path_snoc simp del: tab_at.simps users.simps)
  let ?m = "invlpg (page_of v) (m1\<lparr>ptab := E'\<rparr>)"
  have "vm_ok U Rs T' H' ?m"
    using vm_okD(1,4) [OF v1(1)] leaf_step_trees [OF e l] u leaf_step_tab [OF e l, of _ "[0, 1]"] r K(3)
    by (intro vm_ok_update [OF v1(1)]) (simp_all add: invlpg_def del: tab_at.simps)
  moreover have mp: "mapping E' r' va = (if path va = path v \<and> tab_at ?E 3 r' ?p = Some pt then leaf_view e va else mapping (ptab m) r' va)"
    if r': "r' \<in> Rs" for r' va
  proof -
    have "mapping ?E r' va = mapping (ptab m) r' va" using k r' unfolding keeps_def by blast
    moreover have "users ?E r' ?p" if "has USER e" "tab_at ?E 3 r' ?p = Some pt" using us priv r' that by blast
    ultimately show ?thesis
      unfolding mapping_def leaf_view_def leaf_step_hw [OF e l r' path_ok(2,1)] path_snoc [of v] by (auto simp: nxt_page simp del: tab_at.simps users.simps)
  qed
  have "page_set Rs ?r v (leaf_view e) m ?m"
    unfolding page_set_def using mp r pt priv by (auto simp: invlpg_def simp del: tab_at.simps)
  moreover have "flushed v m ?m" using K by (simp add: flushed_def invlpg_def)
  ultimately show ?thesis using wr v1(2) by blast
qed

definition sets_page :: "nat set \<Rightarrow> u64 set \<Rightarrow> u64 set \<Rightarrow> (u64 \<times> nat) set \<Rightarrow> u64
    \<Rightarrow> (u64 \<Rightarrow> (u64 \<times> bool \<times> bool \<times> bool) option) \<Rightarrow> vm \<Rightarrow> vm \<Rightarrow> bool" where
  "sets_page U Rs T H v f m m' \<longleftrightarrow> (\<exists>T' H'. vm_ok U Rs T' H' m' \<and> grown T H T' H')
     \<and> page_set Rs (cr3 m) v f m m' \<and> flushed v m m'"

text \<open>What the caller of a mapping operation asked for.\<close>

definition page_view :: "u64 \<Rightarrow> prot \<Rightarrow> bool \<Rightarrow> u64 \<Rightarrow> (u64 \<times> bool \<times> bool \<times> bool) option" where
  "page_view pa prot usr va = Some (nxt pa + (va AND mask 12), fst (prot_wx prot), snd (prot_wx prot), usr)"

lemma leaf_view_map: "leaf_view ((pa AND ADDR_MASK) OR leaf_bits prot) = page_view pa prot False"
  "leaf_view ((pa AND ADDR_MASK) OR leaf_bits prot OR USER OR pkey_bits d) = page_view pa prot True"
  by (simp_all add: fun_eq_iff leaf_view_def page_view_def pte has_addr [OF _ nxt_nxt] flip: nxt_def)

lemma edit_result:
  assumes "vm_ok U Rs T H m" "edit_ready U Rs T H m (page_of va) pt m1" "leaf_view e = f"
    and "has USER e \<Longrightarrow> users (ptab m1) (cr3 m) [pt_idx va 3, pt_idx va 2, pt_idx va 1] \<and> window (path va) \<and> cr3 m \<noteq> KERNEL_PML4 m"
  shows "\<exists>m2. write_entry pt (pt_idx (page_of va) 0) e m1 = Some m2 \<and> sets_page U Rs T H va f m (invlpg (page_of va) m2)"
  using leaf_write_ok [OF assms(1,2,4)] assms(3) unfolding sets_page_def by blast

lemma map_page_ok:
  assumes ok: "vm_ok U Rs T H m"
  shows "case map_page va pa prot m of
      None \<Rightarrow> \<not> covered (ptab m) (cr3 m) va \<or> alloc_table m = None
    | Some m' \<Rightarrow> covered (ptab m) (cr3 m) va \<and> sets_page U Rs T H va (page_view pa prot False) m m'"
proof (cases "ensure_pt (page_of va) m")
  case None
  then show ?thesis using ensure_pt_ok [OF ok, of "page_of va"] by (simp add: page_ops path_align)
next
  case (Some x)
  obtain pt m1 where x: "x = (pt, m1)" by (cases x)
  have c: "covered (ptab m) (cr3 m) va" and r: "edit_ready U Rs T H m (page_of va) pt m1"
    using ensure_pt_ok [OF ok, of "page_of va"] Some x by (simp_all add: path_align)
  have "\<not> has USER ((pa AND ADDR_MASK) OR leaf_bits prot)" by (simp add: pte has_addr [OF _ nxt_nxt] flip: nxt_def)
  then obtain m2 where "write_entry pt (pt_idx (page_of va) 0) ((pa AND ADDR_MASK) OR leaf_bits prot) m1 = Some m2"
    "sets_page U Rs T H va (page_view pa prot False) m (invlpg (page_of va) m2)"
    using edit_result [OF ok r leaf_view_map(1)] by blast
  then show ?thesis using Some x c by (simp add: page_ops)
qed

lemma install_guard_page_ok:
  assumes ok: "vm_ok U Rs T H m"
  shows "case install_guard_page va m of
      None \<Rightarrow> \<not> covered (ptab m) (cr3 m) va \<or> alloc_table m = None
    | Some m' \<Rightarrow> covered (ptab m) (cr3 m) va \<and> sets_page U Rs T H va (\<lambda>_. None) m m'"
proof (cases "ensure_pt (page_of va) m")
  case None
  then show ?thesis using ensure_pt_ok [OF ok, of "page_of va"] by (simp add: page_ops path_align)
next
  case (Some x)
  obtain pt m1 where x: "x = (pt, m1)" by (cases x)
  have c: "covered (ptab m) (cr3 m) va" and r: "edit_ready U Rs T H m (page_of va) pt m1"
    using ensure_pt_ok [OF ok, of "page_of va"] Some x by (simp_all add: path_align)
  have "leaf_view 0 = (\<lambda>_. None)" by (simp add: fun_eq_iff leaf_view_def pte)
  then obtain m2 where "write_entry pt (pt_idx (page_of va) 0) 0 m1 = Some m2"
    "sets_page U Rs T H va (\<lambda>_. None) m (invlpg (page_of va) m2)"
    using edit_result [OF ok r] has_0 by blast
  then show ?thesis using Some x c by (simp add: page_ops)
qed

lemma map_user_page_ok:
  assumes ok: "vm_ok U Rs T H m" and w: "window (path va)" "cr3 m \<noteq> KERNEL_PML4 m"
  shows "case map_user_page va pa prot d m of
      None \<Rightarrow> \<not> covered (ptab m) (cr3 m) va \<or> alloc_table m = None
    | Some m' \<Rightarrow> covered (ptab m) (cr3 m) va \<and> sets_page U Rs T H va (page_view pa prot True) m m'"
proof (cases "ensure_pt_user (page_of va) m")
  case None
  then show ?thesis using ensure_pt_user_ok [OF ok, of "page_of va"] by (simp add: page_ops path_align)
next
  case (Some x)
  obtain pt m1 where x: "x = (pt, m1)" by (cases x)
  have c: "covered (ptab m) (cr3 m) va" and r: "edit_ready U Rs T H m (page_of va) pt m1"
    and u: "users (ptab m1) (cr3 m) [pt_idx va 3, pt_idx va 2, pt_idx va 1]"
    using ensure_pt_user_ok [OF ok, of "page_of va"] Some x by (simp_all add: path_align pt_idx_align del: users.simps)
  obtain m2 where "write_entry pt (pt_idx (page_of va) 0) ((pa AND ADDR_MASK) OR leaf_bits prot OR USER OR pkey_bits d) m1 = Some m2"
    "sets_page U Rs T H va (page_view pa prot True) m (invlpg (page_of va) m2)"
    using edit_result [OF ok r leaf_view_map(2)] u w by blast
  then show ?thesis using Some x c by (simp add: page_ops)
qed

end
