(* ===== verification/Arch_Process.thy ===== *)
theory Arch_Process
  imports Arch_Map
begin

text \<open>
  Process address spaces: \<open>new_process_space\<close> clones the kernel's tables with a private copy of every
  table above and inside the process window, so the clone translates every address as the kernel
  does, shares no window table with any other space, and leaves all other spaces as they were.
\<close>

section \<open>The clone as a tree\<close>

text \<open>\<open>n4\<close>, \<open>n3\<close>, \<open>n2\<close> and \<open>x i\<close> are the private copies of the PML4, the low PDPT, the window PD and its tables.\<close>

definition pd2 :: "tables \<Rightarrow> u64 \<Rightarrow> u64" where "pd2 E K = nxt (E K 0)"
definition pd1 :: "tables \<Rightarrow> u64 \<Rightarrow> u64" where "pd1 E K = nxt (E (pd2 E K) 1)"

definition split_at :: "tables \<Rightarrow> u64 \<Rightarrow> nat set" where
  "split_at E K = {i. i < 512 \<and> descends 1 (E (pd1 E K) i)}"

definition cloned :: "tables \<Rightarrow> tables \<Rightarrow> u64 \<Rightarrow> u64 \<Rightarrow> u64 \<Rightarrow> u64 \<Rightarrow> (nat \<Rightarrow> u64) \<Rightarrow> bool" where
  "cloned E E' K n4 n3 n2 x \<longleftrightarrow>
     (\<forall>i<512. E' n4 i = (if i = 0 then n3 OR (E K 0 AND NOT ADDR_MASK) else E K i))
   \<and> (\<forall>i<512. E' n3 i = (if i = 1 then n2 OR (E (pd2 E K) 1 AND NOT ADDR_MASK) else E (pd2 E K) i))
   \<and> (\<forall>i<512. E' n2 i = (if i \<in> split_at E K then x i OR (E (pd1 E K) i AND NOT ADDR_MASK) else E (pd1 E K) i))
   \<and> (\<forall>i\<in>split_at E K. \<forall>j<512. E' (x i) j = E (nxt (E (pd1 E K) i)) j)"

definition clone_tables :: "tables \<Rightarrow> u64 \<Rightarrow> u64 \<Rightarrow> u64 \<Rightarrow> u64 \<Rightarrow> (nat \<Rightarrow> u64) \<Rightarrow> u64 set" where
  "clone_tables E K n4 n3 n2 x = {n4, n3, n2} \<union> x ` split_at E K"

lemma relink [pte]:
  assumes "nxt n = n"
  shows "flag b \<Longrightarrow> has b (n OR (e AND NOT ADDR_MASK)) = has b e" "nxt (n OR (e AND NOT ADDR_MASK)) = n"
    "descends k (n OR (e AND NOT ADDR_MASK)) = descends k e"
  using assms by (simp_all add: pte descends_def)

text \<open>Tables outside the clone are unchanged.\<close>

lemma same_old:
  assumes t: "trees_ok E Rs T" and same: "\<And>t. t \<in> T \<Longrightarrow> E' t = E t" and r: "r \<in> Rs"
  shows "indices q \<Longrightarrow> tab_at E' 3 r q = tab_at E 3 r q"
    and "indices p \<Longrightarrow> indices s \<Longrightarrow> tab_at E 3 r p = Some t1 \<Longrightarrow> length p + length s = 4 \<Longrightarrow> hw E' t1 s = hw E t1 s"
proof -
  show "tab_at E' 3 r q = tab_at E 3 r q" if "indices q"
    using trees_ok_table [OF t r] same that by (intro tab_at_cong) fastforce
  show "hw E' t1 s = hw E t1 s" if "indices p" "indices s" "tab_at E 3 r p = Some t1" "length p + length s = 4"
  proof (rule hw_cong)
    fix q i s' t2 assume s: "s = q @ i # s'" "tab_at E (length s - 1) t1 q = Some t2"
    have "3 - length p = length s - 1" using that(4) s(1) by auto
    then have "tab_at E 3 r (p @ q) = Some t2" using that(3) s(2) by (simp add: tab_at_append)
    then show "E' t2 i = E t2 i" using trees_ok_table [OF t r, of "p @ q"] that(1,2) s(1) same by simp
  qed
qed

definition clone_ok :: "tables \<Rightarrow> tables \<Rightarrow> u64 set \<Rightarrow> u64 set \<Rightarrow> u64 \<Rightarrow> u64 \<Rightarrow> u64 \<Rightarrow> u64 \<Rightarrow> (nat \<Rightarrow> u64) \<Rightarrow> bool" where
  "clone_ok E E' Rs T K n4 n3 n2 x \<longleftrightarrow> trees_ok E Rs T \<and> K \<in> Rs \<and> tab_at E 3 K [0, 1] \<noteq> None
     \<and> (\<forall>t\<in>T. E' t = E t) \<and> cloned E E' K n4 n3 n2 x \<and> clone_tables E K n4 n3 n2 x \<inter> T = {}
     \<and> (\<forall>t\<in>clone_tables E K n4 n3 n2 x. nxt t = t) \<and> distinct [n4, n3, n2] \<and> inj_on x (split_at E K)
     \<and> {n4, n3, n2} \<inter> x ` split_at E K = {}"

lemma clone_okD:
  assumes c: "clone_ok E E' Rs T K n4 n3 n2 x"
  shows "trees_ok E Rs T" "K \<in> Rs" "t \<in> T \<Longrightarrow> E' t = E t" "clone_tables E K n4 n3 n2 x \<inter> T = {}"
    and "tab_at E 3 K [] = Some K" "tab_at E 3 K [0] = Some (pd2 E K)" "tab_at E 3 K [0, 1] = Some (pd1 E K)"
    and "descends 3 (E K 0)" "descends 2 (E (pd2 E K) 1)"
    and "nxt n4 = n4" "nxt n3 = n3" "nxt n2 = n2" "i \<in> split_at E K \<Longrightarrow> nxt (x i) = x i"
proof -
  show "trees_ok E Rs T" "K \<in> Rs" "t \<in> T \<Longrightarrow> E' t = E t" "clone_tables E K n4 n3 n2 x \<inter> T = {}" using c by (auto simp: clone_ok_def)
  have "tab_at E 3 K [0, 1] \<noteq> None" using c unfolding clone_ok_def by blast
  then show d: "descends 3 (E K 0)" "descends 2 (E (pd2 E K) 1)" by (auto simp: pd2_def split: if_splits)
  then show "tab_at E 3 K [] = Some K" "tab_at E 3 K [0] = Some (pd2 E K)" "tab_at E 3 K [0, 1] = Some (pd1 E K)"
    by (simp_all add: pd2_def pd1_def)
  show "nxt n4 = n4" "nxt n3 = n3" "nxt n2 = n2" "i \<in> split_at E K \<Longrightarrow> nxt (x i) = x i"
    using c by (auto simp: clone_ok_def clone_tables_def)
qed

lemma clonedD:
  assumes "clone_ok E E' Rs T K n4 n3 n2 x" "i < 512"
  shows "E' n4 i = (if i = 0 then n3 OR (E K 0 AND NOT ADDR_MASK) else E K i)"
    "E' n3 i = (if i = 1 then n2 OR (E (pd2 E K) 1 AND NOT ADDR_MASK) else E (pd2 E K) i)"
    "E' n2 i = (if i \<in> split_at E K then x i OR (E (pd1 E K) i AND NOT ADDR_MASK) else E (pd1 E K) i)"
    "j \<in> split_at E K \<Longrightarrow> E' (x j) i = E (nxt (E (pd1 E K) j)) i"
  using assms by (simp_all add: clone_ok_def cloned_def)

text \<open>The clone translates as the kernel's tables do.\<close>

lemma clone_hw:
  assumes c: "clone_ok E E' Rs T K n4 n3 n2 x" and ps: "indices ps" "length ps = 4"
  shows "hw E' n4 ps = hw E K ps"
proof -
  note D = clone_okD [OF c]
  have old: "hw E' t1 s = hw E t1 s" if "indices p" "indices s" "tab_at E 3 K p = Some t1" "length p + length s = 4" for p s t1
    by (rule same_old(2) [OF D(1) _ D(2) that(1,2,3,4)]) (use D(3) in auto)
  have step: "hw E' a (i # s) = hw E b (i # s)"
    if "has PRESENT (E' a i) = has PRESENT (E b i)" "has USER (E' a i) = has USER (E b i)"
      "descends (length s) (E' a i) = descends (length s) (E b i)" "\<not> descends (length s) (E b i) \<Longrightarrow> E' a i = E b i"
      "descends (length s) (E b i) \<Longrightarrow> hw E' (nxt (E' a i)) s = hw E (nxt (E b i)) s" for a b i s
    using that by (auto simp: Let_def split: option.splits)
  have pt: "hw E' (x i) [j] = hw E (nxt (E (pd1 E K) i)) [j]" if "i \<in> split_at E K" "j < 512" for i j
    using clonedD(4) [OF c that(2,1)] by (simp add: Let_def descends_def)
  have pd: "hw E' n2 [i, j] = hw E (pd1 E K) [i, j]" if "i < 512" "j < 512" for i j
  proof (cases "i \<in> split_at E K")
    case True
    then show ?thesis using clonedD(3) [OF c that(1)] pt [OF True that(2)] D(13) [OF True]
      by - (rule step, auto simp: relink flags split_at_def simp del: hw.simps)
  next
    case False
    then have e: "E' n2 i = E (pd1 E K) i" using clonedD(3) [OF c that(1)] by simp
    have "\<not> descends 1 (E (pd1 E K) i)" using False that(1) by (simp add: split_at_def)
    then show ?thesis using e by - (rule step, simp_all del: hw.simps)
  qed
  have pdpt: "hw E' n3 [a, i, j] = hw E (pd2 E K) [a, i, j]" if "a < 512" "i < 512" "j < 512" for a i j
  proof (cases "a = 1")
    case True
    then show ?thesis using clonedD(2) [OF c that(1)] pd [OF that(2,3)] D(9,12)
      by - (rule step, simp_all add: relink flags pd1_def numeral_2_eq_2 del: hw.simps)
  next
    case False
    then have e: "E' n3 a = E (pd2 E K) a" using clonedD(2) [OF c that(1)] by simp
    have "tab_at E 3 K ([0] @ [a]) = Some (nxt (E (pd2 E K) a))" if "descends 2 (E (pd2 E K) a)"
      unfolding tab_at_snoc D(6) using that by simp
    then show ?thesis using e old [of "[0, a]" "[i, j]"] that by - (rule step, simp_all add: numeral_2_eq_2 del: hw.simps)
  qed
  obtain z a i j where l: "ps = [z, a, i, j]" using ps(2) by (auto simp: numeral_eq_Suc length_Suc_conv)
  then have b: "z < 512" "a < 512" "i < 512" "j < 512" using ps(1) by auto
  show ?thesis
  proof (cases "z = 0")
    case True
    then show ?thesis using clonedD(1) [OF c b(1)] pdpt [OF b(2-4)] D(8,11) unfolding l
      by - (rule step, simp_all add: relink flags pd2_def numeral_3_eq_3 del: hw.simps)
  next
    case False
    then have e: "E' n4 z = E K z" using clonedD(1) [OF c b(1)] by simp
    have "tab_at E 3 K [z] = Some (nxt (E K z))" if "descends 3 (E K z)" using that by simp
    then show ?thesis using e old [of "[z]" "[a, i, j]"] b unfolding l by - (rule step, simp_all add: numeral_3_eq_3 del: hw.simps)
  qed
qed

text \<open>Where the clone finds its tables.\<close>

fun private_at :: "u64 \<Rightarrow> u64 \<Rightarrow> u64 \<Rightarrow> (nat \<Rightarrow> u64) \<Rightarrow> nat list \<Rightarrow> u64" where
  "private_at n4 n3 n2 x [] = n4"
| "private_at n4 n3 n2 x [_] = n3"
| "private_at n4 n3 n2 x [_, _] = n2"
| "private_at n4 n3 n2 x (_ # _ # i # _) = x i"

lemma window_cases:
  assumes "window q" "length q \<le> 3"
  obtains "q = []" | "q = [0]" | "q = [0, 1]" | i where "q = [0, 1, i]"
proof -
  consider "q = []" | a where "q = [a]" | a b where "q = [a, b]" | a b c where "q = [a, b, c]"
    using assms(2) by (cases q rule: remdups_adj.cases; force simp: le_Suc_eq length_Suc_conv numeral_eq_Suc)
  then show ?thesis using assms(1) that by cases (auto simp: window_def)
qed

lemma clone_tab:
  assumes c: "clone_ok E E' Rs T K n4 n3 n2 x" and q: "indices q"
  shows "tab_at E' 3 n4 q = (if window q then map_option (\<lambda>_. private_at n4 n3 n2 x q) (tab_at E 3 K q) else tab_at E 3 K q)"
  using q
proof (induction q rule: rev_induct)
  case Nil
  then show ?case by (simp add: window_def)
next
  case (snoc j q)
  then have IH: "tab_at E' 3 n4 q = (if window q then map_option (\<lambda>_. private_at n4 n3 n2 x q) (tab_at E 3 K q) else tab_at E 3 K q)"
    and q: "indices q" "j < 512" by simp_all
  note D = clone_okD [OF c]
  show ?case
  proof (cases "tab_at E 3 K q")
    case None
    then show ?thesis using IH by (simp add: tab_at_snoc)
  next
    case (Some t)
    note tT = trees_ok_table [OF D(1,2) q(1) Some]
    show ?thesis
    proof (cases "window q")
      case False
      then have "\<not> window (q @ [j])" using window_prefix by blast
      then show ?thesis using IH False Some D(3) [OF tT] by (simp add: tab_at_snoc)
    next
      case True
      have "length q \<le> 3" by (rule tab_at_length [OF Some])
      from True this show ?thesis
      proof (cases rule: window_cases)
        case 1
        then show ?thesis using clonedD(1) [OF c q(2)] D(8,11) by (auto simp: window_def relink)
      next
        case 2
        have "t = pd2 E K" using Some D(6) 2 by (simp del: tab_at.simps)
        then show ?thesis unfolding tab_at_snoc IH using clonedD(2) [OF c q(2)] D(9,12) Some True 2
          by (auto simp: window_def relink simp del: tab_at.simps)
      next
        case 3
        have t: "t = pd1 E K" using Some D(7) 3 by (simp del: tab_at.simps)
        have w: "window (q @ [j])" "private_at n4 n3 n2 x (q @ [j]) = x j" using 3 by (simp_all add: window_def)
        show ?thesis using clonedD(3) [OF c q(2)] D(13) IH Some True t w 3 q(2)
          by (auto simp: tab_at_snoc relink split_at_def simp del: tab_at.simps append.simps)
      next
        case 4
        then show ?thesis using IH Some True by (auto simp: tab_at_snoc descends_def simp del: tab_at.simps append.simps)
      qed
    qed
  qed
qed

lemma private_in:
  assumes c: "clone_ok E E' Rs T K n4 n3 n2 x" and w: "window q" "indices q" "tab_at E 3 K q = Some t"
  shows "private_at n4 n3 n2 x q \<in> clone_tables E K n4 n3 n2 x"
    and "window q' \<Longrightarrow> indices q' \<Longrightarrow> tab_at E 3 K q' = Some t' \<Longrightarrow> private_at n4 n3 n2 x q = private_at n4 n3 n2 x q' \<Longrightarrow> q = q'"
proof -
  have split: "i \<in> split_at E K" if "i < 512" "tab_at E 3 K [0, 1, i] = Some t1" for i t1
  proof -
    have "tab_at E 3 K ([0, 1] @ [i]) = Some t1" using that(2) by simp
    then show ?thesis unfolding tab_at_snoc clone_okD(7) [OF c] using that(1) by (auto simp: split_at_def split: if_splits)
  qed
  have cases: "q = [] \<or> q = [0] \<or> q = [0, 1] \<or> (\<exists>i\<in>split_at E K. q = [0, 1, i])"
    if "window q" "indices q" "tab_at E 3 K q = Some t" for q t
    using window_cases [OF that(1) tab_at_length [OF that(3)]] split that(2,3) by (metis indices_simps(2))
  show "private_at n4 n3 n2 x q \<in> clone_tables E K n4 n3 n2 x"
    using cases [OF w] by (auto simp: clone_tables_def)
  have inj: "distinct [n4, n3, n2]" "inj_on x (split_at E K)" "{n4, n3, n2} \<inter> x ` split_at E K = {}"
    using c by (auto simp: clone_ok_def)
  show "q = q'" if "window q'" "indices q'" "tab_at E 3 K q' = Some t'" "private_at n4 n3 n2 x q = private_at n4 n3 n2 x q'"
    using cases [OF w] cases [OF that(1-3)] that(4) inj by (auto dest: inj_onD)
qed

lemma clone_trees:
  assumes c: "clone_ok E E' Rs T K n4 n3 n2 x"
  shows "trees_ok E' (insert n4 Rs) (T \<union> clone_tables E K n4 n3 n2 x)"
proof -
  note D = clone_okD [OF c]
  let ?N = "clone_tables E K n4 n3 n2 x"
  have old: "tab_at E' 3 r q = tab_at E 3 r q" if "r \<in> Rs" "indices q" for r q
    by (rule same_old(1) [OF D(1) _ that]) (use D(3) in auto)
  have n4: "n4 \<notin> Rs"
  proof
    assume "n4 \<in> Rs"
    then have "n4 \<in> T" using trees_ok_table [OF D(1), of n4 "[]" n4] by simp
    then show False using D(4) by (auto simp: clone_tables_def)
  qed
  text \<open>A table of the clone is a private one inside the window and a shared one of the kernel's outside.\<close>
  have cl: "window q \<and> t = private_at n4 n3 n2 x q \<and> t \<in> ?N \<and> t \<notin> T \<and> (\<exists>t'. tab_at E 3 K q = Some t')
      \<or> \<not> window q \<and> tab_at E 3 K q = Some t \<and> t \<in> T" if iq: "indices q" and tq: "tab_at E' 3 n4 q = Some t" for q t
  proof (cases "window q")
    case True
    then obtain t' where "t = private_at n4 n3 n2 x q" "tab_at E 3 K q = Some t'" using clone_tab [OF c iq] tq
      by (cases "tab_at E 3 K q") (simp_all del: tab_at.simps)
    then show ?thesis using private_in(1) [OF c True iq] True D(4) by blast
  next
    case False
    then show ?thesis using clone_tab [OF c iq] tq trees_ok_table [OF D(1,2) iq] by simp
  qed
  have T: "t \<in> T" if "r \<in> Rs" "indices q" "tab_at E' 3 r q = Some t" for r q t
    using trees_ok_table [OF D(1) that(1,2)] old [OF that(1,2)] that(3) by simp
  have uni: "p = p' \<and> (r \<noteq> r' \<longrightarrow> \<not> window p)"
    if rr: "r \<in> insert n4 Rs" "r' \<in> insert n4 Rs" and ip: "indices p" "indices p'"
      and tp: "tab_at E' 3 r p = Some t" "tab_at E' 3 r' p' = Some t" for r r' p p' t
  proof -
    consider "r = n4" "r' = n4" | "r = n4" "r' \<in> Rs" | "r \<in> Rs" "r' = n4" | "r \<in> Rs" "r' \<in> Rs" using rr by auto
    then show ?thesis
    proof cases
      case 1
      then show ?thesis using cl [OF ip(1)] cl [OF ip(2)] ip tp private_in(2) [OF c] trees_ok_pos [OF D(1,2)] D(2) by metis
    next
      case 2
      then show ?thesis using cl [OF ip(1)] tp(1) T [OF 2(2) ip(2) tp(2)] old [OF 2(2) ip(2)] tp(2)
          trees_ok_pos [OF D(1,2) ip(1) _ 2(2) ip(2)] by metis
    next
      case 3
      then show ?thesis using cl [OF ip(2)] tp(2) T [OF 3(1) ip(1) tp(1)] old [OF 3(1) ip(1)] tp(1)
          trees_ok_pos [OF D(1,2) ip(2) _ 3(1) ip(1)] by metis
    next
      case 4
      then show ?thesis using old ip tp trees_ok_pos [OF D(1) 4(1) ip(1) _ 4(2) ip(2)] trees_ok_private [OF D(1) 4(1) ip(1) _ 4(2)] by metis
    qed
  qed
  moreover have "t \<in> T \<union> ?N" if "r \<in> insert n4 Rs" "indices q" "tab_at E' 3 r q = Some t" for r q t
    using that cl [OF that(2)] T by auto
  ultimately show ?thesis unfolding trees_ok_def by blast
qed

end
