(* ===== verification/Arch_Clone.thy ===== *)
theory Arch_Clone
  imports Arch_Process
begin

text \<open>
  The execution of \<open>new_process_space\<close>: under the state invariant it fails only when the frames do not
  suffice, and otherwise builds the clone of the previous theory.
\<close>

section \<open>Frames in use\<close>

definition used :: "(u64 \<times> nat) set \<Rightarrow> nat" where "used H = (\<Sum>(pa, k)\<in>H. 2 ^ k)"

lemma used_insert: "finite H \<Longrightarrow> (n, 0) \<notin> H \<Longrightarrow> used (insert (n, 0) H) = Suc (used H)"
  by (simp add: used_def)

lemma alloc_fails_full:
  assumes f: "frames_ok U g H" and a: "alloc_frames g 0 = Some (None, g)"
  shows "card U = used H"
proof -
  obtain fa :: frame_allocator and F A n where g: "g = Some fa" "buddy_ok n (fa_buddy fa) F A {x. base_pfn fa + x \<in> U}"
    "base_pfn fa + n < 2 ^ 32" using f unfolding frames_ok_def by blast
  have n: "buddy_alloc (fa_buddy fa) 0 = Some (None, fa_buddy fa) \<and> (MAX_ORDER < 0 \<or> (\<forall>j. 0 \<le> j \<and> j \<le> MAX_ORDER \<longrightarrow> F j = []))"
    using buddy_alloc_ok [OF g(2), of 0] a g(1)
    by (auto simp: alloc_frames_def fa_alloc_def split: Option.bind_splits option.splits)
  then have "free_blocks F = {}" by (auto simp: free_blocks_def)
  then have "bfree (fa_buddy fa) = 0" using g(2) by (simp add: buddy_ok_def frames_of_def)
  then have "free_frame_count g = 0" using g(1) by (simp add: free_frame_count_def free_frames_def)
  then show ?thesis using frames_ok_count(2) [OF f] by (simp add: used_def)
qed

definition frames_in :: "nat set \<Rightarrow> (u64 \<times> nat) set \<Rightarrow> vm \<Rightarrow> bool" where
  "frames_in U H m \<longleftrightarrow> frames_ok U (vframes m) H \<and> U \<subseteq> {..<2 ^ 20} \<and> unat (vhhdm m) + 2 ^ 33 \<le> 2 ^ 64"

lemma alloc_table_full:
  assumes f: "frames_in U H m" and a: "alloc_table m = None"
  shows "card U = used H"
proof -
  have F: "frames_ok U (vframes m) H" "U \<subseteq> {..<2 ^ 20}" "unat (vhhdm m) + 2 ^ 33 \<le> 2 ^ 64" using f by (auto simp: frames_in_def)
  have "alloc_frames (vframes m) 0 = Some (None, vframes m)"
  proof (rule ccontr)
    assume "alloc_frames (vframes m) 0 \<noteq> Some (None, vframes m)"
    then obtain pa g where g: "alloc_frames (vframes m) 0 = Some (Some pa, g)" "frames_ok U g (insert (pa, 0) H)"
      using kernel_frames.alloc_law [OF F(1), of 0] by blast
    have "frame_addr pa" using frame_addr_held [OF g(2) F(2)] by auto
    then obtain v where "phys_to_virt (vhhdm m) pa = Some v" using frame_virt F(3) by blast
    then show False using a g(1) by (simp add: alloc_table_def alloc_zeroed_frame_def zero_range_def)
  qed
  then show ?thesis using alloc_fails_full f by (auto simp: frames_in_def)
qed

section \<open>Cloning one table\<close>

definition tcopy :: "(nat \<Rightarrow> u64) \<Rightarrow> nat \<Rightarrow> u64" where "tcopy f j = (if j < 512 then f j else 0)"

lemma clone_table_cases:
  assumes f: "frames_in U H m" and o: "(orig, 0) \<in> H"
  obtains "clone_table orig m = None" "card U = used H"
  | n g where "clone_table orig m = Some (n, m\<lparr>vframes := g, ptab := (ptab m)(n := tcopy (ptab m orig))\<rparr>)"
      "(n, 0) \<notin> H" "frames_in U (insert (n, 0) H) (m\<lparr>vframes := g, ptab := (ptab m)(n := tcopy (ptab m orig))\<rparr>)" "frame_addr n"
proof -
  have F: "frames_ok U (vframes m) H" "U \<subseteq> {..<2 ^ 20}" "unat (vhhdm m) + 2 ^ 33 \<le> 2 ^ 64" using f by (auto simp: frames_in_def)
  show ?thesis
  proof (rule alloc_table_cases [OF F])
    assume "alloc_table m = None"
    then show ?thesis using that(1) alloc_table_full [OF f] by (simp add: clone_table_def)
  next
    fix n g assume a: "alloc_table m = Some (n, m\<lparr>vframes := g, ptab := (ptab m)(n := \<lambda>_. 0)\<rparr>)"
      "(n, 0) \<notin> H" "frames_ok U g (insert (n, 0) H)" "frame_addr n"
    have ne: "orig \<noteq> n" using o a(2) by auto
    have fo: "frame_addr orig" by (rule frame_addr_held [OF F(1,2) o])
    let ?m = "m\<lparr>vframes := g, ptab := (ptab m)(n := \<lambda>_. 0)\<rparr>"
    have h: "unat (vhhdm ?m) + 2 ^ 33 \<le> 2 ^ 64" using F(3) by simp
    have "(\<lambda>j. if j < 512 then ptab ?m orig j else ptab ?m n j) = tcopy (ptab m orig)" using ne by (auto simp: tcopy_def)
    then have "clone_table orig m = Some (n, m\<lparr>vframes := g, ptab := (ptab m)(n := tcopy (ptab m orig))\<rparr>)"
      unfolding clone_table_def a(1) using copy_table [OF a(4) fo ne h, of 512] by (simp del: upt.simps)
    then show ?thesis using that(2) a F by (simp add: frames_in_def)
  qed
qed

section \<open>The loop over the window directory\<close>

definition same_regs :: "vm \<Rightarrow> vm \<Rightarrow> bool" where
  "same_regs m m' \<longleftrightarrow> vhhdm m' = vhhdm m \<and> cr3 m' = cr3 m \<and> KERNEL_PML4 m' = KERNEL_PML4 m \<and> invlpgs m' = invlpgs m"

text \<open>The entries of the directory \<open>pd\<close> of index below \<open>k\<close> that pointed to a table point to a copy of it.\<close>

definition privatised :: "nat set \<Rightarrow> (u64 \<times> nat) set \<Rightarrow> vm \<Rightarrow> u64 \<Rightarrow> nat set \<Rightarrow> (nat \<Rightarrow> u64) \<Rightarrow> vm \<Rightarrow> bool" where
  "privatised U H m pd S x m' \<longleftrightarrow> frames_in U (H \<union> x ` S \<times> {0}) m' \<and> same_regs m m' \<and> inj_on x S \<and> x ` S \<times> {0} \<inter> H = {}
     \<and> (\<forall>i\<in>S. frame_addr (x i) \<and> ptab m' (x i) = tcopy (ptab m (nxt (ptab m pd i))))
     \<and> (\<forall>t. (t, 0) \<in> H \<longrightarrow> t \<noteq> pd \<longrightarrow> ptab m' t = ptab m t)
     \<and> (\<forall>i. ptab m' pd i = (if i \<in> S then x i OR (ptab m pd i AND NOT ADDR_MASK) else ptab m pd i))"

definition tables_below :: "vm \<Rightarrow> u64 \<Rightarrow> nat \<Rightarrow> nat set" where
  "tables_below m pd k = {i. i < k \<and> descends 1 (ptab m pd i)}"

lemma tables_below_Suc: "tables_below m pd (Suc k) = (if descends 1 (ptab m pd k) then insert k (tables_below m pd k) else tables_below m pd k)"
  by (auto simp: tables_below_def less_Suc_eq)

lemma used_union: "finite H \<Longrightarrow> finite N \<Longrightarrow> N \<times> {0} \<inter> H = {} \<Longrightarrow> used (H \<union> N \<times> {0}) = used H + card N"
  unfolding used_def by (subst sum.union_disjoint) (auto simp: sum.cartesian_product [symmetric])

lemma privatise_step:
  assumes P: "privatised U H m pd S x m'" and S: "finite S" "k \<notin> S" and H: "(pd, 0) \<in> H"
    and e: "descends 1 (ptab m pd k) \<Longrightarrow> (nxt (ptab m pd k), 0) \<in> H \<and> nxt (ptab m pd k) \<noteq> pd"
  shows "if descends 1 (ptab m pd k)
    then privatise pd k m' = None \<and> card U = used (H \<union> x ` S \<times> {0})
      \<or> (\<exists>y m''. privatise pd k m' = Some m'' \<and> privatised U H m pd (insert k S) (x(k := y)) m'')
    else privatise pd k m' = Some m'"
proof -
  let ?H = "H \<union> x ` S \<times> {0}" let ?e = "ptab m pd k"
  have F: "frames_in U ?H m'" and ent: "ptab m' pd k = ?e" using P S(2) by (auto simp: privatised_def)
  have Fs: "frames_ok U (vframes m') ?H" "U \<subseteq> {..<2 ^ 20}" "unat (vhhdm m') + 2 ^ 33 \<le> 2 ^ 64" using F by (auto simp: frames_in_def)
  have pdf: "frame_addr pd" using frame_addr_held [OF Fs(1,2), of pd 0] H by simp
  have rd: "read_entry m' pd k = Some ?e" using entry_ops(1) [OF pdf Fs(3)] ent by simp
  show ?thesis
  proof (cases "descends 1 ?e")
    case False
    then have "privatise pd k m' = Some m'" using rd by (auto simp: privatise_def has_alt descends_def)
    then show ?thesis using False by simp
  next
    case True
    then have o: "(nxt ?e, 0) \<in> ?H" "nxt ?e \<noteq> pd" "(nxt ?e, 0) \<in> H" using e by auto
    have src: "ptab m' (nxt ?e) = ptab m (nxt ?e)" using P o(2,3) by (auto simp: privatised_def)
    show ?thesis
    proof (rule clone_table_cases [OF F o(1)])
      assume "clone_table (nxt ?e) m' = None" "card U = used ?H"
      then show ?thesis using rd True by (simp add: privatise_def has_alt descends_def)
    next
      fix y g let ?m = "m'\<lparr>vframes := g, ptab := (ptab m')(y := tcopy (ptab m' (nxt ?e)))\<rparr>"
      assume c: "clone_table (nxt ?e) m' = Some (y, ?m)" "(y, 0) \<notin> ?H" "frames_in U (insert (y, 0) ?H) ?m" "frame_addr y"
      have ypd: "y \<noteq> pd" "y \<notin> x ` S" "(y, 0) \<notin> H" using c(2) H by auto
      let ?m'' = "?m\<lparr>ptab := (ptab ?m)(pd := (ptab ?m pd)(k := y OR (?e AND NOT ADDR_MASK)))\<rparr>"
      have "write_entry pd k (y OR (?e AND NOT ADDR_MASK)) ?m = Some ?m''"
        using entry_ops(2) [OF pdf, of ?m] Fs(3) by simp
      then have "privatise pd k m' = Some ?m''" using rd c(1) True by (simp add: privatise_def has_alt descends_def)
      moreover have "privatised U H m pd (insert k S) (x(k := y)) ?m''"
      proof -
        have im: "(x(k := y)) ` insert k S = insert y (x ` S)" using S(2) by auto
        then have hh: "H \<union> (x(k := y)) ` insert k S \<times> {0} = insert (y, 0) ?H" by auto
        have "frames_in U (insert (y, 0) ?H) ?m''" using c(3) by (simp add: frames_in_def)
        moreover have "inj_on (x(k := y)) (insert k S)"
          using P ypd(2) S(2) by (auto simp: privatised_def inj_on_def)
        moreover have "insert y (x ` S) \<times> {0} \<inter> H = {}" using P ypd(3) by (auto simp: privatised_def)
        moreover have "x i \<noteq> pd" if "i \<in> S" for i using P H that by (auto simp: privatised_def)
        moreover have "x i \<noteq> y" if "i \<in> S" for i using ypd(2) that by auto
        moreover have "t \<noteq> y" if "(t, 0) \<in> H" for t using ypd(3) that by auto
        ultimately show ?thesis
          using P ypd c(4) src S(2) unfolding privatised_def im hh same_regs_def by simp
      qed
      ultimately show ?thesis using True by auto
    qed
  qed
qed

lemma privatise_loop:
  assumes F: "frames_in U H m" and H: "(pd, 0) \<in> H"
    and e: "\<And>i. i < n \<Longrightarrow> descends 1 (ptab m pd i) \<Longrightarrow> (nxt (ptab m pd i), 0) \<in> H \<and> nxt (ptab m pd i) \<noteq> pd"
    and k: "k \<le> n"
  shows "for_each (privatise pd) [0..<k] m = None \<and> card U < used H + card (tables_below m pd k)
    \<or> (\<exists>x m'. for_each (privatise pd) [0..<k] m = Some m' \<and> privatised U H m pd (tables_below m pd k) x m')"
  using k
proof (induction k)
  case 0
  have "privatised U H m pd {} x m" for x using F by (simp add: privatised_def same_regs_def)
  then show ?case by (simp add: tables_below_def)
next
  case (Suc k)
  let ?S = "tables_below m pd k"
  have fin: "finite ?S" "k \<notin> ?S" by (simp_all add: tables_below_def)
  have fH: "finite H" using frames_ok_count(1) F by (auto simp: frames_in_def)
  have grow: "card ?S \<le> card (tables_below m pd (Suc k))"
    using fin by (intro card_mono) (auto simp: tables_below_def)
  have seq: "for_each (privatise pd) [0..<Suc k] m = do { s' \<leftarrow> for_each (privatise pd) [0..<k] m; privatise pd k s' }"
    by (cases "for_each (privatise pd) [0..<k] m") (auto split: Option.bind_split)
  have "k \<le> n" using Suc.prems by simp
  from Suc.IH [OF this] show ?case
  proof (elim disjE exE conjE)
    assume "for_each (privatise pd) [0..<k] m = None" "card U < used H + card ?S"
    then show ?thesis using grow seq by simp
  next
    fix x m' assume m': "for_each (privatise pd) [0..<k] m = Some m'" "privatised U H m pd ?S x m'"
    have inj: "card (x ` ?S) = card ?S" "x ` ?S \<times> {0} \<inter> H = {}" using m'(2) by (auto simp: privatised_def card_image)
    have u: "used (H \<union> x ` ?S \<times> {0}) = used H + card ?S" using used_union [OF fH _ inj(2)] inj(1) fin(1) by simp
    note st = privatise_step [OF m'(2) fin H e [of k]]
    show ?thesis
    proof (cases "descends 1 (ptab m pd k)")
      case False
      then show ?thesis using st Suc.prems seq m' by (auto simp: tables_below_Suc)
    next
      case True
      then have S: "tables_below m pd (Suc k) = insert k ?S" "card (insert k ?S) = Suc (card ?S)"
        using fin by (simp_all add: tables_below_Suc)
      show ?thesis using st True Suc.prems seq m'(1) u by (auto simp: S)
    qed
  qed
qed

section \<open>A new process space\<close>

lemma frames_in_vm: "vm_ok U Rs T H m \<Longrightarrow> frames_in U H m"
  using vm_okD(1-3) by (simp add: frames_in_def)

lemma write_frame:
  assumes f: "frames_in U H m" and t: "(t, 0) \<in> H"
  shows "write_entry t i v m = Some (m\<lparr>ptab := (ptab m)(t := (ptab m t)(i := v))\<rparr>)"
    and "read_entry m t i = Some (ptab m t i)"
    and "frames_in U H (m\<lparr>ptab := E\<rparr>)"
proof -
  have F: "frames_ok U (vframes m) H" "U \<subseteq> {..<2 ^ 20}" "unat (vhhdm m) + 2 ^ 33 \<le> 2 ^ 64" using f by (auto simp: frames_in_def)
  have "frame_addr t" by (rule frame_addr_held [OF F(1,2) t])
  then show "write_entry t i v m = Some (m\<lparr>ptab := (ptab m)(t := (ptab m t)(i := v))\<rparr>)" "read_entry m t i = Some (ptab m t i)"
    using entry_ops F(3) by blast+
  show "frames_in U H (m\<lparr>ptab := E\<rparr>)" using f by (simp add: frames_in_def)
qed

text \<open>The three tables copied before the loop.\<close>

lemma new_process_upper:
  assumes ok: "vm_ok U Rs T H m"
  defines "E \<equiv> ptab m" and "K \<equiv> KERNEL_PML4 m"
  shows "new_process_space m = None \<and> card U < used H + 3
    \<or> (\<exists>n4 n3 n2 m5. new_process_space m = do { m6 \<leftarrow> for_each (privatise n2) [0..<512] m5; Some (\<lparr>primary = n4, secondary = 0\<rparr>, m6) }
        \<and> distinct [n4, n3, n2] \<and> {n4, n3, n2} \<times> {0} \<inter> H = {} \<and> frames_in U (H \<union> {n4, n3, n2} \<times> {0}) m5 \<and> same_regs m m5
        \<and> frame_addr n4 \<and> frame_addr n3 \<and> frame_addr n2
        \<and> ptab m5 = E(n4 := (tcopy (E K))(0 := n3 OR (E K 0 AND NOT ADDR_MASK)),
            n3 := (tcopy (E (pd2 E K)))(1 := n2 OR (E (pd2 E K) 1 AND NOT ADDR_MASK)), n2 := tcopy (E (pd1 E K))))"
proof -
  have K: "K \<in> Rs" using vm_okD(7) [OF ok] by (simp add: K_def)
  obtain t where "tab_at E 3 K [0, 1] = Some t" using vm_okD(9) [OF ok K] by (auto simp: E_def simp del: tab_at.simps)
  then have t: "tab_at E 3 K [0] = Some (pd2 E K)" "tab_at E 3 K [0, 1] = Some (pd1 E K)" by (auto simp: pd2_def pd1_def split: if_splits)
  have "K \<in> T" "pd2 E K \<in> T" "pd1 E K \<in> T"
    using trees_ok_table [OF vm_okD(5) [OF ok] K, of "[]" K] trees_ok_table [OF vm_okD(5) [OF ok] K _ t(1) [unfolded E_def]]
      trees_ok_table [OF vm_okD(5) [OF ok] K _ t(2) [unfolded E_def]] by (simp_all add: E_def)
  then have H: "(K, 0) \<in> H" "(pd2 E K, 0) \<in> H" "(pd1 E K, 0) \<in> H" using vm_okD(4) [OF ok] by auto
  note F = frames_in_vm [OF ok]
  have fin: "finite H" using frames_ok_count(1) vm_okD(1) [OF ok] by blast
  show ?thesis
  proof (rule clone_table_cases [OF F H(1)])
    assume "clone_table K m = None" "card U = used H"
    then show ?thesis by (simp add: new_process_space_def K_def [symmetric])
  next
    fix n4 g4 let ?m1 = "m\<lparr>vframes := g4, ptab := (ptab m)(n4 := tcopy (ptab m K))\<rparr>"
    assume c4: "clone_table K m = Some (n4, ?m1)" "(n4, 0) \<notin> H" "frames_in U (insert (n4, 0) H) ?m1" "frame_addr n4"
    have n4: "n4 \<noteq> K" "n4 \<noteq> pd2 E K" "n4 \<noteq> pd1 E K" using c4(2) H by auto
    have r0: "read_entry ?m1 K 0 = Some (E K 0)" using write_frame(2) [OF c4(3), of K 0] H(1) n4 by (simp add: E_def)
    have o3: "(pd2 E K, 0) \<in> insert (n4, 0) H" using H by simp
    show ?thesis
    proof (rule clone_table_cases [OF c4(3) o3])
      assume "clone_table (pd2 E K) ?m1 = None" "card U = used (insert (n4, 0) H)"
      then show ?thesis using c4(1) r0 used_insert [OF fin c4(2)]
        by (simp add: new_process_space_def K_def [symmetric] has_alt pd2_def)
    next
      fix n3 g3 let ?m2 = "?m1\<lparr>vframes := g3, ptab := (ptab ?m1)(n3 := tcopy (ptab ?m1 (pd2 E K)))\<rparr>"
      assume c3: "clone_table (pd2 E K) ?m1 = Some (n3, ?m2)" "(n3, 0) \<notin> insert (n4, 0) H"
        "frames_in U (insert (n3, 0) (insert (n4, 0) H)) ?m2" "frame_addr n3"
      let ?w0 = "n3 OR (E K 0 AND NOT ADDR_MASK)"
      let ?m3 = "?m2\<lparr>ptab := (ptab ?m2)(n4 := (ptab ?m2 n4)(0 := ?w0))\<rparr>"
      have n3: "n3 \<noteq> n4" "n3 \<noteq> K" "n3 \<noteq> pd2 E K" "n3 \<noteq> pd1 E K" using c3(2) H by auto
      have w3: "write_entry n4 0 ?w0 ?m2 = Some ?m3" by (rule write_frame(1) [OF c3(3)]) simp
      have f3: "frames_in U (insert (n3, 0) (insert (n4, 0) H)) ?m3" by (rule write_frame(3) [OF c3(3), of n4]) simp
      have r1: "read_entry ?m3 (pd2 E K) 1 = Some (E (pd2 E K) 1)"
        using write_frame(2) [OF f3, of "pd2 E K" 1] H(2) n4 n3 by (simp add: E_def)
      have o2: "(pd1 E K, 0) \<in> insert (n3, 0) (insert (n4, 0) H)" using H by simp
      show ?thesis
      proof (rule clone_table_cases [OF f3 o2])
        assume "clone_table (pd1 E K) ?m3 = None" "card U = used (insert (n3, 0) (insert (n4, 0) H))"
        then show ?thesis using c4(1) r0 c3(1) w3 r1 used_insert [OF fin c4(2)] used_insert [OF _ c3(2)] fin
          by (simp add: new_process_space_def K_def [symmetric] has_alt pd2_def pd1_def)
      next
        fix n2 g2 let ?m4 = "?m3\<lparr>vframes := g2, ptab := (ptab ?m3)(n2 := tcopy (ptab ?m3 (pd1 E K)))\<rparr>"
        assume c2: "clone_table (pd1 E K) ?m3 = Some (n2, ?m4)" "(n2, 0) \<notin> insert (n3, 0) (insert (n4, 0) H)"
          "frames_in U (insert (n2, 0) (insert (n3, 0) (insert (n4, 0) H))) ?m4" "frame_addr n2"
        let ?w1 = "n2 OR (E (pd2 E K) 1 AND NOT ADDR_MASK)"
        let ?m5 = "?m4\<lparr>ptab := (ptab ?m4)(n3 := (ptab ?m4 n3)(1 := ?w1))\<rparr>"
        have n2: "n2 \<noteq> n4" "n2 \<noteq> n3" "n2 \<noteq> pd1 E K" using c2(2) H by auto
        have w5: "write_entry n3 1 ?w1 ?m4 = Some ?m5" by (rule write_frame(1) [OF c2(3)]) simp
        define m5 where "m5 = ?m5"
        have f5: "frames_in U (insert (n2, 0) (insert (n3, 0) (insert (n4, 0) H))) m5"
          unfolding m5_def by (rule write_frame(3) [OF c2(3), of n3]) simp
        have eq: "new_process_space m = do { m6 \<leftarrow> for_each (privatise n2) [0..<512] m5; Some (\<lparr>primary = n4, secondary = 0\<rparr>, m6) }"
          unfolding m5_def using c4(1) r0 c3(1) w3 r1 c2(1) w5
          by (simp add: new_process_space_def K_def [symmetric] has_alt pd2_def pd1_def del: upt.simps)
        have pt: "ptab m5 = E(n4 := (tcopy (E K))(0 := ?w0), n3 := (tcopy (E (pd2 E K)))(1 := ?w1), n2 := tcopy (E (pd1 E K)))"
          using n4 n3 n2 by (auto simp: fun_eq_iff E_def m5_def)
        have hh: "H \<union> {n4, n3, n2} \<times> {0} = insert (n2, 0) (insert (n3, 0) (insert (n4, 0) H))" by auto
        have rg: "same_regs m m5" by (simp add: same_regs_def m5_def)
        have dj: "{n4, n3, n2} \<times> {0} \<inter> H = {}" "distinct [n4, n3, n2]" using c4(2) c3(2) c2(2) n2 n3 by auto
        show ?thesis
          by (intro disjI2 exI [of _ n4] exI [of _ n3] exI [of _ n2] exI [of _ m5] conjI eq dj rg c4(4) c3(4) c2(4) pt f5 [folded hh])
      qed
    qed
  qed
qed

lemma split_tables:
  assumes ok: "vm_ok U Rs T H m" and i: "i \<in> split_at (ptab m) (KERNEL_PML4 m)"
  shows "nxt (ptab m (pd1 (ptab m) (KERNEL_PML4 m)) i) \<in> T"
proof -
  let ?E = "ptab m" and ?K = "KERNEL_PML4 m"
  obtain t where "tab_at ?E 3 ?K [0, 1] = Some t" using vm_okD(9) [OF ok vm_okD(7) [OF ok]] by blast
  then have t: "tab_at ?E 3 ?K [0, 1] = Some (pd1 ?E ?K)" by (auto simp: pd2_def pd1_def split: if_splits)
  have "tab_at ?E 3 ?K ([0, 1] @ [i]) = Some (nxt (?E (pd1 ?E ?K) i))"
    unfolding tab_at_snoc t using i by (simp add: split_at_def)
  then show ?thesis using trees_ok_table [OF vm_okD(5) [OF ok] vm_okD(7) [OF ok], of "[0, 1] @ [i]"] i by (simp add: split_at_def)
qed

definition space_added :: "nat set \<Rightarrow> u64 set \<Rightarrow> u64 set \<Rightarrow> (u64 \<times> nat) set \<Rightarrow> vm \<Rightarrow> u64 \<Rightarrow> vm \<Rightarrow> bool" where
  "space_added U Rs T H m r m' \<longleftrightarrow> (\<exists>T' H'. vm_ok U (insert r Rs) T' H' m' \<and> grown T H T' H'
         \<and> used H' \<le> used H + 3 + card (split_at (ptab m) (KERNEL_PML4 m))) \<and> r \<notin> Rs \<and> same_regs m m'
     \<and> (\<forall>r'\<in>Rs. \<forall>va. mapping (ptab m') r' va = mapping (ptab m) r' va)
     \<and> (\<forall>va. mapping (ptab m') r va = mapping (ptab m) (KERNEL_PML4 m) va)"

lemma clone_vm_ok:
  assumes ok: "vm_ok U Rs T H m" and c: "clone_ok (ptab m) (ptab m') Rs T (KERNEL_PML4 m) n4 n3 n2 x"
    and N: "N = clone_tables (ptab m) (KERNEL_PML4 m) n4 n3 n2 x" "N \<times> {0} \<inter> H = {}"
    and f: "frames_in U (H \<union> N \<times> {0}) m'" and rg: "same_regs m m'"
  shows "space_added U Rs T H m n4 m'"
proof -
  let ?E = "ptab m" and ?E' = "ptab m'" and ?K = "KERNEL_PML4 m"
  note D = clone_okD [OF c]
  have n4: "n4 \<notin> Rs"
  proof
    assume "n4 \<in> Rs"
    then have "n4 \<in> T" using trees_ok_table [OF D(1), of n4 "[]" n4] by simp
    then show False using D(4) by (auto simp: clone_tables_def)
  qed
  have hw: "hw ?E' r ps = hw ?E r ps" if "r \<in> Rs" "indices ps" "length ps = 4" for r ps
    by (rule same_old(2) [OF D(1) _ that(1), of ?E' "[]" ps r]) (use D(3) that in auto)
  have tab: "tab_at ?E' 3 r q = tab_at ?E 3 r q" if "r \<in> Rs" "indices q" for r q
    by (rule same_old(1) [OF D(1) _ that]) (use D(3) in auto)
  have u: "users_ok ?E' (insert n4 Rs) ?K"
    unfolding users_ok_def
  proof (intro ballI allI impI)
    fix r ps l n v assume a: "r \<in> insert n4 Rs" "length ps = 4" "indices ps" "hw ?E' r ps = Some (l, n, v)" "has USER l"
    have "hw ?E (if r = n4 then ?K else r) ps = Some (l, n, v)" using a clone_hw [OF c a(3,2)] hw [OF _ a(3,2)] by auto
    moreover have "(if r = n4 then ?K else r) \<in> Rs" using a(1) D(2) by auto
    ultimately have "n = 0 \<and> v \<and> window ps \<and> (if r = n4 then ?K else r) \<noteq> ?K"
      using vm_okD(6) [OF ok] a(2,3,5) unfolding users_ok_def by blast
    then show "n = 0 \<and> v \<and> window ps \<and> r \<noteq> ?K" by (auto split: if_splits)
  qed
  have w: "tab_at ?E' 3 r [0, 1] \<noteq> None" if "r \<in> insert n4 Rs" for r
  proof (cases "r = n4")
    case True
    then show ?thesis using clone_tab [OF c, of "[0, 1]"] D(7) by (simp add: window_def del: tab_at.simps)
  next
    case False
    then show ?thesis using that tab [of r "[0, 1]"] vm_okD(9) [OF ok, of r] by (auto simp del: tab_at.simps)
  qed
  have "vm_ok U (insert n4 Rs) (T \<union> N) (H \<union> N \<times> {0}) m'"
    using f rg clone_trees [OF c] u w vm_okD(4,7,8) [OF ok] N(1)
    unfolding vm_ok_def frames_in_def same_regs_def by (auto simp del: tab_at.simps)
  moreover have "grown T H (T \<union> N) (H \<union> N \<times> {0})" using N(2) by (auto simp: grown_def)
  moreover have "used (H \<union> N \<times> {0}) \<le> used H + 3 + card (split_at ?E ?K)"
  proof -
    have S: "finite (split_at ?E ?K)" by (rule finite_subset [of _ "{..<512}"]) (auto simp: split_at_def)
    have H: "finite H" using frames_ok_count(1) vm_okD(1) [OF ok] by blast
    have "card N \<le> card {n4, n3, n2} + card (x ` split_at ?E ?K)" unfolding N(1) clone_tables_def by (rule card_Un_le)
    also have "\<dots> \<le> 3 + card (split_at ?E ?K)" using card_image_le [OF S, of x] by (intro add_mono) (simp_all add: card_insert_if)
    finally show ?thesis using used_union [OF H _ N(2)] S by (simp add: N(1) clone_tables_def)
  qed
  moreover have "mapping ?E' n4 va = mapping ?E ?K va" for va using clone_hw [OF c path_ok] by (simp add: mapping_def)
  moreover have "mapping ?E' r va = mapping ?E r va" if "r \<in> Rs" for r va using hw [OF that path_ok] by (simp add: mapping_def)
  ultimately show ?thesis using n4 rg unfolding space_added_def by blast
qed

lemma new_process_space_ok:
  assumes ok: "vm_ok U Rs T H m"
  shows "case new_process_space m of
      None \<Rightarrow> card U < used H + 3 + card (split_at (ptab m) (KERNEL_PML4 m))
    | Some (sp, m') \<Rightarrow> secondary sp = 0 \<and> space_added U Rs T H m (primary sp) m'"
  using new_process_upper [OF ok]
proof (elim disjE exE conjE)
  let ?E = "ptab m" and ?K = "KERNEL_PML4 m"
  fix n4 n3 n2 m5
  assume eq: "new_process_space m = do { m6 \<leftarrow> for_each (privatise n2) [0..<512] m5; Some (\<lparr>primary = n4, secondary = 0\<rparr>, m6) }"
    and d: "distinct [n4, n3, n2]" "{n4, n3, n2} \<times> {0} \<inter> H = {}" and F: "frames_in U (H \<union> {n4, n3, n2} \<times> {0}) m5" "same_regs m m5"
    and fa: "frame_addr n4" "frame_addr n3" "frame_addr n2"
    and pt: "ptab m5 = ?E(n4 := (tcopy (?E ?K))(0 := n3 OR (?E ?K 0 AND NOT ADDR_MASK)),
            n3 := (tcopy (?E (pd2 ?E ?K)))(1 := n2 OR (?E (pd2 ?E ?K) 1 AND NOT ADDR_MASK)), n2 := tcopy (?E (pd1 ?E ?K)))"
  let ?H = "H \<union> {n4, n3, n2} \<times> {0}" and ?S = "split_at ?E ?K"
  have T: "t \<noteq> n4 \<and> t \<noteq> n3 \<and> t \<noteq> n2 \<and> (t, 0) \<in> H" if "t \<in> T" for t using vm_okD(4) [OF ok that] d(2) by auto
  have e2: "ptab m5 n2 i = ?E (pd1 ?E ?K) i" if "i < 512" for i using pt that by (simp add: tcopy_def)
  have S: "tables_below m5 n2 512 = ?S" using e2 by (auto simp: tables_below_def split_at_def)
  have fin: "finite H" using frames_ok_count(1) vm_okD(1) [OF ok] by blast
  have ch: "used ?H = used H + 3" using used_union [OF fin _ d(2)] d(1) by simp
  have e: "(nxt (ptab m5 n2 i), 0) \<in> ?H \<and> nxt (ptab m5 n2 i) \<noteq> n2" if "i < 512" "descends 1 (ptab m5 n2 i)" for i
    using split_tables [OF ok, of i] T that e2 [OF that(1)] by (auto simp: split_at_def)
  have pdH: "(n2, 0) \<in> ?H" by simp
  have "for_each (privatise n2) [0..<512] m5 = None \<and> card U < used ?H + card (tables_below m5 n2 512)
      \<or> (\<exists>x m'. for_each (privatise n2) [0..<512] m5 = Some m' \<and> privatised U ?H m5 n2 (tables_below m5 n2 512) x m')"
    by (rule privatise_loop [OF F(1) pdH _ order_refl]) (rule e)
  then show ?thesis
  proof (elim disjE exE conjE)
    assume "for_each (privatise n2) [0..<512] m5 = None" "card U < used ?H + card (tables_below m5 n2 512)"
    then show ?thesis using eq ch S by simp
  next
    fix x m' assume m': "for_each (privatise n2) [0..<512] m5 = Some m'" "privatised U ?H m5 n2 (tables_below m5 n2 512) x m'"
    note P = m'(2) [unfolded privatised_def S]
    let ?N = "clone_tables ?E ?K n4 n3 n2 x"
    have "x ` ?S \<times> {0} \<inter> ?H = {}" using P by (elim conjE)
    then have xH: "(x i, 0) \<notin> ?H" if "i \<in> ?S" for i using that by blast
    have xa: "frame_addr (x i)" if "i \<in> ?S" for i using P that by blast
    have old: "ptab m' t = ?E t" if "t \<in> T" for t using P T [OF that] pt by auto
    have "clone_ok ?E (ptab m') Rs T ?K n4 n3 n2 x"
      unfolding clone_ok_def
    proof (intro conjI)
      show "tab_at ?E 3 ?K [0, 1] \<noteq> None" using vm_okD(9) [OF ok vm_okD(7) [OF ok]] by (auto simp del: tab_at.simps)
      have "ptab m' (x i) j = ?E (nxt (?E (pd1 ?E ?K) i)) j" if "i \<in> ?S" "j < 512" for i j
        using P that split_tables [OF ok that(1)] T e2 [of i] pt by (auto simp: split_at_def tcopy_def)
      then show "cloned ?E (ptab m') ?K n4 n3 n2 x" using P pt d(1) e2 by (auto simp: cloned_def tcopy_def)
      show "?N \<inter> T = {}" using T xH by (auto simp: clone_tables_def)
      show "\<forall>t\<in>?N. nxt t = t" using fa xa frame_addr_bits(1) by (auto simp: clone_tables_def)
      show "{n4, n3, n2} \<inter> x ` ?S = {}" using xH by auto
    qed (use vm_okD(5,7) [OF ok] old d(1) P in auto)
    moreover have "?N \<times> {0} \<inter> H = {}" using d(2) xH by (auto simp: clone_tables_def)
    moreover have "frames_in U (H \<union> ?N \<times> {0}) m'"
    proof -
      have "H \<union> ?N \<times> {0} = ?H \<union> x ` ?S \<times> {0}" by (auto simp: clone_tables_def)
      then show ?thesis using P by simp
    qed
    moreover have "same_regs m m'" using P F(2) by (simp add: same_regs_def)
    ultimately show ?thesis using clone_vm_ok [OF ok _ refl] eq m'(1) by simp
  qed
qed simp

end
