(* ===== verification/Arch_Build.thy ===== *)
theory Arch_Build
  imports Arch_Clone
begin

text \<open>
  Construction of the kernel's own address space: \<open>build_address_space\<close> of \<^verbatim>\<open>paging.rs\<close> and its caller
  \<open>setup_kernel_paging\<close> of \<^verbatim>\<open>src/kernel/src/memory/mod.rs\<close> with the self-check \<open>verify_wx\<close>.  The linker
  symbols are parameters; the walk that finds the kernel's physical base runs on the boot loader's
  tables, whatever they are.
\<close>

section \<open>The caller in \<open>memory::init\<close>\<close>

record linker_symbols =
  kernel_start :: u64
  kernel_end :: u64
  text_range :: "u64 \<times> u64"
  rodata_range :: "u64 \<times> u64"
  data_range :: "u64 \<times> u64"

datatype paging_fatal = NoKernelPhys | BadKernelImage | WXNotRefused | TextUnmapped | TextNotRX
  | RodataUnmapped | RodataNotRO | DataUnmapped | DataNotRW

definition next_multiple_of :: "u64 \<Rightarrow> u64 \<Rightarrow> u64 option" where
  "next_multiple_of a b = (let r = a mod b in if r = 0 then Some a else checked_add a (b - r))"

definition verify_wx :: "kernel_map \<Rightarrow> vm \<Rightarrow> (paging_fatal, unit) outcome" where
  "verify_wx km m =
     (if prot_checked True True True \<noteq> None then Err WXNotRefused
      else case page_prot m (fst (km_text km)) of
        None \<Rightarrow> Panic
      | Some None \<Rightarrow> Err TextUnmapped
      | Some (Some (w, x)) \<Rightarrow>
          if w \<or> \<not> x then Err TextNotRX
          else obind (if fst (km_rodata km) < snd (km_rodata km)
              then (case page_prot m (fst (km_rodata km)) of
                  None \<Rightarrow> Panic
                | Some None \<Rightarrow> Err RodataUnmapped
                | Some (Some (rw, rx)) \<Rightarrow> if rw \<or> rx then Err RodataNotRO else Ok ())
              else Ok ()) (\<lambda>_.
            case page_prot m (fst (km_data km)) of
              None \<Rightarrow> Panic
            | Some None \<Rightarrow> Err DataUnmapped
            | Some (Some (dw, dx)) \<Rightarrow> if \<not> dw \<or> dx then Err DataNotRW else Ok ()))"

definition setup_kernel_paging :: "linker_symbols \<Rightarrow> u64 \<Rightarrow> vm \<Rightarrow> (paging_fatal, kernel_map \<times> vm) outcome" where
  "setup_kernel_paging L hhdm m =
     (case translate m (kernel_start L) of
        None \<Rightarrow> Panic
      | Some None \<Rightarrow> Err NoKernelPhys
      | Some (Some kphys) \<Rightarrow>
          (case next_multiple_of (kernel_end L) PAGE_SIZE of
             None \<Rightarrow> Panic
           | Some vend \<Rightarrow>
               let km = \<lparr>km_hhdm_offset = hhdm, identity_bytes = IDENTITY_BYTES, kernel_vbase = kernel_start L,
                     kernel_vend = vend, kernel_phys = kphys, km_text = text_range L, km_rodata = rodata_range L,
                     km_data = data_range L\<rparr> in
               if kernel_vbase km mod 0x200000 \<noteq> 0 then Err BadKernelImage
               else (case checked_sub (kernel_vend km) (kernel_vbase km) of
                  None \<Rightarrow> Panic
                | Some len \<Rightarrow>
                    if len > 0x200000 then Err BadKernelImage
                    else (case build_address_space km m of
                       None \<Rightarrow> Panic
                     | Some (space, m1) \<Rightarrow>
                         let m2 = activate_address_space space m1 in
                         obind (verify_wx km m2) (\<lambda>_. Ok (km, m2))))))"

section \<open>Trees without user entries\<close>

text \<open>No entry has \<open>USER\<close> and no leaf is writable and executable.\<close>

definition plain_leaf :: "u64 \<Rightarrow> bool" where
  "plain_leaf e \<longleftrightarrow> \<not> has USER e \<and> (has PRESENT e \<longrightarrow> \<not> (has WRITABLE e \<and> \<not> has NX e))"

definition plain :: "tables \<Rightarrow> u64 \<Rightarrow> bool" where
  "plain E r \<longleftrightarrow> (\<forall>q t i. indices q \<longrightarrow> i < 512 \<longrightarrow> tab_at E 3 r q = Some t \<longrightarrow>
      \<not> has USER (E t i) \<and> (\<not> descends (3 - length q) (E t i) \<longrightarrow> plain_leaf (E t i)))"

lemma hw_position:
  "hw E t s = Some (l, n, u) \<Longrightarrow> indices s \<Longrightarrow>
    \<exists>q i t'. indices q \<and> i < 512 \<and> tab_at E (length s - 1) t q = Some t' \<and> l = E t' i \<and> has PRESENT l \<and> \<not> descends (length s - 1 - length q) l"
proof (induction s arbitrary: t u)
  case (Cons i s)
  show ?case
  proof (cases "descends (length s) (E t i)")
    case False
    then show ?thesis using Cons.prems by (intro exI [of _ "[]"] exI [of _ i] exI [of _ t]) (auto simp: Let_def split: if_splits)
  next
    case True
    then obtain u' where h: "hw E (nxt (E t i)) s = Some (l, n, u')" using Cons.prems(1) by (auto simp: Let_def split: if_splits)
    have "indices s" using Cons.prems(2) by simp
    from Cons.IH [OF h this] obtain q j t' where "indices q" "j < 512" "tab_at E (length s - 1) (nxt (E t i)) q = Some t'" "l = E t' j"
      "has PRESENT l" "\<not> descends (length s - 1 - length q) l" by blast
    then show ?thesis using True Cons.prems(2) by (intro exI [of _ "i # q"] exI [of _ j] exI [of _ t']) auto
  qed
qed simp

lemma plain_hw:
  assumes "plain E r" "length ps = 4" "indices ps" "hw E r ps = Some (l, n, u)"
  shows "plain_leaf l" "has PRESENT l" "\<not> u"
proof -
  obtain q i t where q: "indices q" "i < 512" "tab_at E 3 r q = Some t" "l = E t i" "has PRESENT l" "\<not> descends (3 - length q) l"
    using hw_position [OF assms(4,3)] assms(2) by auto
  then show "plain_leaf l" "has PRESENT l" using assms(1) unfolding plain_def by auto
  then show "\<not> u" using hw_user [OF assms(4)] by (auto simp: plain_leaf_def)
qed

lemma plain_users: "plain E K \<Longrightarrow> users_ok E {K} K"
  using plain_hw(1) unfolding users_ok_def plain_leaf_def by blast

lemma plain_attach:
  assumes e: "edit_at E {r} T p t i e E'" and o: "\<not> descends (3 - length p) (E t i)" and d: "descends (3 - length p) e"
    and f: "nxt e \<notin> T" and z: "\<And>j. j < 512 \<Longrightarrow> \<not> descends (3 - length p - 1) (E' (nxt e) j) \<and> plain_leaf (E' (nxt e) j)"
    and u: "\<not> has USER e" and pl: "plain E r"
  shows "plain E' r"
  unfolding plain_def
proof (intro allI impI)
  fix q t1 and j :: nat assume q: "indices q" "j < 512" "tab_at E' 3 r q = Some t1"
  have at: "tab_at E' 3 r q = (if q = p @ [i] \<and> tab_at E 3 r p = Some t then Some (nxt e) else tab_at E 3 r q)"
    by (rule edit_attach [OF e o d f _ _ q(1)]) (use z in auto)
  show "\<not> has USER (E' t1 j) \<and> (\<not> descends (3 - length q) (E' t1 j) \<longrightarrow> plain_leaf (E' t1 j))"
  proof (cases "q = p @ [i] \<and> tab_at E 3 r p = Some t")
    case True
    then have "t1 = nxt e" using at q(3) by simp
    then show ?thesis using z [OF q(2)] by (auto simp: plain_leaf_def)
  next
    case False
    then have old: "tab_at E 3 r q = Some t1" using at q(3) by (metis (full_types))
    show ?thesis
    proof (cases "(t1, j) = (t, i)")
      case True
      then have "q = p" using edit_at_pos [OF e _ q(1)] old by auto
      then show ?thesis using True u d edit_at_new [OF e] by simp
    next
      case False
      have "t1 \<in> T" using trees_ok_table [OF edit_at_trees [OF e] _ q(1) old] by simp
      then show ?thesis using edit_at_same [OF e _ False] pl q(1,2) old unfolding plain_def by simp
    qed
  qed
qed

lemma plain_write:
  assumes e: "edit_at E {r} T p t i e E'" and p: "length p = 3" and l: "plain_leaf e" and pl: "plain E r"
  shows "plain E' r"
  unfolding plain_def
proof (intro allI impI)
  fix q t1 and j :: nat assume q: "indices q" "j < 512" "tab_at E' 3 r q = Some t1"
  then have old: "tab_at E 3 r q = Some t1" using leaf_step_tab [OF e p] by simp
  have T: "t1 \<in> T" using trees_ok_table [OF edit_at_trees [OF e] _ q(1) old] by simp
  show "\<not> has USER (E' t1 j) \<and> (\<not> descends (3 - length q) (E' t1 j) \<longrightarrow> plain_leaf (E' t1 j))"
    using edit_at_same [OF e T] edit_at_new [OF e] l pl q(1,2) old unfolding plain_def plain_leaf_def by (cases "(t1, j) = (t, i)") auto
qed

section \<open>Growing the tree\<close>

definition building :: "nat set \<Rightarrow> (u64 \<times> nat) set \<Rightarrow> u64 \<Rightarrow> u64 set \<Rightarrow> vm \<Rightarrow> bool" where
  "building U H r T m \<longleftrightarrow> frames_in U H m \<and> (\<forall>t\<in>T. (t, 0) \<in> H) \<and> trees_ok (ptab m) {r} T \<and> plain (ptab m) r"

text \<open>A table is allocated, linked into the tree and filled with leaves.\<close>

lemma link_table:
  assumes b: "building U H r T m" and p: "indices p" "tab_at (ptab m) 3 r p = Some t" "i < 512" "length p \<le> 2"
    and o: "\<not> descends (3 - length p) (ptab m t i)"
    and l: "\<And>j. \<not> descends (3 - length p - 1) (f j) \<and> plain_leaf (f j)"
    and g: "frames_in U (insert (n, 0) H) m'" "(n, 0) \<notin> H" "frame_addr n"
    and m': "ptab m' = (ptab m)(n := f, t := (ptab m t)(i := n OR PRESENT OR WRITABLE))"
  shows "building U (insert (n, 0) H) r (insert n T) m'" "tab_at (ptab m') 3 r (p @ [i]) = Some n" "n \<notin> T" "n \<noteq> t"
    and "indices q \<Longrightarrow> tab_at (ptab m) 3 r q = Some x \<Longrightarrow> tab_at (ptab m') 3 r q = Some x"
proof -
  let ?e = "n OR (PRESENT OR WRITABLE)"
  have B: "frames_in U H m" "\<And>t. t \<in> T \<Longrightarrow> (t, 0) \<in> H" "trees_ok (ptab m) {r} T" "plain (ptab m) r" using b by (auto simp: building_def)
  show nT: "n \<notin> T" using B(2) g(2) by auto
  have tT: "t \<in> T" using trees_ok_table [OF B(3) _ p(1,2)] by simp
  show nt: "n \<noteq> t" using nT tT by auto
  have nn: "nxt n = n" using frame_addr_bits(1) [OF g(3)] .
  have ne: "nxt ?e = n" "descends (3 - length p) ?e" "\<not> has USER ?e" using nn p(4) by (auto simp: pte descends_def)
  have e: "edit_at (ptab m) {r} T p t i ?e (ptab m')" using B(3) p nT nt m' by (auto simp: edit_at_def edited_def)
  have f: "nxt ?e \<notin> T" using nT ne by simp
  have z: "\<not> descends (3 - length p - 1) (ptab m' (nxt ?e) j) \<and> plain_leaf (ptab m' (nxt ?e) j)" for j using l m' nt ne by simp
  have at: "tab_at (ptab m') 3 r q = (if q = p @ [i] \<and> tab_at (ptab m) 3 r p = Some t then Some (nxt ?e) else tab_at (ptab m) 3 r q)"
    if "indices q" for q by (rule edit_attach [OF e o ne(2) f _ _ that]) (use z in auto)
  show "tab_at (ptab m') 3 r (p @ [i]) = Some n" using at [of "p @ [i]"] p ne(1) by simp
  show "indices q \<Longrightarrow> tab_at (ptab m) 3 r q = Some x \<Longrightarrow> tab_at (ptab m') 3 r q = Some x"
    using at [of q] p(2) o by (auto simp: tab_at_snoc split: if_splits)
  have "trees_ok (ptab m') {r} (insert (nxt ?e) T)" by (rule edit_attach_trees [OF e o ne(2) f]) (use z in auto)
  then have "trees_ok (ptab m') {r} (insert n T)" using ne(1) by simp
  moreover have "plain (ptab m') r" by (rule plain_attach [OF e o ne(2) f _ ne(3) B(4)]) (use z in auto)
  ultimately show "building U (insert (n, 0) H) r (insert n T) m'" using g(1) B(2) by (auto simp: building_def)
qed

lemma alloc_build_cases:
  assumes f: "frames_in U H m"
  obtains "alloc_table m = None" "card U = used H"
  | n g where "alloc_table m = Some (n, m\<lparr>vframes := g, ptab := (ptab m)(n := \<lambda>_. 0)\<rparr>)" "(n, 0) \<notin> H" "frame_addr n"
      "\<And>E. frames_in U (insert (n, 0) H) (m\<lparr>vframes := g, ptab := E\<rparr>)"
proof -
  have F: "frames_ok U (vframes m) H" "U \<subseteq> {..<2 ^ 20}" "unat (vhhdm m) + 2 ^ 33 \<le> 2 ^ 64" using f by (auto simp: frames_in_def)
  show ?thesis
  proof (rule alloc_table_cases [OF F])
    assume "alloc_table m = None"
    then show ?thesis using that(1) alloc_table_full [OF f] by blast
  next
    fix n g assume "alloc_table m = Some (n, m\<lparr>vframes := g, ptab := (ptab m)(n := \<lambda>_. 0)\<rparr>)" "(n, 0) \<notin> H"
      "frames_ok U g (insert (n, 0) H)" "frame_addr n"
    then show ?thesis using that(2) F by (simp add: frames_in_def)
  qed
qed

section \<open>The identity and direct maps\<close>

definition low_leaf :: "nat \<Rightarrow> nat \<Rightarrow> u64" where
  "low_leaf g j = (push_bit 30 (of_nat g) OR push_bit 21 (of_nat j)) OR PRESENT OR WRITABLE OR HUGE OR NX"

definition low_table :: "nat \<Rightarrow> nat \<Rightarrow> u64" where "low_table g j = (if j < 512 then low_leaf g j else 0)"

lemma no_user_push: "3 \<le> k \<Longrightarrow> \<not> has USER (push_bit k w)"
proof -
  assume k: "3 \<le> k"
  have u: "USER = 2 ^ 2" by (simp add: USER_def)
  show ?thesis unfolding has_def u and_exp_eq_0_iff_not_bit using k by (simp add: bit_push_bit_iff)
qed

lemma low_leaf_has: "has PRESENT (low_leaf g j)" "has WRITABLE (low_leaf g j)" "has HUGE (low_leaf g j)" "has NX (low_leaf g j)"
  "\<not> has USER (low_leaf g j)"
  by (simp_all add: low_leaf_def pte no_user_push)

lemma low_table_leaf: "\<not> descends 1 (low_table g j) \<and> plain_leaf (low_table g j)"
  using low_leaf_has by (auto simp: low_table_def plain_leaf_def descends_def pte)

lemma zero_leaf: "\<not> descends k 0 \<and> plain_leaf 0"
  by (simp add: descends_def plain_leaf_def pte)

lemma low_gib_ok:
  assumes b: "building U H r T m" and p: "tab_at (ptab m) 3 r [k] = Some pdpt" "k < 512" "g < 512" "\<not> descends 2 (ptab m pdpt g)"
  shows "map_low_gib pdpt g m = None \<and> card U = used H
    \<or> (\<exists>pd m'. map_low_gib pdpt g m = Some m' \<and> building U (insert (pd, 0) H) r (insert pd T) m' \<and> (pd, 0) \<notin> H \<and> nxt pd = pd
        \<and> same_regs m m' \<and> pd \<noteq> pdpt \<and> pd \<notin> T \<and> tab_at (ptab m') 3 r [k] = Some pdpt
        \<and> ptab m' = (ptab m)(pd := low_table g, pdpt := (ptab m pdpt)(g := pd OR PRESENT OR WRITABLE)))"
proof -
  have f: "frames_in U H m" and T: "\<forall>t\<in>T. (t, 0) \<in> H" "trees_ok (ptab m) {r} T" using b by (auto simp: building_def)
  have pT: "pdpt \<in> T" using trees_ok_table [OF T(2) _ _ p(1)] p(2) by simp
  show ?thesis
  proof (rule alloc_build_cases [OF f])
    assume "alloc_table m = None" "card U = used H"
    then show ?thesis by (simp add: map_low_gib_def)
  next
    fix pd fr assume a: "alloc_table m = Some (pd, m\<lparr>vframes := fr, ptab := (ptab m)(pd := \<lambda>_. 0)\<rparr>)" "(pd, 0) \<notin> H" "frame_addr pd"
      and fi: "\<And>E. frames_in U (insert (pd, 0) H) (m\<lparr>vframes := fr, ptab := E\<rparr>)"
    have ne: "pd \<noteq> pdpt" using pT T(1) a(2) by auto
    let ?w = "pd OR PRESENT OR WRITABLE"
    let ?m1 = "m\<lparr>vframes := fr, ptab := (ptab m)(pd := \<lambda>_. 0, pdpt := (ptab m pdpt)(g := ?w))\<rparr>"
    let ?m' = "m\<lparr>vframes := fr, ptab := (ptab m)(pd := low_table g, pdpt := (ptab m pdpt)(g := ?w))\<rparr>"
    have w: "write_entry pdpt g ?w (m\<lparr>vframes := fr, ptab := (ptab m)(pd := \<lambda>_. 0)\<rparr>) = Some ?m1"
      using write_frame(1) [OF fi, of pdpt g ?w "(ptab m)(pd := \<lambda>_. 0)"] pT T(1) ne by simp
    have hh: "unat (vhhdm ?m1) + 2 ^ 33 \<le> 2 ^ 64" using f by (simp add: frames_in_def)
    have tab: "(\<lambda>j. if j < 512 then low_leaf g j else ptab ?m1 pd j) = low_table g" using ne by (auto simp: low_table_def)
    have "for_each (\<lambda>j. write_entry pd j (low_leaf g j)) [0..<512] ?m1 = Some (?m1\<lparr>ptab := (ptab ?m1)(pd := low_table g)\<rparr>)"
      using fill_table [OF a(3) hh, of "low_leaf g" 512] unfolding tab .
    moreover have "(ptab ?m1)(pd := low_table g) = ptab ?m'" using ne by (auto simp: fun_eq_iff)
    ultimately have "for_each (\<lambda>j. write_entry pd j (low_leaf g j)) [0..<512] ?m1 = Some ?m'" by simp
    then have ex: "map_low_gib pdpt g m = Some ?m'" unfolding map_low_gib_def a(1) using w by (simp add: low_leaf_def del: upt.simps)
    have l: "length [k] \<le> 2" "indices [k]" "\<not> descends (3 - length [k]) (ptab m pdpt g)" using p by simp_all
    have lf: "\<not> descends (3 - length [k] - 1) (low_table g j) \<and> plain_leaf (low_table g j)" for j using low_table_leaf by simp
    note lk = link_table [OF b l(2) p(1,3) l(1,3) lf fi a(2,3)]
    show ?thesis using ex lk(1,3,4) lk(5) [OF _ l(2) p(1)] a(2) frame_addr_bits(1) [OF a(3)] ne
      by (intro disjI2 exI [of _ pd] exI [of _ ?m']) (simp add: same_regs_def del: tab_at.simps)
  qed
qed

text \<open>The loop over the gibibytes; \<open>pds g\<close> is the directory of gibibyte \<open>g\<close>.\<close>

definition low_built :: "tables \<Rightarrow> tables \<Rightarrow> u64 set \<Rightarrow> u64 \<Rightarrow> (nat \<Rightarrow> u64) \<Rightarrow> nat \<Rightarrow> bool" where
  "low_built E E' T pdpt pds n \<longleftrightarrow> (\<forall>t\<in>T. t \<noteq> pdpt \<longrightarrow> E' t = E t)
     \<and> (\<forall>g. E' pdpt g = (if g < n then pds g OR PRESENT OR WRITABLE else E pdpt g))
     \<and> (\<forall>g<n. E' (pds g) = low_table g \<and> nxt (pds g) = pds g) \<and> inj_on pds {..<n}"

lemma low_loop_ok:
  assumes b: "building U H r T m" and p: "tab_at (ptab m) 3 r [k] = Some pdpt" "k < 512" and n: "n \<le> 512"
    and z: "\<And>g. g < n \<Longrightarrow> \<not> descends 2 (ptab m pdpt g)"
  shows "for_each (map_low_gib pdpt) [0..<n] m = None \<and> card U < used H + n
    \<or> (\<exists>pds m'. for_each (map_low_gib pdpt) [0..<n] m = Some m' \<and> building U (H \<union> pds ` {..<n} \<times> {0}) r (T \<union> pds ` {..<n}) m'
        \<and> pds ` {..<n} \<times> {0} \<inter> H = {} \<and> same_regs m m' \<and> tab_at (ptab m') 3 r [k] = Some pdpt
        \<and> low_built (ptab m) (ptab m') T pdpt pds n)"
  using n z
proof (induction n)
  case 0
  then show ?case using b p by (simp add: low_built_def same_regs_def del: tab_at.simps)
next
  case (Suc n)
  have seq: "for_each (map_low_gib pdpt) [0..<Suc n] m = do { s' \<leftarrow> for_each (map_low_gib pdpt) [0..<n] m; map_low_gib pdpt n s' }"
    by (cases "for_each (map_low_gib pdpt) [0..<n] m") (auto split: Option.bind_split)
  have IH: "for_each (map_low_gib pdpt) [0..<n] m = None \<and> card U < used H + n
    \<or> (\<exists>pds m'. for_each (map_low_gib pdpt) [0..<n] m = Some m' \<and> building U (H \<union> pds ` {..<n} \<times> {0}) r (T \<union> pds ` {..<n}) m'
        \<and> pds ` {..<n} \<times> {0} \<inter> H = {} \<and> same_regs m m' \<and> tab_at (ptab m') 3 r [k] = Some pdpt
        \<and> low_built (ptab m) (ptab m') T pdpt pds n)"
    using Suc by simp
  then show ?case
  proof (elim disjE exE conjE)
    fix pds :: "nat \<Rightarrow> u64" and m' let ?N = "pds ` {..<n}"
    assume m': "for_each (map_low_gib pdpt) [0..<n] m = Some m'" and b': "building U (H \<union> ?N \<times> {0}) r (T \<union> ?N) m'" and N: "?N \<times> {0} \<inter> H = {}"
      and rg: "same_regs m m'" and p': "tab_at (ptab m') 3 r [k] = Some pdpt" and lb: "low_built (ptab m) (ptab m') T pdpt pds n"
    have pT: "pdpt \<in> T" using trees_ok_table [of "ptab m" "{r}" T r "[k]" pdpt] b p by (simp add: building_def del: tab_at.simps)
    have fin: "finite H" using b frames_ok_count(1) by (auto simp: building_def frames_in_def)
    have cN: "used (H \<union> ?N \<times> {0}) = used H + n"
      using used_union [OF fin _ N] lb card_image [of pds "{..<n}"] by (simp add: low_built_def)
    have nd: "\<not> descends 2 (ptab m' pdpt n)" using lb Suc.prems(2) [of n] by (simp add: low_built_def)
    have n5: "n < 512" using Suc.prems(1) by simp
    from low_gib_ok [OF b' p' p(2) n5 nd] show ?thesis
    proof (elim disjE exE conjE)
      assume "map_low_gib pdpt n m' = None" "card U = used (H \<union> ?N \<times> {0})"
      then show ?thesis using seq m' cN by simp
    next
      fix pd m'' assume g: "map_low_gib pdpt n m' = Some m''" "building U (insert (pd, 0) (H \<union> ?N \<times> {0})) r (insert pd (T \<union> ?N)) m''"
        "(pd, 0) \<notin> H \<union> ?N \<times> {0}" "nxt pd = pd" "same_regs m' m''" "pd \<noteq> pdpt" "pd \<notin> T \<union> ?N" "tab_at (ptab m'') 3 r [k] = Some pdpt"
        "ptab m'' = (ptab m')(pd := low_table n, pdpt := (ptab m' pdpt)(n := pd OR PRESENT OR WRITABLE))"
      let ?pds = "pds(n := pd)"
      have im: "?pds ` {..<Suc n} = insert pd ?N" by (auto simp: lessThan_Suc)
      have s: "H \<union> insert pd ?N \<times> {0} = insert (pd, 0) (H \<union> ?N \<times> {0})" "T \<union> insert pd ?N = insert pd (T \<union> ?N)" by auto
      have NT: "pds g \<noteq> pdpt" if "g < n" for g
      proof
        assume "pds g = pdpt"
        then have "(pdpt, 0) \<in> ?N \<times> {0}" using that by auto
        moreover have "(pdpt, 0) \<in> H" using pT b by (auto simp: building_def)
        ultimately show False using N by auto
      qed
      have "low_built (ptab m) (ptab m'') T pdpt ?pds (Suc n)"
        using lb g(4,6,7,9) NT unfolding low_built_def by (auto simp: less_Suc_eq inj_on_def image_iff)
      moreover have "insert pd ?N \<times> {0} \<inter> H = {}" using N g(3) by auto
      moreover have "same_regs m m''" using rg g(5) by (simp add: same_regs_def)
      ultimately show ?thesis using seq m' g(1,2,8)
        by (intro disjI2 exI [of _ ?pds] exI [of _ m'']) (simp add: im s del: tab_at.simps fun_upd_apply)
    qed
  qed (use seq in simp)
qed

definition low_region :: "tables \<Rightarrow> u64 \<Rightarrow> nat \<Rightarrow> nat \<Rightarrow> u64 set \<Rightarrow> bool" where
  "low_region E r k n N \<longleftrightarrow> (\<exists>pdpt pds. N = insert pdpt (pds ` {..<n}) \<and> E r k = pdpt OR PRESENT OR WRITABLE \<and> nxt pdpt = pdpt
     \<and> (\<forall>g<n. E pdpt g = pds g OR PRESENT OR WRITABLE \<and> nxt (pds g) = pds g \<and> E (pds g) = low_table g) \<and> (\<forall>g\<ge>n. E pdpt g = 0))"

text \<open>Tables \<open>N\<close> were added below entry \<open>k\<close> of the root and nothing else changed.\<close>

definition branch_added :: "nat set \<Rightarrow> (u64 \<times> nat) set \<Rightarrow> u64 \<Rightarrow> u64 set \<Rightarrow> nat \<Rightarrow> vm \<Rightarrow> u64 set \<Rightarrow> nat \<Rightarrow> vm \<Rightarrow> bool" where
  "branch_added U H r T k m N c m' \<longleftrightarrow> building U (H \<union> N \<times> {0}) r (T \<union> N) m' \<and> N \<times> {0} \<inter> H = {} \<and> same_regs m m'
     \<and> used (H \<union> N \<times> {0}) = used H + c \<and> (\<forall>t\<in>T. \<forall>i. (t, i) \<noteq> (r, k) \<longrightarrow> ptab m' t i = ptab m t i)"

lemma link_zero_table:
  assumes b: "building U H r T m" and p: "indices p" "tab_at (ptab m) 3 r p = Some t" "i < 512" "length p \<le> 2"
    and o: "\<not> descends (3 - length p) (ptab m t i)"
  obtains "alloc_table m = None" "card U = used H"
  | n m1 m2 where "alloc_table m = Some (n, m1)" "write_entry t i (n OR PRESENT OR WRITABLE) m1 = Some m2" "(n, 0) \<notin> H" "nxt n = n" "n \<notin> T" "n \<noteq> t"
      "building U (insert (n, 0) H) r (insert n T) m2" "tab_at (ptab m2) 3 r (p @ [i]) = Some n" "same_regs m m2"
      "ptab m2 = (ptab m)(n := \<lambda>_. 0, t := (ptab m t)(i := n OR PRESENT OR WRITABLE))"
proof -
  have f: "frames_in U H m" and T: "\<forall>t\<in>T. (t, 0) \<in> H" "trees_ok (ptab m) {r} T" using b by (auto simp: building_def)
  have tH: "(t, 0) \<in> H" using trees_ok_table [OF T(2) _ p(1,2)] T(1) by simp
  show ?thesis
  proof (rule alloc_build_cases [OF f])
    fix n fr assume a: "alloc_table m = Some (n, m\<lparr>vframes := fr, ptab := (ptab m)(n := \<lambda>_. 0)\<rparr>)" "(n, 0) \<notin> H" "frame_addr n"
      and fi: "\<And>E. frames_in U (insert (n, 0) H) (m\<lparr>vframes := fr, ptab := E\<rparr>)"
    have ne: "n \<noteq> t" using tH a(2) by auto
    let ?m2 = "m\<lparr>vframes := fr, ptab := (ptab m)(n := \<lambda>_. 0, t := (ptab m t)(i := n OR PRESENT OR WRITABLE))\<rparr>"
    have w: "write_entry t i (n OR PRESENT OR WRITABLE) (m\<lparr>vframes := fr, ptab := (ptab m)(n := \<lambda>_. 0)\<rparr>) = Some ?m2"
      using write_frame(1) [OF fi, of t i "n OR PRESENT OR WRITABLE" "(ptab m)(n := \<lambda>_. 0)"] tH ne by simp
    have pt: "ptab ?m2 = (ptab m)(n := \<lambda>_. 0, t := (ptab m t)(i := n OR PRESENT OR WRITABLE))" by simp
    note lk = link_table [OF b p o zero_leaf fi a(2,3) pt]
    show ?thesis by (rule that(2) [OF a(1) w a(2) frame_addr_bits(1) [OF a(3)] lk(3,4,1,2) _ pt]) (simp add: same_regs_def)
  qed (rule that(1))
qed

lemma map_low_ok:
  assumes b: "building U H r T m" and k: "k < 512" "\<not> descends 3 (ptab m r k)" and n: "div_ceil bytes GIB \<le> 512"
  shows "map_low r k bytes m = None \<and> card U < used H + Suc (div_ceil bytes GIB)
    \<or> (\<exists>N m'. map_low r k bytes m = Some m' \<and> branch_added U H r T k m N (Suc (div_ceil bytes GIB)) m'
        \<and> low_region (ptab m') r k (div_ceil bytes GIB) N)"
proof -
  let ?n = "div_ceil bytes GIB"
  have r0: "tab_at (ptab m) 3 r [] = Some r" "length [] \<le> 2" "indices []" "\<not> descends (3 - length []) (ptab m r k)" using k by simp_all
  have fin: "finite H" using b frames_ok_count(1) by (auto simp: building_def frames_in_def)
  show ?thesis
  proof (rule link_zero_table [OF b r0(3,1) k(1) r0(2,4)])
    assume "alloc_table m = None" "card U = used H"
    then show ?thesis by (simp add: map_low_def)
  next
    fix pdpt m1 m2 assume a: "alloc_table m = Some (pdpt, m1)" and w: "write_entry r k (pdpt OR PRESENT OR WRITABLE) m1 = Some m2"
      and new: "(pdpt, 0) \<notin> H" "nxt pdpt = pdpt" "pdpt \<notin> T" "pdpt \<noteq> r" and b2: "building U (insert (pdpt, 0) H) r (insert pdpt T) m2"
      and t: "tab_at (ptab m2) 3 r ([] @ [k]) = Some pdpt" and rg: "same_regs m m2"
      and pt: "ptab m2 = (ptab m)(pdpt := \<lambda>_. 0, r := (ptab m r)(k := pdpt OR PRESENT OR WRITABLE))"
    have t': "tab_at (ptab m2) 3 r [k] = Some pdpt" using t by simp
    have z: "\<not> descends 2 (ptab m2 pdpt g)" for g using pt new(4) zero_leaf by simp
    have ex: "map_low r k bytes m = for_each (map_low_gib pdpt) [0..<?n] m2" using a w by (simp add: map_low_def)
    from low_loop_ok [OF b2 t' k(1) n z] show ?thesis
    proof (elim disjE exE conjE)
      assume "for_each (map_low_gib pdpt) [0..<?n] m2 = None" "card U < used (insert (pdpt, 0) H) + ?n"
      then show ?thesis using ex used_insert [OF fin new(1)] by simp
    next
      fix pds :: "nat \<Rightarrow> u64" and m' let ?P = "pds ` {..<?n}"
      assume m': "for_each (map_low_gib pdpt) [0..<?n] m2 = Some m'" and b': "building U (insert (pdpt, 0) H \<union> ?P \<times> {0}) r (insert pdpt T \<union> ?P) m'"
        and N: "?P \<times> {0} \<inter> insert (pdpt, 0) H = {}" and rg': "same_regs m2 m'" and lb: "low_built (ptab m2) (ptab m') (insert pdpt T) pdpt pds ?n"
      have s: "H \<union> insert pdpt ?P \<times> {0} = insert (pdpt, 0) H \<union> ?P \<times> {0}" "T \<union> insert pdpt ?P = insert pdpt T \<union> ?P" by auto
      have rT: "r \<in> T" using trees_ok_table [of "ptab m" "{r}" T r "[]" r] b by (simp add: building_def)
      have P: "pds g \<noteq> r" if "g < ?n" for g
      proof
        assume "pds g = r"
        then have "(r, 0) \<in> ?P \<times> {0}" using that by auto
        then show False using N rT b by (auto simp: building_def)
      qed
      have u: "used (insert (pdpt, 0) H \<union> ?P \<times> {0}) = used H + Suc ?n"
        using used_union [OF _ _ N] fin used_insert [OF fin new(1)] lb card_image [of pds "{..<?n}"] by (simp add: low_built_def)
      have same: "ptab m' t i = ptab m t i" if "t \<in> T" "(t, i) \<noteq> (r, k)" for t i
        using lb that pt new(3) by (auto simp: low_built_def)
      have "branch_added U H r T k m (insert pdpt ?P) (Suc ?n) m'"
        using b' N new(1) rg rg' u same unfolding branch_added_def s by (auto simp: same_regs_def)
      moreover have "low_region (ptab m') r k ?n (insert pdpt ?P)"
        unfolding low_region_def using lb pt new(2,4) rT by (intro exI [of _ pdpt] exI [of _ pds]) (auto simp: low_built_def)
      ultimately show ?thesis using ex m' by auto
    qed
  qed
qed

end
