(* ===== verification/Arch_Boot.thy ===== *)
theory Arch_Boot
  imports Arch_Build
begin

text \<open>
  The address space that \<open>build_address_space\<close> leaves: which frames it takes, and the translation of
  every address under it (identity map, direct map and kernel image with the protections of its
  sections).
\<close>

section \<open>Addresses and indices\<close>

lemma pt_idx_div: "pt_idx va k = unat va div 2 ^ (12 + 9 * k) mod 512"
proof -
  have m: "(0x1ff :: u64) = mask 9" by (simp add: mask_eq_exp_minus_1)
  have "pt_idx va k = unat (take_bit 9 (drop_bit (12 + 9 * k) va))" by (simp add: pt_idx_def m take_bit_eq_mask)
  also have "\<dots> = take_bit 9 (drop_bit (12 + 9 * k) (unat va))" using unat_bound [of va] by (simp only: unsigned_take_bit_eq unsigned_drop_bit_eq) (simp add: take_bit_nat_eq_self)
  finally show ?thesis by (simp add: take_bit_eq_mod drop_bit_eq_div)
qed

lemma of_nat_pt_idx: "of_nat (pt_idx va k) = take_bit 9 (drop_bit (12 + 9 * k) va)"
proof -
  have m: "(0x1ff :: u64) = mask 9" by (simp add: mask_eq_exp_minus_1)
  show ?thesis by (simp add: pt_idx_def m take_bit_eq_mask)
qed

section \<open>The kernel image\<close>

text \<open>What \<open>setup_kernel_paging\<close> checks of the image: \<open>n\<close> pages from a 2 MiB boundary, backed by whole frames.\<close>

definition image_ok :: "kernel_map \<Rightarrow> nat \<Rightarrow> bool" where
  "image_ok km n \<longleftrightarrow> unat (kernel_vbase km) mod 2 ^ 21 = 0 \<and> unat (kernel_vend km) = unat (kernel_vbase km) + 4096 * n \<and> n \<le> 512
     \<and> unat (kernel_phys km) mod 4096 = 0 \<and> unat (kernel_phys km) + 2 ^ 21 \<le> 2 ^ 52"

definition kernel_page :: "kernel_map \<Rightarrow> nat \<Rightarrow> u64" where
  "kernel_page km a = kernel_vbase km + of_nat (4096 * a)"

definition kernel_leaf :: "kernel_map \<Rightarrow> nat \<Rightarrow> u64" where
  "kernel_leaf km a = (kernel_phys km + of_nat (4096 * a)) OR leaf_bits (section_prot km (kernel_page km a))"

lemma unat_page_offset: "a \<le> 512 \<Longrightarrow> unat (of_nat (4096 * a) :: u64) = 4096 * a"
  by (simp only: unat_of_nat) simp

lemma image_arith:
  assumes i: "image_ok km n" and a: "a \<le> n"
  shows "unat (kernel_page km a) = unat (kernel_vbase km) + 4096 * a"
    and "unat (kernel_phys km + of_nat (4096 * a)) = unat (kernel_phys km) + 4096 * a"
    and "a < n \<Longrightarrow> pt_idx (kernel_page km a) 0 = a"
    and "a < n \<Longrightarrow> kernel_page km a < kernel_vend km" and "kernel_page km n = kernel_vend km"
proof -
  have n: "n \<le> 512" and v: "unat (kernel_vend km) = unat (kernel_vbase km) + 4096 * n" using i by (auto simp: image_ok_def)
  have lim: "unat (kernel_vend km) < 2 ^ 64" using unat_bound [of "kernel_vend km"] by simp
  have u: "unat (kernel_page km b) = unat (kernel_vbase km) + 4096 * b" if "b \<le> n" for b
  proof -
    have "unat (kernel_vbase km) + 4096 * b < 2 ^ 64" using that v lim by simp
    then show ?thesis unfolding kernel_page_def using unat_page_offset [of b] that n by (simp add: unat_word_ariths del: of_nat_mult)
  qed
  show U: "unat (kernel_page km a) = unat (kernel_vbase km) + 4096 * a" by (rule u [OF a])
  show "unat (kernel_phys km + of_nat (4096 * a)) = unat (kernel_phys km) + 4096 * a"
    using i unat_page_offset [of a] a n by (simp add: image_ok_def unat_word_ariths del: of_nat_mult)
  show "kernel_page km n = kernel_vend km" using u [of n] v by (simp add: word_unat_eq_iff)
  show "kernel_page km a < kernel_vend km" if "a < n" using that U v by (simp add: word_less_nat_alt)
  show "pt_idx (kernel_page km a) 0 = a" if "a < n"
  proof -
    obtain q where "unat (kernel_vbase km) = 2 ^ 21 * q" using i by (auto simp: image_ok_def mod_0_imp_dvd elim: dvdE dest: mod_0_imp_dvd)
    then have "unat (kernel_page km a) div 4096 = 512 * q + a" using U by simp
    then show ?thesis using that n by (simp add: pt_idx_div)
  qed
qed

lemma nxt_aligned:
  assumes "unat (w :: u64) mod 4096 = 0" "unat w < 2 ^ 52"
  shows "nxt w = w"
proof (rule bit_eqI)
  fix k
  have a: "ADDR_MASK = mask 52 AND NOT (mask 12)" by (simp add: ADDR_MASK_def mask_eq_exp_minus_1)
  have "take_bit 12 w = 0" using assms(1) by (simp only: word_unat_eq_iff unsigned_take_bit_eq) (simp add: take_bit_eq_mod)
  moreover have "take_bit 52 w = w" using assms(2) by (simp only: word_unat_eq_iff unsigned_take_bit_eq) (simp add: take_bit_nat_eq_self)
  ultimately have "bit w k \<Longrightarrow> 12 \<le> k \<and> k < 52" by (metis bit_0_eq bit_take_bit_iff bot_apply bot_bool_def linorder_not_le)
  then show "bit (nxt w) k = bit w k" by (auto simp: nxt_def a bit_and_iff bit_not_iff bit_mask_iff dest: bit_imp_le_length)
qed

lemma kernel_leaf_has:
  assumes "image_ok km n" "a < n"
  shows "nxt (kernel_leaf km a) = kernel_phys km + of_nat (4096 * a)" "has PRESENT (kernel_leaf km a)" "\<not> has USER (kernel_leaf km a)"
    "(has WRITABLE (kernel_leaf km a), \<not> has NX (kernel_leaf km a)) = prot_wx (section_prot km (kernel_page km a))"
proof -
  let ?pa = "kernel_phys km + of_nat (4096 * a)"
  have u: "unat ?pa = unat (kernel_phys km) + 4096 * a" using image_arith(2) [OF assms(1)] assms(2) by simp
  have "unat ?pa mod 4096 = 0" using u assms(1) by (simp add: image_ok_def)
  moreover have "unat ?pa < 2 ^ 52" using u assms by (simp add: image_ok_def)
  ultimately have n: "nxt ?pa = ?pa" by (rule nxt_aligned)
  have f: "flag (leaf_bits p)" for p by (cases p) (simp_all add: pte)
  show "nxt (kernel_leaf km a) = ?pa" using n f by (simp add: kernel_leaf_def pte del: of_nat_mult)
  show "has PRESENT (kernel_leaf km a)" "\<not> has USER (kernel_leaf km a)" using n by (simp_all add: kernel_leaf_def pte del: of_nat_mult)
  show "(has WRITABLE (kernel_leaf km a), \<not> has NX (kernel_leaf km a)) = prot_wx (section_prot km (kernel_page km a))"
    using n by (cases "section_prot km (kernel_page km a)") (simp_all add: kernel_leaf_def pte del: of_nat_mult)
qed

lemma kernel_leaf_plain: "image_ok km n \<Longrightarrow> a < n \<Longrightarrow> plain_leaf (kernel_leaf km a)"
  using kernel_leaf_has(3,4) [of km n a] by (cases "section_prot km (kernel_page km a)") (auto simp: plain_leaf_def)

lemma map_kernel_loop_ok:
  assumes i: "image_ok km n" and b: "building U H r T m" and p: "tab_at (ptab m) 3 r p = Some pt" "indices p" "length p = 3" and a: "a \<le> n"
  shows "\<exists>m'. map_kernel_loop pt km (kernel_page km a) m = Some m' \<and> building U H r T m' \<and> same_regs m m'
    \<and> ptab m' = (ptab m)(pt := \<lambda>j. if a \<le> j \<and> j < n then kernel_leaf km j else ptab m pt j)"
  using b p(1) a
proof (induction "n - a" arbitrary: a m)
  case 0
  then have a: "a = n" by simp
  have "map_kernel_loop pt km (kernel_page km a) m = Some m" using image_arith(5) [OF i order_refl] a by (simp add: map_kernel_loop.simps)
  moreover have "ptab m = (ptab m)(pt := \<lambda>j. if a \<le> j \<and> j < n then kernel_leaf km j else ptab m pt j)" using a by (auto simp: fun_eq_iff)
  ultimately show ?case using 0 by (auto simp: same_regs_def)
next
  case (Suc d)
  then have a: "a < n" "a \<le> n" "Suc a \<le> n" "d = n - Suc a" by simp_all
  have n: "n \<le> 512" and ph: "unat (kernel_phys km) + 2 ^ 21 \<le> 2 ^ 52" using i by (auto simp: image_ok_def)
  have f: "frames_in U H m" and T: "\<forall>t\<in>T. (t, 0) \<in> H" "trees_ok (ptab m) {r} T" and pl: "plain (ptab m) r" using Suc.prems(1) by (auto simp: building_def)
  have pH: "(pt, 0) \<in> H" using trees_ok_table [OF T(2) _ p(2) Suc.prems(2)] T(1) by simp
  let ?m1 = "m\<lparr>ptab := (ptab m)(pt := (ptab m pt)(a := kernel_leaf km a))\<rparr>"
  have off: "kernel_page km a - kernel_vbase km = of_nat (4096 * a)" by (simp add: kernel_page_def)
  have c1: "checked_add (kernel_phys km) (kernel_page km a - kernel_vbase km) = Some (kernel_phys km + of_nat (4096 * a))"
    unfolding off checked_add_def using unat_page_offset [of a] a(1) n ph by (simp del: of_nat_mult)
  have nx: "kernel_page km (Suc a) = kernel_page km a + PAGE" by (simp add: kernel_page_def PAGE_def)
  have le: "unat (kernel_page km (Suc a)) = unat (kernel_page km a) + 4096" using image_arith(1) [OF i a(3)] image_arith(1) [OF i a(2)] by simp
  have c2: "checked_add (kernel_page km a) PAGE = Some (kernel_page km (Suc a))"
    unfolding nx checked_add_def using le unat_bound [of "kernel_page km (Suc a)"] by (simp add: PAGE_def)
  have w: "write_entry pt a (kernel_leaf km a) m = Some ?m1" by (rule write_frame(1) [OF f pH])
  have step: "map_kernel_loop pt km (kernel_page km a) m = map_kernel_loop pt km (kernel_page km (Suc a)) ?m1"
    using image_arith(3,4) [OF i a(2,1)] c1 c2 w by (subst map_kernel_loop.simps) (simp add: kernel_leaf_def del: of_nat_mult)
  have e: "edit_at (ptab m) {r} T p pt a (kernel_leaf km a) (ptab ?m1)"
    using T(2) Suc.prems(2) p(2) a(1) n by (auto simp: edit_at_def edited_def)
  have t1: "tab_at (ptab ?m1) 3 r p = Some pt" using leaf_step_tab [OF e p(3) _ p(2)] Suc.prems(2) by simp
  have b1: "building U H r T ?m1"
    using write_frame(3) [OF f pH] T(1) leaf_step_trees [OF e p(3)] plain_write [OF e p(3) kernel_leaf_plain [OF i a(1)] pl]
    unfolding building_def by simp
  obtain m' where m': "map_kernel_loop pt km (kernel_page km (Suc a)) ?m1 = Some m'" "building U H r T m'" "same_regs ?m1 m'"
    "ptab m' = (ptab ?m1)(pt := \<lambda>j. if Suc a \<le> j \<and> j < n then kernel_leaf km j else ptab ?m1 pt j)"
    using Suc.hyps(1) [OF a(4) b1 t1 a(3)] by blast
  have "ptab m' = (ptab m)(pt := \<lambda>j. if a \<le> j \<and> j < n then kernel_leaf km j else ptab m pt j)"
    unfolding m'(4) using a(1) by (auto simp: fun_eq_iff Suc_le_eq)
  then show ?case using step m'(1-3) by (auto simp: same_regs_def)
qed

definition image_region :: "tables \<Rightarrow> u64 \<Rightarrow> kernel_map \<Rightarrow> nat \<Rightarrow> u64 set \<Rightarrow> bool" where
  "image_region E r km n N \<longleftrightarrow> (\<exists>pdpt pd pt. N = {pdpt, pd, pt}
     \<and> E r (pt_idx (kernel_vbase km) 3) = pdpt OR PRESENT OR WRITABLE \<and> nxt pdpt = pdpt
     \<and> E pdpt = (\<lambda>_. 0)(pt_idx (kernel_vbase km) 2 := pd OR PRESENT OR WRITABLE) \<and> nxt pd = pd
     \<and> E pd = (\<lambda>_. 0)(pt_idx (kernel_vbase km) 1 := pt OR PRESENT OR WRITABLE) \<and> nxt pt = pt
     \<and> E pt = (\<lambda>j. if j < n then kernel_leaf km j else 0))"

lemma map_kernel_ok:
  assumes i: "image_ok km n" and b: "building U H r T m" and o: "\<not> descends 3 (ptab m r (pt_idx (kernel_vbase km) 3))"
  shows "map_kernel r km m = None \<and> card U < used H + 3
    \<or> (\<exists>N m'. map_kernel r km m = Some m' \<and> branch_added U H r T (pt_idx (kernel_vbase km) 3) m N 3 m' \<and> image_region (ptab m') r km n N)"
proof -
  let ?v = "kernel_vbase km" let ?k = "pt_idx ?v 3" let ?i = "pt_idx ?v 2" let ?j = "pt_idx ?v 1"
  have r0: "tab_at (ptab m) 3 r [] = Some r" "length [] \<le> 2" "indices []" "\<not> descends (3 - length []) (ptab m r ?k)" using o by simp_all
  have ix: "indices [?k]" "indices [?k, ?i]" "indices [?k, ?i, ?j]" "length [?k] \<le> 2" "length [?k, ?i] \<le> 2" "length [?k, ?i, ?j] = 3" by simp_all
  have fin: "finite H" using b frames_ok_count(1) by (auto simp: building_def frames_in_def)
  have rT: "r \<in> T" using trees_ok_table [of "ptab m" "{r}" T r "[]" r] b by (simp add: building_def)
  show ?thesis
  proof (rule link_zero_table [OF b r0(3,1) pt_idx_bound r0(2,4)])
    assume "alloc_table m = None" "card U = used H"
    then show ?thesis by (simp add: map_kernel_def)
  next
    fix pdpt a1 m1 assume x1: "alloc_table m = Some (pdpt, a1)" "write_entry r ?k (pdpt OR PRESENT OR WRITABLE) a1 = Some m1" "(pdpt, 0) \<notin> H" "nxt pdpt = pdpt" "pdpt \<notin> T" "pdpt \<noteq> r"
      "building U (insert (pdpt, 0) H) r (insert pdpt T) m1" "tab_at (ptab m1) 3 r ([] @ [?k]) = Some pdpt" "same_regs m m1"
      "ptab m1 = (ptab m)(pdpt := \<lambda>_. 0, r := (ptab m r)(?k := pdpt OR PRESENT OR WRITABLE))"
    have t1: "tab_at (ptab m1) 3 r [?k] = Some pdpt" "\<not> descends (3 - length [?k]) (ptab m1 pdpt ?i)" using x1(6,8,10) zero_leaf by simp_all
    show ?thesis
    proof (rule link_zero_table [OF x1(7) ix(1) t1(1) pt_idx_bound ix(4) t1(2)])
      assume "alloc_table m1 = None" "card U = used (insert (pdpt, 0) H)"
      then show ?thesis using x1(1-3) used_insert [OF fin x1(3)] by (simp add: map_kernel_def)
    next
      fix pd a2 m2 assume x2: "alloc_table m1 = Some (pd, a2)" "write_entry pdpt ?i (pd OR PRESENT OR WRITABLE) a2 = Some m2" "(pd, 0) \<notin> insert (pdpt, 0) H" "nxt pd = pd"
        "pd \<notin> insert pdpt T" "pd \<noteq> pdpt" "building U (insert (pd, 0) (insert (pdpt, 0) H)) r (insert pd (insert pdpt T)) m2"
        "tab_at (ptab m2) 3 r ([?k] @ [?i]) = Some pd" "same_regs m1 m2"
        "ptab m2 = (ptab m1)(pd := \<lambda>_. 0, pdpt := (ptab m1 pdpt)(?i := pd OR PRESENT OR WRITABLE))"
      have t2: "tab_at (ptab m2) 3 r [?k, ?i] = Some pd" "\<not> descends (3 - length [?k, ?i]) (ptab m2 pd ?j)" using x2(6,8,10) zero_leaf by simp_all
      show ?thesis
      proof (rule link_zero_table [OF x2(7) ix(2) t2(1) pt_idx_bound ix(5) t2(2)])
        assume "alloc_table m2 = None" "card U = used (insert (pd, 0) (insert (pdpt, 0) H))"
        then show ?thesis using x1(1-3) x2(1-3) used_insert [OF fin x1(3)] used_insert [OF _ x2(3)] fin by (simp add: map_kernel_def)
      next
        fix pt a3 m3 assume x3: "alloc_table m2 = Some (pt, a3)" "write_entry pd ?j (pt OR PRESENT OR WRITABLE) a3 = Some m3" "(pt, 0) \<notin> insert (pd, 0) (insert (pdpt, 0) H)" "nxt pt = pt"
          "pt \<notin> insert pd (insert pdpt T)" "pt \<noteq> pd" "building U (insert (pt, 0) (insert (pd, 0) (insert (pdpt, 0) H))) r (insert pt (insert pd (insert pdpt T))) m3"
          "tab_at (ptab m3) 3 r ([?k, ?i] @ [?j]) = Some pt" "same_regs m2 m3"
          "ptab m3 = (ptab m2)(pt := \<lambda>_. 0, pd := (ptab m2 pd)(?j := pt OR PRESENT OR WRITABLE))"
        have t3: "tab_at (ptab m3) 3 r [?k, ?i, ?j] = Some pt" using x3(8) by simp
        obtain m' where m': "map_kernel_loop pt km (kernel_page km 0) m3 = Some m'" "building U (insert (pt, 0) (insert (pd, 0) (insert (pdpt, 0) H))) r (insert pt (insert pd (insert pdpt T))) m'"
          "same_regs m3 m'" "ptab m' = (ptab m3)(pt := \<lambda>j. if 0 \<le> j \<and> j < n then kernel_leaf km j else ptab m3 pt j)"
          using map_kernel_loop_ok [OF i x3(7) t3 ix(3,6), of 0] by blast
        have ex: "map_kernel r km m = Some m'" using x1(1,2) x2(1,2) x3(1,2) m'(1) by (simp add: map_kernel_def kernel_page_def)
        let ?N = "{pdpt, pd, pt}"
        have s: "H \<union> ?N \<times> {0} = insert (pt, 0) (insert (pd, 0) (insert (pdpt, 0) H))" "T \<union> ?N = insert pt (insert pd (insert pdpt T))" by auto
        have u: "used (H \<union> ?N \<times> {0}) = used H + 3"
          unfolding s using used_insert [OF fin x1(3)] used_insert [OF _ x2(3)] used_insert [OF _ x3(3)] fin by simp
        have ne: "r \<noteq> pdpt" "r \<noteq> pd" "r \<noteq> pt" "pdpt \<noteq> pd" "pdpt \<noteq> pt" "pd \<noteq> pt" using rT x1(5) x2(5) x3(5) by auto
        have fr: "ptab m' t i = ptab m t i" if "t \<in> T" "(t, i) \<noteq> (r, ?k)" for t i
        proof -
          have "t \<noteq> pdpt" "t \<noteq> pd" "t \<noteq> pt" using that(1) x1(5) x2(5) x3(5) by auto
          then show ?thesis using that(2) by (auto simp: m'(4) x3(10) x2(10) x1(10))
        qed
        have "branch_added U H r T ?k m ?N 3 m'"
          using m'(2) u fr x1(3,9) x2(3,9) x3(3,9) m'(3) unfolding branch_added_def s by (auto simp: same_regs_def)
        moreover have "image_region (ptab m') r km n ?N"
          unfolding image_region_def using ne x1(4) x2(4) x3(4)
          by (intro exI [of _ pdpt] exI [of _ pd] exI [of _ pt]) (auto simp: m'(4) x3(10) x2(10) x1(10) fun_eq_iff)
        ultimately show ?thesis using ex by auto
      qed
    qed
  qed
qed

section \<open>The whole space\<close>

lemma region_cong:
  assumes "\<And>t i. t \<in> N \<Longrightarrow> E' t i = E t i" "E' r k = E r k"
  shows "low_region E r k n N \<Longrightarrow> low_region E' r k n N"
proof -
  assume "low_region E r k n N"
  then obtain pdpt pds where R: "N = insert pdpt (pds ` {..<n})" "E r k = pdpt OR PRESENT OR WRITABLE" "nxt pdpt = pdpt"
    "\<forall>g<n. E pdpt g = pds g OR PRESENT OR WRITABLE \<and> nxt (pds g) = pds g \<and> E (pds g) = low_table g" "\<forall>g\<ge>n. E pdpt g = 0"
    unfolding low_region_def by blast
  have "E' (pds g) = E (pds g)" if "g < n" for g using assms(1) R(1) that by (auto simp: fun_eq_iff)
  then show ?thesis unfolding low_region_def using R assms by (intro exI [of _ pdpt] exI [of _ pds]) auto
qed

text \<open>The layouts the kernel can be built for: \<open>G\<close> gibibytes, three distinct top-level entries.\<close>

definition km_ok :: "kernel_map \<Rightarrow> nat \<Rightarrow> bool" where
  "km_ok km n \<longleftrightarrow> image_ok km n \<and> 2 \<le> div_ceil (identity_bytes km) GIB \<and> div_ceil (identity_bytes km) GIB \<le> 512
     \<and> pt_idx (km_hhdm_offset km) 3 \<noteq> 0 \<and> pt_idx (kernel_vbase km) 3 \<noteq> 0
     \<and> pt_idx (kernel_vbase km) 3 \<noteq> pt_idx (km_hhdm_offset km) 3"

definition space_built :: "kernel_map \<Rightarrow> nat \<Rightarrow> tables \<Rightarrow> u64 \<Rightarrow> u64 set \<Rightarrow> bool" where
  "space_built km n E r T \<longleftrightarrow> r \<in> T
     \<and> (\<exists>N\<subseteq>T. low_region E r 0 (div_ceil (identity_bytes km) GIB) N)
     \<and> (\<exists>N\<subseteq>T. low_region E r (pt_idx (km_hhdm_offset km) 3) (div_ceil (identity_bytes km) GIB) N)
     \<and> (\<exists>N\<subseteq>T. image_region E r km n N)
     \<and> (\<forall>i. i \<notin> {0, pt_idx (km_hhdm_offset km) 3, pt_idx (kernel_vbase km) 3} \<longrightarrow> E r i = 0)"

lemma branch_addedD:
  assumes "branch_added U H r T k m N c m'"
  shows "building U (H \<union> N \<times> {0}) r (T \<union> N) m'" "N \<times> {0} \<inter> H = {}" "same_regs m m'" "used (H \<union> N \<times> {0}) = used H + c"
    "t \<in> T \<Longrightarrow> (t, i) \<noteq> (r, k) \<Longrightarrow> ptab m' t i = ptab m t i"
  using assms by (auto simp: branch_added_def)

lemma build_address_space_ok:
  assumes km: "km_ok km n" and f: "frames_in U H m"
  shows "build_address_space km m = None \<and> card U < used H + 6 + 2 * div_ceil (identity_bytes km) GIB
    \<or> (\<exists>r T m'. build_address_space km m = Some (\<lparr>primary = r, secondary = 0\<rparr>, m'\<lparr>KERNEL_PML4 := r\<rparr>)
        \<and> building U (H \<union> T \<times> {0}) r T m' \<and> T \<times> {0} \<inter> H = {} \<and> same_regs m m'
        \<and> used (H \<union> T \<times> {0}) = used H + 6 + 2 * div_ceil (identity_bytes km) GIB \<and> space_built km n (ptab m') r T)"
proof -
  let ?G = "div_ceil (identity_bytes km) GIB" let ?h = "pt_idx (km_hhdm_offset km) 3" let ?k = "pt_idx (kernel_vbase km) 3"
  have K: "image_ok km n" "?G \<le> 512" "?h \<noteq> 0" "?k \<noteq> 0" "?k \<noteq> ?h" using km by (auto simp: km_ok_def)
  have fin: "finite H" using f frames_ok_count(1) by (auto simp: frames_in_def)
  show ?thesis
  proof (rule alloc_build_cases [OF f])
    assume "alloc_table m = None" "card U = used H"
    then show ?thesis by (simp add: build_address_space_def)
  next
    fix r fr assume a: "alloc_table m = Some (r, m\<lparr>vframes := fr, ptab := (ptab m)(r := \<lambda>_. 0)\<rparr>)" "(r, 0) \<notin> H" "frame_addr r"
      and fi: "\<And>E. frames_in U (insert (r, 0) H) (m\<lparr>vframes := fr, ptab := E\<rparr>)"
    let ?m0 = "m\<lparr>vframes := fr, ptab := (ptab m)(r := \<lambda>_. 0)\<rparr>"
    have z: "ptab ?m0 r = (\<lambda>_. 0)" by simp
    have "tab_at (ptab ?m0) 3 r q = (if q = [] then Some r else None)" for q using zero_leaf by (cases q) simp_all
    then have b0: "building U (insert (r, 0) H) r {r} ?m0"
      using fi zero_leaf by (auto simp: building_def trees_ok_def plain_def has_0 split: if_splits)
    have k0: "(0::nat) < 512" "\<not> descends 3 (ptab ?m0 r 0)" using zero_leaf by simp_all
    have e0: "build_address_space km m = do { m \<leftarrow> map_low r 0 (identity_bytes km) ?m0; m \<leftarrow> map_low r ?h (identity_bytes km) m;
        m \<leftarrow> map_kernel r km m; Some (\<lparr>primary = r, secondary = 0\<rparr>, m\<lparr>KERNEL_PML4 := r\<rparr>) }"
      using a(1) by (simp add: build_address_space_def)
    from map_low_ok [OF b0 k0 K(2)] show ?thesis
    proof (elim disjE exE conjE)
      fix N1 m1 assume m1: "map_low r 0 (identity_bytes km) ?m0 = Some m1" and B1: "branch_added U (insert (r, 0) H) r {r} 0 ?m0 N1 (Suc ?G) m1" and R1: "low_region (ptab m1) r 0 ?G N1"
      note b1 = branch_addedD [OF B1]
      have o1: "\<not> descends 3 (ptab m1 r ?h)" using b1(5) [of r ?h] K(3) zero_leaf by simp
      from map_low_ok [OF b1(1) pt_idx_bound o1 K(2)] show ?thesis
      proof (elim disjE exE conjE)
        fix N2 m2 assume m2: "map_low r ?h (identity_bytes km) m1 = Some m2" and B2: "branch_added U (insert (r, 0) H \<union> N1 \<times> {0}) r ({r} \<union> N1) ?h m1 N2 (Suc ?G) m2"
          and R2: "low_region (ptab m2) r ?h ?G N2"
        note b2 = branch_addedD [OF B2]
        have o2: "\<not> descends 3 (ptab m2 r ?k)" using b1(5) [of r ?k] b2(5) [of r ?k] K(4,5) zero_leaf by simp
        from map_kernel_ok [OF K(1) b2(1) o2] show ?thesis
        proof (elim disjE exE conjE)
          fix N3 m3 assume m3: "map_kernel r km m2 = Some m3" and B3: "branch_added U (insert (r, 0) H \<union> N1 \<times> {0} \<union> N2 \<times> {0}) r ({r} \<union> N1 \<union> N2) ?k m2 N3 3 m3"
            and R3: "image_region (ptab m3) r km n N3"
          note b3 = branch_addedD [OF B3]
          let ?T = "{r} \<union> N1 \<union> N2 \<union> N3"
          have s: "H \<union> ?T \<times> {0} = insert (r, 0) H \<union> N1 \<times> {0} \<union> N2 \<times> {0} \<union> N3 \<times> {0}" by auto
          have ne: "r \<notin> N1" "r \<notin> N2" using b1(2) b2(2) by auto
          have u: "used (H \<union> ?T \<times> {0}) = used H + 6 + 2 * ?G" unfolding s using b3(4) b2(4) b1(4) used_insert [OF fin a(2)] by simp
          have R1': "low_region (ptab m3) r 0 ?G N1"
          proof (rule region_cong [OF _ _ R1])
            show "ptab m3 t i = ptab m1 t i" if "t \<in> N1" for t i
            proof -
              have "t \<noteq> r" using that ne by auto
              then show ?thesis using that b3(5) [of t i] b2(5) [of t i] by simp
            qed
            show "ptab m3 r 0 = ptab m1 r 0" using b3(5) [of r 0] b2(5) [of r 0] K(3,4) by auto
          qed
          have R2': "low_region (ptab m3) r ?h ?G N2"
          proof (rule region_cong [OF _ _ R2])
            show "ptab m3 t i = ptab m2 t i" if "t \<in> N2" for t i
            proof -
              have "t \<noteq> r" using that ne by auto
              then show ?thesis using that b3(5) [of t i] by simp
            qed
            show "ptab m3 r ?h = ptab m2 r ?h" using b3(5) [of r ?h] K(5) by auto
          qed
          have "ptab m3 r i = 0" if "i \<notin> {0, ?h, ?k}" for i
            using that b3(5) [of r i] b2(5) [of r i] b1(5) [of r i] by simp
          then have "space_built km n (ptab m3) r ?T" unfolding space_built_def using R1' R2' R3 by blast
          moreover have "building U (H \<union> ?T \<times> {0}) r ?T m3" using b3(1) unfolding s .
          moreover have "?T \<times> {0} \<inter> H = {}" using a(2) b1(2) b2(2) b3(2) by auto
          moreover have "same_regs m m3" using b1(3) b2(3) b3(3) by (simp add: same_regs_def)
          moreover have "build_address_space km m = Some (\<lparr>primary = r, secondary = 0\<rparr>, m3\<lparr>KERNEL_PML4 := r\<rparr>)" using e0 m1 m2 m3 by simp
          ultimately show ?thesis using u by blast
        qed (use e0 m1 m2 b2(4) b1(4) used_insert [OF fin a(2)] in simp)
      qed (use e0 m1 b1(4) used_insert [OF fin a(2)] in simp)
    qed (use e0 used_insert [OF fin a(2)] in simp)
  qed
qed

section \<open>The translation it gives\<close>

lemma link_entry: "nxt t = t \<Longrightarrow> has PRESENT (t OR PRESENT OR WRITABLE) \<and> \<not> has USER (t OR PRESENT OR WRITABLE)
    \<and> \<not> has HUGE (t OR PRESENT OR WRITABLE) \<and> nxt (t OR PRESENT OR WRITABLE) = t"
  by (auto simp: pte)

lemma low_region_hw:
  assumes R: "low_region E r k n N" and j: "j < 512"
  shows "hw E r [k, g, j, i] = (if g < n then Some (low_leaf g j, 1, False) else None)"
proof -
  obtain pdpt pds where R: "E r k = pdpt OR PRESENT OR WRITABLE" "nxt pdpt = pdpt" "\<forall>g\<ge>n. E pdpt g = 0"
    "\<forall>g<n. E pdpt g = pds g OR PRESENT OR WRITABLE \<and> nxt (pds g) = pds g \<and> E (pds g) = low_table g"
    using R unfolding low_region_def by blast
  show ?thesis
  proof (cases "g < n")
    case True
    have e: "E (pds g) j = low_leaf g j" using R(4) True j by (simp add: low_table_def)
    show ?thesis using R(1,4) link_entry [OF R(2)] link_entry [of "pds g"] True low_leaf_has e by (simp add: descends_def)
  next
    case False
    then show ?thesis using R(1,3) link_entry [OF R(2)] by (simp add: descends_def pte)
  qed
qed

lemma image_region_hw:
  assumes R: "image_region E r km n N" and i: "image_ok km n"
  shows "hw E r [pt_idx (kernel_vbase km) 3, a, b, c] =
    (if a = pt_idx (kernel_vbase km) 2 \<and> b = pt_idx (kernel_vbase km) 1 \<and> c < n then Some (kernel_leaf km c, 0, False) else None)"
proof -
  let ?v = "kernel_vbase km"
  obtain pdpt pd pt where R: "E r (pt_idx ?v 3) = pdpt OR PRESENT OR WRITABLE" "nxt pdpt = pdpt" "E pdpt = (\<lambda>_. 0)(pt_idx ?v 2 := pd OR PRESENT OR WRITABLE)"
    "nxt pd = pd" "E pd = (\<lambda>_. 0)(pt_idx ?v 1 := pt OR PRESENT OR WRITABLE)" "nxt pt = pt" "E pt = (\<lambda>j. if j < n then kernel_leaf km j else 0)"
    using R unfolding image_region_def by blast
  show ?thesis
    using link_entry [OF R(2)] link_entry [OF R(4)] link_entry [OF R(6)] kernel_leaf_has(2,3) [OF i, of c] by (auto simp: R(1,3,5,7) descends_def pte)
qed

lemma space_hw:
  assumes B: "space_built km n E r T" and K: "km_ok km n"
  shows "hw E r (path va) =
    (if (pt_idx va 3 = 0 \<or> pt_idx va 3 = pt_idx (km_hhdm_offset km) 3) \<and> pt_idx va 2 < div_ceil (identity_bytes km) GIB
     then Some (low_leaf (pt_idx va 2) (pt_idx va 1), 1, False)
     else if pt_idx va 3 = pt_idx (kernel_vbase km) 3 \<and> pt_idx va 2 = pt_idx (kernel_vbase km) 2 \<and> pt_idx va 1 = pt_idx (kernel_vbase km) 1 \<and> pt_idx va 0 < n
     then Some (kernel_leaf km (pt_idx va 0), 0, False) else None)"
proof -
  let ?G = "div_ceil (identity_bytes km) GIB" let ?h = "pt_idx (km_hhdm_offset km) 3" let ?k = "pt_idx (kernel_vbase km) 3"
  have K: "image_ok km n" "?h \<noteq> 0" "?k \<noteq> 0" "?k \<noteq> ?h" using K by (auto simp: km_ok_def)
  obtain N1 N2 N3 where R: "low_region E r 0 ?G N1" "low_region E r ?h ?G N2" "image_region E r km n N3"
    and z: "\<And>i. i \<notin> {0, ?h, ?k} \<Longrightarrow> E r i = 0" using B by (auto simp: space_built_def)
  consider "pt_idx va 3 = 0" | "pt_idx va 3 = ?h" | "pt_idx va 3 = ?k" | "pt_idx va 3 \<notin> {0, ?h, ?k}" by auto
  then show ?thesis
  proof cases
    case 1
    then show ?thesis using low_region_hw [OF R(1) pt_idx_bound, of _ va 1] K(2-4) by (simp add: path_def del: hw.simps)
  next
    case 2
    then show ?thesis using low_region_hw [OF R(2) pt_idx_bound, of _ va 1] K(2-4) by (simp add: path_def del: hw.simps)
  next
    case 3
    then show ?thesis using image_region_hw [OF R(3) K(1)] K(2-4) by (simp add: path_def del: hw.simps)
  next
    case 4
    then show ?thesis using z [OF 4] by (simp add: path_def pte)
  qed
qed

lemma low_leaf_address: "(nxt (low_leaf (pt_idx va 2) (pt_idx va 1)) AND NOT (mask 21)) + (va AND mask 21) = take_bit 39 va"
proof -
  define P where "P = (push_bit 30 (of_nat (pt_idx va 2)) OR push_bit 21 (of_nat (pt_idx va 1)) :: u64)"
  have p: "bit P k \<longleftrightarrow> bit va k \<and> 21 \<le> k \<and> k < 39" for k
    unfolding P_def of_nat_pt_idx by (auto simp: bit_or_iff bit_push_bit_iff bit_take_bit_iff bit_drop_bit_eq dest: bit_imp_le_length)
  have a: "ADDR_MASK = mask 52 AND NOT (mask 12)" by (simp add: ADDR_MASK_def mask_eq_exp_minus_1)
  have "nxt P = P" by (rule bit_eqI) (auto simp: nxt_def a bit_and_iff bit_not_iff bit_mask_iff p dest: bit_imp_le_length)
  then have n: "nxt (low_leaf (pt_idx va 2) (pt_idx va 1)) = P" unfolding low_leaf_def P_def [symmetric] by (simp add: pte)
  have "(P AND NOT (mask 21)) AND (va AND mask 21) = 0" by (rule bit_eqI) (auto simp: bit_and_iff bit_not_iff bit_mask_iff)
  then have "(P AND NOT (mask 21)) + (va AND mask 21) = (P AND NOT (mask 21)) OR (va AND mask 21)" by (rule disjunctive_add_eq_or)
  also have "\<dots> = take_bit 39 va"
    by (rule bit_eqI) (auto simp: bit_or_iff bit_and_iff bit_not_iff bit_mask_iff bit_take_bit_iff p dest: bit_imp_le_length)
  finally show ?thesis unfolding n .
qed

text \<open>Addresses in the two halves the processor accepts, and layouts in the upper half.\<close>

definition canonical :: "u64 \<Rightarrow> bool" where
  "canonical va \<longleftrightarrow> unat va < 2 ^ 47 \<or> 2 ^ 64 - 2 ^ 47 \<le> unat va"

definition layout_ok :: "kernel_map \<Rightarrow> nat \<Rightarrow> bool" where
  "layout_ok km n \<longleftrightarrow> km_ok km n \<and> unat (km_hhdm_offset km) mod 2 ^ 39 = 0 \<and> 2 ^ 64 - 2 ^ 47 \<le> unat (km_hhdm_offset km)
     \<and> 2 ^ 64 - 2 ^ 47 \<le> unat (kernel_vbase km)"

lemma div_512: "x div a = y div a \<longleftrightarrow> x div (a * 512) = y div (a * 512) \<and> x div a mod 512 = y div a mod 512" for x y a :: nat
proof -
  have "z div a = 512 * (z div (a * 512)) + z div a mod 512" for z by (simp add: div_mult2_eq)
  then show ?thesis by (metis div_mult2_eq)
qed

lemma div_block: "0 < D \<Longrightarrow> x div D = q \<longleftrightarrow> D * q \<le> x \<and> x < D * q + D" for x D q :: nat
  using dividend_less_times_div [of D x] by (auto intro!: div_nat_eqI simp: add.commute)

lemma mod_block: "D * q \<le> x \<Longrightarrow> x < D * q + D \<Longrightarrow> x mod D = x - D * q" for x D q :: nat
proof -
  assume x: "D * q \<le> x" "x < D * q + D"
  then have "x div D = q" by (intro div_nat_eqI) simp_all
  then show ?thesis by (simp add: minus_mult_div_eq_mod [symmetric])
qed

lemma div_mod_swap: "x div a mod b = x mod (a * b) div a" for x a b :: nat
  by (cases "a = 0") (simp_all add: mod_mult2_eq)

lemma canonical_top: "canonical va \<Longrightarrow> unat va div 2 ^ 39 < 256 \<or> (\<exists>a. 256 \<le> a \<and> a < 512 \<and> unat va div 2 ^ 39 = 512 * 65535 + a)"
proof -
  assume "canonical va"
  then consider "unat va < 256 * 2 ^ 39" | "(512 * 65535 + 256) * 2 ^ 39 \<le> unat va" by (auto simp: canonical_def)
  then show ?thesis
  proof cases
    case 1
    then show ?thesis by (simp only: div_less_iff_less_mult simp_thms)
  next
    case 2
    then have "512 * 65535 + 256 \<le> unat va div 2 ^ 39" using less_eq_div_iff_mult_less_eq [of "2 ^ 39" "512 * 65535 + 256" "unat va"] by simp
    moreover have "unat va < (512 * 65536) * 2 ^ 39" using unat_bound [of va] by simp
    then have "unat va div 2 ^ 39 < 512 * 65536" by (simp only: div_less_iff_less_mult)
    moreover have "\<exists>a. 256 \<le> a \<and> a < 512 \<and> x = 512 * 65535 + a" if "512 * 65535 + 256 \<le> x" "x < 512 * 65536" for x :: nat
      using that by (intro exI [of _ "x - 512 * 65535"]) auto
    ultimately show ?thesis by blast
  qed
qed

lemma same_top: "canonical va \<Longrightarrow> canonical w \<Longrightarrow> pt_idx va 3 = pt_idx w 3 \<longleftrightarrow> unat va div 2 ^ 39 = unat w div 2 ^ 39"
  (is "_ \<Longrightarrow> _ \<Longrightarrow> ?thesis")
proof -
  have m: "(33553920 + a) mod 512 = a" if "a < 512" for a :: nat using that mod_mult_self4 [of 512 65535 a] by simp
  show "canonical va \<Longrightarrow> canonical w \<Longrightarrow> ?thesis" using canonical_top [of va] canonical_top [of w] by (auto simp: pt_idx_div m)
qed

lemma same_region:
  assumes c: "canonical va" "canonical w"
  shows "pt_idx va 3 = pt_idx w 3 \<and> pt_idx va 2 = pt_idx w 2 \<and> pt_idx va 1 = pt_idx w 1 \<longleftrightarrow> unat va div 2 ^ 21 = unat w div 2 ^ 21"
  unfolding same_top [OF c] using div_512 [of "unat va" "2 ^ 21" "unat w"] div_512 [of "unat va" "2 ^ 30" "unat w"] by (simp add: pt_idx_div)

lemma low_range:
  assumes c: "canonical va" "canonical w" and w: "unat w mod 2 ^ 39 = 0" and G: "G \<le> 512"
  shows "pt_idx va 3 = pt_idx w 3 \<and> pt_idx va 2 < G \<longleftrightarrow> unat w \<le> unat va \<and> unat va < unat w + G * 2 ^ 30"
proof -
  obtain q where q: "unat w = 2 ^ 39 * q" using w by (metis mod_0_imp_dvd dvdE)
  have lt: "unat va < unat w + G * 2 ^ 30 \<Longrightarrow> unat va < unat w + 2 ^ 39" using G by simp
  have i: "pt_idx va 2 = unat va mod 2 ^ 39 div 2 ^ 30" unfolding pt_idx_div div_mod_swap by simp
  have "pt_idx va 3 = pt_idx w 3 \<longleftrightarrow> unat w \<le> unat va \<and> unat va < unat w + 2 ^ 39"
    unfolding same_top [OF c] q using div_block [of "2 ^ 39" "unat va" q] by simp
  moreover have "unat va mod 2 ^ 39 = unat va - unat w" if "unat w \<le> unat va" "unat va < unat w + 2 ^ 39"
    using that unfolding q by (rule mod_block)
  moreover have "(unat va - unat w) div 2 ^ 30 < G \<longleftrightarrow> unat va - unat w < G * 2 ^ 30" by (simp add: div_less_iff_less_mult)
  ultimately show ?thesis using lt i by auto
qed

lemma image_range:
  assumes c: "canonical va" "canonical (kernel_vbase km)" and i: "image_ok km n"
  shows "pt_idx va 3 = pt_idx (kernel_vbase km) 3 \<and> pt_idx va 2 = pt_idx (kernel_vbase km) 2 \<and> pt_idx va 1 = pt_idx (kernel_vbase km) 1 \<and> pt_idx va 0 < n
    \<longleftrightarrow> kernel_vbase km \<le> va \<and> va < kernel_vend km"
proof -
  let ?b = "unat (kernel_vbase km)"
  obtain q where q: "?b = 2 ^ 21 * q" using i unfolding image_ok_def by (metis mod_0_imp_dvd dvdE)
  have n: "n \<le> 512" "unat (kernel_vend km) = ?b + 4096 * n" using i by (auto simp: image_ok_def)
  have d: "unat va div 2 ^ 21 = ?b div 2 ^ 21 \<longleftrightarrow> ?b \<le> unat va \<and> unat va < ?b + 2 ^ 21" unfolding q using div_block [of "2 ^ 21" "unat va" q] by simp
  have z: "pt_idx va 0 = (unat va - ?b) div 4096" if "?b \<le> unat va" "unat va < ?b + 2 ^ 21"
    using mod_block [OF that [unfolded q]] unfolding q pt_idx_div div_mod_swap by simp
  have "(unat va - ?b) div 4096 < n \<longleftrightarrow> unat va - ?b < n * 4096" by (simp add: div_less_iff_less_mult)
  then have "unat va div 2 ^ 21 = ?b div 2 ^ 21 \<and> pt_idx va 0 < n \<longleftrightarrow> ?b \<le> unat va \<and> unat va < ?b + 4096 * n"
    unfolding d using z n(1) by auto
  then show ?thesis using same_region [OF c] by (auto simp: word_le_nat_alt word_less_nat_alt n(2))
qed

text \<open>The promised translation: physical address, writable, executable, reachable from user mode.\<close>

definition boot_map :: "kernel_map \<Rightarrow> u64 \<Rightarrow> (u64 \<times> bool \<times> bool \<times> bool) option" where
  "boot_map km va = (let bytes = div_ceil (identity_bytes km) GIB * 2 ^ 30 in
     if unat va < bytes then Some (va, True, False, False)
     else if unat (km_hhdm_offset km) \<le> unat va \<and> unat va < unat (km_hhdm_offset km) + bytes then Some (va - km_hhdm_offset km, True, False, False)
     else if kernel_vbase km \<le> va \<and> va < kernel_vend km
     then (case prot_wx (section_prot km (page_of va)) of (w, x) \<Rightarrow> Some (kernel_phys km + (va - kernel_vbase km), w, x, False))
     else None)"

lemma take_39: "unat w mod 2 ^ 39 = 0 \<Longrightarrow> unat w \<le> unat va \<Longrightarrow> unat va < unat w + 2 ^ 39 \<Longrightarrow> take_bit 39 va = va - w" for w va :: u64
proof -
  assume w: "unat w mod 2 ^ 39 = 0" "unat w \<le> unat va" "unat va < unat w + 2 ^ 39"
  obtain q where q: "unat w = 2 ^ 39 * q" using w(1) by (metis mod_0_imp_dvd dvdE)
  have "unat (take_bit 39 va) = unat va mod 2 ^ 39" by (simp only: unsigned_take_bit_eq) (simp add: take_bit_eq_mod)
  also have "\<dots> = unat va - unat w" using w(2,3) unfolding q by (rule mod_block)
  also have "\<dots> = unat (va - w)" using w(2) by (simp add: unat_sub_le word_le_nat_alt)
  finally show ?thesis by (simp add: word_unat_eq_iff)
qed

lemma split_low: "(va AND NOT (mask k)) + (va AND mask k) = va" for va :: u64
proof -
  have "(va AND NOT (mask k)) AND (va AND mask k) = 0" by (rule bit_eqI) (simp add: bit_and_iff bit_not_iff)
  then have "(va AND NOT (mask k)) + (va AND mask k) = (va AND NOT (mask k)) OR (va AND mask k)" by (rule disjunctive_add_eq_or)
  also have "\<dots> = va" by (rule bit_eqI) (auto simp: bit_or_iff bit_and_iff bit_not_iff dest: bit_imp_le_length)
  finally show ?thesis .
qed

lemma nxt_high: "nxt w = w \<Longrightarrow> w AND NOT (mask 12) = w"
proof -
  assume w: "nxt w = w"
  have a: "ADDR_MASK = mask 52 AND NOT (mask 12)" by (simp add: ADDR_MASK_def mask_eq_exp_minus_1)
  have "(w AND mask 52 AND NOT (mask 12)) AND NOT (mask 12) = w AND mask 52 AND NOT (mask 12)" by (rule bit_eqI) (auto simp: bit_and_iff)
  then show ?thesis using w unfolding nxt_def a by simp
qed

lemma image_page:
  assumes i: "image_ok km n" and v: "kernel_vbase km \<le> va" "va < kernel_vend km"
  shows "kernel_page km (pt_idx va 0) = page_of va" "pt_idx va 0 < n"
    "((kernel_phys km + of_nat (4096 * pt_idx va 0)) AND NOT (mask 12)) + (va AND mask 12) = kernel_phys km + (va - kernel_vbase km)"
proof -
  let ?b = "unat (kernel_vbase km)" let ?o = "unat va - ?b" let ?a = "pt_idx va 0"
  obtain q where q: "?b = 2 ^ 21 * q" using i unfolding image_ok_def by (metis mod_0_imp_dvd dvdE)
  have n: "n \<le> 512" "unat (kernel_vend km) = ?b + 4096 * n" using i by (auto simp: image_ok_def)
  have o: "?b \<le> unat va" "unat va < ?b + 4096 * n" using v n(2) by (auto simp: word_le_nat_alt word_less_nat_alt)
  then have r: "unat va < ?b + 2 ^ 21" using n(1) by simp
  have a: "?a = ?o div 4096" using mod_block [OF o(1) [unfolded q] r [unfolded q]] unfolding q pt_idx_div div_mod_swap by simp
  then show an: "?a < n" using o by (simp add: div_less_iff_less_mult)
  have inv_unat: "of_nat (unat x) = x" for x :: u64 by simp
  have m12: "(mask 12 :: u64) = 0xfff" by (simp add: mask_eq_exp_minus_1)
  have dm: "4096 * ?a + ?o mod 4096 = ?o" unfolding a by (rule mult_div_mod_eq)
  have vo: "unat va mod 4096 = ?o mod 4096"
  proof -
    have "unat va = ?o + 4096 * (512 * q)" using o(1) unfolding q by simp
    then show ?thesis by (metis mod_mult_self2)
  qed
  have low: "va AND mask 12 = of_nat (?o mod 4096)"
  proof -
    have "unat (va AND mask 12) = unat va mod 4096"
      unfolding take_bit_eq_mask [symmetric] by (simp only: unsigned_take_bit_eq) (simp add: take_bit_eq_mod)
    then show ?thesis unfolding vo [symmetric] by (metis inv_unat)
  qed
  have d: "va - kernel_vbase km = of_nat ?o" using o(1) v(1) by (metis unat_sub_le inv_unat)
  have sum: "of_nat (4096 * ?a) + of_nat (?o mod 4096) = (of_nat ?o :: u64)" by (simp only: of_nat_add [symmetric] dm)
  have pg: "page_of va = va - of_nat (?o mod 4096)"
    using split_low [of va 12] unfolding low [symmetric] page_of_def m12 by (metis add_diff_cancel_right')
  have "of_nat (4096 * ?a) = (va - kernel_vbase km) - of_nat (?o mod 4096)" unfolding d using sum by (metis add_diff_cancel_right')
  then show "kernel_page km ?a = page_of va" unfolding kernel_page_def pg by (simp del: of_nat_mult)
  have "nxt (kernel_phys km + of_nat (4096 * ?a)) = kernel_phys km + of_nat (4096 * ?a)"
    using image_arith(2) [OF i, of ?a] an i n(1) by (intro nxt_aligned) (auto simp: image_ok_def simp del: of_nat_mult)
  then have "(kernel_phys km + of_nat (4096 * ?a)) AND NOT (mask 12) = kernel_phys km + of_nat (4096 * ?a)" by (rule nxt_high)
  then show "((kernel_phys km + of_nat (4096 * ?a)) AND NOT (mask 12)) + (va AND mask 12) = kernel_phys km + (va - kernel_vbase km)"
    unfolding low d by (simp only: add.assoc sum)
qed

lemma boot_view:
  assumes B: "space_built km n E r T" and L: "layout_ok km n" and c: "canonical va"
  shows "mapping E r va = boot_map km va"
proof -
  let ?G = "div_ceil (identity_bytes km) GIB" let ?h = "km_hhdm_offset km"
  have K: "km_ok km n" "image_ok km n" "?G \<le> 512" and h: "unat ?h mod 2 ^ 39 = 0" and cc: "canonical ?h" "canonical (kernel_vbase km)" "canonical 0"
    using L by (auto simp: layout_ok_def km_ok_def canonical_def)
  have z: "pt_idx 0 3 = 0" "unat (0 :: u64) mod 2 ^ 39 = 0" by (simp_all add: pt_idx_def)
  note r0 = low_range [OF c cc(3) z(2) K(3), unfolded z(1)] and rh = low_range [OF c cc(1) h K(3)] and ri = image_range [OF c cc(2) K(2)]
  have lt: "unat va < unat w + ?G * 2 ^ 30 \<Longrightarrow> unat va < unat w + 2 ^ 39" for w :: u64 using K(3) by simp
  have t0: "take_bit 39 va = va" if "unat va < ?G * 2 ^ 30" using take_39 [OF z(2), of va] lt [of 0] that by simp
  have th: "take_bit 39 va = va - ?h" if "unat ?h \<le> unat va" "unat va < unat ?h + ?G * 2 ^ 30" using take_39 [OF h that(1)] lt [OF that(2)] by simp
  show ?thesis
  proof (cases "(pt_idx va 3 = 0 \<or> pt_idx va 3 = pt_idx ?h 3) \<and> pt_idx va 2 < ?G")
    case True
    have nz: "\<not> unat va < ?G * 2 ^ 30" if "unat ?h \<le> unat va" using that L K(3) by (simp add: layout_ok_def)
    have "mapping E r va = Some (take_bit 39 va, True, False, False)"
      unfolding mapping_def space_hw [OF B K(1)] using True low_leaf_has low_leaf_address by simp
    moreover have "unat va < ?G * 2 ^ 30 \<or> unat ?h \<le> unat va \<and> unat va < unat ?h + ?G * 2 ^ 30" using True r0 rh by auto
    ultimately show ?thesis unfolding boot_map_def Let_def using t0 th nz by auto
  next
    case False
    then have no: "\<not> unat va < ?G * 2 ^ 30" "\<not> (unat ?h \<le> unat va \<and> unat va < unat ?h + ?G * 2 ^ 30)" using r0 rh by auto
    show ?thesis
    proof (cases "kernel_vbase km \<le> va \<and> va < kernel_vend km")
      case True
      then have v: "kernel_vbase km \<le> va" "va < kernel_vend km" by simp_all
      note ip = image_page [OF K(2) v]
      have "hw E r (path va) = Some (kernel_leaf km (pt_idx va 0), 0, False)"
        unfolding space_hw [OF B K(1)] if_not_P [OF False] using ri True by simp
      then have "mapping E r va = Some (kernel_phys km + (va - kernel_vbase km), has WRITABLE (kernel_leaf km (pt_idx va 0)), \<not> has NX (kernel_leaf km (pt_idx va 0)), False)"
        unfolding mapping_def using kernel_leaf_has(1) [OF K(2) ip(2)] ip(3) by (simp del: of_nat_mult)
      then show ?thesis unfolding boot_map_def Let_def using no True kernel_leaf_has(4) [OF K(2) ip(2)] ip(1) by (auto split: prod.splits)
    next
      case out: False
      have "hw E r (path va) = None" unfolding space_hw [OF B K(1)] if_not_P [OF False] using ri out by auto
      then show ?thesis unfolding boot_map_def Let_def mapping_def using no out by auto
    qed
  qed
qed

section \<open>Activation and the self-check\<close>

lemma built_vm_ok:
  assumes b: "building U H r T m" and s: "space_built km n (ptab m) r T" and G: "2 \<le> div_ceil (identity_bytes km) GIB"
  shows "vm_ok U {r} T H (activate_address_space \<lparr>primary = r, secondary = 0\<rparr> (m\<lparr>KERNEL_PML4 := r\<rparr>))" "split_at (ptab m) r = {}"
proof -
  obtain N where R: "low_region (ptab m) r 0 (div_ceil (identity_bytes km) GIB) N" using s by (auto simp: space_built_def)
  obtain pdpt pds where P: "ptab m r 0 = pdpt OR PRESENT OR WRITABLE" "nxt pdpt = pdpt"
    "\<forall>g<div_ceil (identity_bytes km) GIB. ptab m pdpt g = pds g OR PRESENT OR WRITABLE \<and> nxt (pds g) = pds g \<and> ptab m (pds g) = low_table g" using R unfolding low_region_def by blast
  have "pd1 (ptab m) r = pds 1" using P link_entry [OF P(2)] link_entry [of "pds 1"] G by (simp add: pd1_def pd2_def)
  then show "split_at (ptab m) r = {}" using P(3) G low_table_leaf by (auto simp: split_at_def)
  have "tab_at (ptab m) 3 r [0, 1] = Some (pds 1)"
    using P link_entry [OF P(2)] link_entry [of "pds 1"] G by (simp add: descends_def)
  then show "vm_ok U {r} T H (activate_address_space \<lparr>primary = r, secondary = 0\<rparr> (m\<lparr>KERNEL_PML4 := r\<rparr>))"
    using b plain_users unfolding vm_ok_def building_def frames_in_def activate_address_space_def by (simp del: tab_at.simps)
qed

text \<open>What the linker script promises of the sections: page-aligned, non-empty code and data, inside the image, disjoint.\<close>

definition in_image :: "kernel_map \<Rightarrow> u64 \<Rightarrow> bool" where
  "in_image km v \<longleftrightarrow> page_of v = v \<and> kernel_vbase km \<le> v \<and> v < kernel_vend km"

definition sections_ok :: "kernel_map \<Rightarrow> bool" where
  "sections_ok km \<longleftrightarrow> in_image km (fst (km_text km)) \<and> fst (km_text km) < snd (km_text km)
     \<and> in_image km (fst (km_data km)) \<and> fst (km_data km) < snd (km_data km) \<and> \<not> in_range (km_text km) (fst (km_data km))
     \<and> (fst (km_rodata km) < snd (km_rodata km) \<longrightarrow> in_image km (fst (km_rodata km))
          \<and> \<not> in_range (km_text km) (fst (km_rodata km)) \<and> \<not> in_range (km_data km) (fst (km_rodata km)))"

definition space_view :: "kernel_map \<Rightarrow> vm \<Rightarrow> bool" where
  "space_view km m \<longleftrightarrow> (\<forall>va. canonical va \<longrightarrow> translate m va = Some (map_option fst (boot_map km va))
     \<and> page_prot m va = Some (map_option (\<lambda>(_, w, x, _). (w, x)) (boot_map km va)))"

lemma image_view:
  assumes L: "layout_ok km n" and v: "in_image km va" and m: "space_view km m"
  shows "page_prot m va = Some (Some (prot_wx (section_prot km va)))"
proof -
  let ?G = "div_ceil (identity_bytes km) GIB" let ?h = "km_hhdm_offset km"
  have V: "page_of va = va" "kernel_vbase km \<le> va" "va < kernel_vend km" using v by (auto simp: in_image_def)
  have K: "km_ok km n" "image_ok km n" "?G \<le> 512" "pt_idx (kernel_vbase km) 3 \<noteq> pt_idx ?h 3" and h: "unat ?h mod 2 ^ 39 = 0"
    and cc: "canonical ?h" "canonical (kernel_vbase km)"
    using L by (auto simp: layout_ok_def km_ok_def canonical_def)
  have up: "2 ^ 64 - 2 ^ 47 \<le> unat va" using L V(2) by (simp add: layout_ok_def word_le_nat_alt)
  then have c: "canonical va" by (simp add: canonical_def)
  have top: "pt_idx va 3 = pt_idx (kernel_vbase km) 3" using image_range [OF c cc(2) K(2)] V(2,3) by blast
  have "\<not> unat va < ?G * 2 ^ 30" using up K(3) by simp
  moreover have "\<not> (unat ?h \<le> unat va \<and> unat va < unat ?h + ?G * 2 ^ 30)" using low_range [OF c cc(1) h K(3)] top K(4) by auto
  ultimately have "boot_map km va = (case prot_wx (section_prot km (page_of va)) of (w, x) \<Rightarrow> Some (kernel_phys km + (va - kernel_vbase km), w, x, False))"
    unfolding boot_map_def Let_def using V by auto
  then show ?thesis using m c V(1) by (cases "prot_wx (section_prot km va)") (auto simp: space_view_def)
qed

lemma verify_wx_ok:
  assumes L: "layout_ok km n" and s: "sections_ok km" and m: "space_view km m"
  shows "verify_wx km m = Ok ()"
proof -
  note v = image_view [OF L _ m]
  have "section_prot km (fst (km_text km)) = Rx" "section_prot km (fst (km_data km)) = Rw"
    "fst (km_rodata km) < snd (km_rodata km) \<Longrightarrow> section_prot km (fst (km_rodata km)) = Ro"
    using s by (auto simp: sections_ok_def section_prot_def in_range_def)
  then show ?thesis using s v [of "fst (km_text km)"] v [of "fst (km_data km)"] v [of "fst (km_rodata km)"]
    by (auto simp: sections_ok_def verify_wx_def)
qed

text \<open>The machine as \<open>memory::init\<close> finds it: the frames of the memory map, and the boot loader's tables.\<close>

definition boot_vm :: "warden_boot_info \<Rightarrow> boot_memory \<Rightarrow> tables \<Rightarrow> u64 \<Rightarrow> vm" where
  "boot_vm bi bm E r = \<lparr>vframes = Some (bm_frames bm), vhhdm = hhdm_offset bi, ptab = E, cr3 = r, KERNEL_PML4 = 0, invlpgs = []\<rparr>"

definition layout_of :: "linker_symbols \<Rightarrow> u64 \<Rightarrow> u64 \<Rightarrow> u64 \<Rightarrow> kernel_map" where
  "layout_of L hhdm kphys vend = \<lparr>km_hhdm_offset = hhdm, identity_bytes = IDENTITY_BYTES, kernel_vbase = kernel_start L,
     kernel_vend = vend, kernel_phys = kphys, km_text = text_range L, km_rodata = rodata_range L, km_data = data_range L\<rparr>"

lemma boot_frames_in:
  assumes init: "mem_init region_at bi = Ok bm" and h: "unat (hhdm_offset bi) mod 2 ^ 39 = 0"
  obtains U where "frames_in U {} (boot_vm bi bm E r)" "card U + bm_desc_frames bm = bm_total_pages bm"
proof -
  obtain U where U: "frames_ok U (Some (bm_frames bm)) {}" "\<forall>p\<in>U. usable_frame region_at bi p" "card U + bm_desc_frames bm = bm_total_pages bm"
    using mem_init_cases(2) [OF init] by blast
  obtain q where q: "unat (hhdm_offset bi) = 2 ^ 39 * q" using h by (metis mod_0_imp_dvd dvdE)
  then have "q < 2 ^ 25" using unat_bound [of "hhdm_offset bi"] by simp
  then have "unat (hhdm_offset bi) + 2 ^ 33 \<le> 2 ^ 64" using q by simp
  then show ?thesis using U by (intro that [of U]) (auto simp: frames_in_def boot_vm_def usable_frame_def)
qed

lemma four_gib: "div_ceil IDENTITY_BYTES GIB = 4"
  by (simp add: div_ceil_def IDENTITY_BYTES_def GIB_def)

lemma setup_kernel_paging_cases:
  assumes f: "frames_in U H m" and t: "translate m (kernel_start L) = Some (Some kphys)" and v: "next_multiple_of (kernel_end L) PAGE_SIZE = Some vend"
    and lay: "layout_ok (layout_of L hhdm kphys vend) n" and sec: "sections_ok (layout_of L hhdm kphys vend)"
  shows "setup_kernel_paging L hhdm m = Panic \<and> card U < used H + 14
    \<or> (\<exists>r T m'. setup_kernel_paging L hhdm m = Ok (layout_of L hhdm kphys vend, m') \<and> vm_ok U {r} T (H \<union> T \<times> {0}) m' \<and> T \<times> {0} \<inter> H = {}
        \<and> used (H \<union> T \<times> {0}) = used H + 14 \<and> plain (ptab m') r \<and> split_at (ptab m') r = {} \<and> KERNEL_PML4 m' = r \<and> cr3 m' = r \<and> vhhdm m' = vhhdm m
        \<and> space_view (layout_of L hhdm kphys vend) m')"
proof -
  let ?km = "layout_of L hhdm kphys vend"
  have K: "km_ok ?km n" "image_ok ?km n" "2 \<le> div_ceil (identity_bytes ?km) GIB" using lay by (auto simp: layout_ok_def km_ok_def)
  have g: "div_ceil (identity_bytes ?km) GIB = 4" by (simp add: layout_of_def four_gib)
  have al: "kernel_vbase ?km mod 0x200000 = 0" and len: "checked_sub (kernel_vend ?km) (kernel_vbase ?km) = Some (kernel_vend ?km - kernel_vbase ?km)"
    "\<not> kernel_vend ?km - kernel_vbase ?km > 0x200000"
    using K(2) by (auto simp: image_ok_def checked_sub_def word_unat_eq_iff unat_mod word_less_nat_alt word_le_nat_alt unat_sub_le)
  have ex: "setup_kernel_paging L hhdm m = (case build_address_space ?km m of None \<Rightarrow> Panic
      | Some (space, m1) \<Rightarrow> let m2 = activate_address_space space m1 in obind (verify_wx ?km m2) (\<lambda>_. Ok (?km, m2)))"
    unfolding setup_kernel_paging_def t v using al len unfolding layout_of_def by (simp add: Let_def)
  from build_address_space_ok [OF K(1) f] show ?thesis
  proof (elim disjE exE conjE)
    assume "build_address_space ?km m = None" "card U < used H + 6 + 2 * div_ceil (identity_bytes ?km) GIB"
    then show ?thesis using ex g by simp
  next
    fix r T m1 assume b: "build_address_space ?km m = Some (\<lparr>primary = r, secondary = 0\<rparr>, m1\<lparr>KERNEL_PML4 := r\<rparr>)"
      and B: "building U (H \<union> T \<times> {0}) r T m1" "T \<times> {0} \<inter> H = {}" "same_regs m m1"
      "used (H \<union> T \<times> {0}) = used H + 6 + 2 * div_ceil (identity_bytes ?km) GIB" "space_built ?km n (ptab m1) r T"
    let ?m = "activate_address_space \<lparr>primary = r, secondary = 0\<rparr> (m1\<lparr>KERNEL_PML4 := r\<rparr>)"
    have ok: "vm_ok U {r} T (H \<union> T \<times> {0}) ?m" by (rule built_vm_ok(1) [OF B(1,5) K(3)])
    have sel: "ptab ?m = ptab m1" "cr3 ?m = r" "KERNEL_PML4 ?m = r" "vhhdm ?m = vhhdm m" using B(3) by (simp_all add: activate_address_space_def same_regs_def)
    have view: "space_view ?km ?m"
      unfolding space_view_def translate_mapping [OF ok] page_prot_mapping [OF ok] sel using boot_view [OF B(5) lay] by simp
    have "setup_kernel_paging L hhdm m = Ok (?km, ?m)" using ex b verify_wx_ok [OF lay sec view] by (simp add: Let_def obind_Ok)
    moreover have "plain (ptab ?m) r" using B(1) sel by (simp add: building_def)
    moreover have "split_at (ptab ?m) r = {}" using built_vm_ok(2) [OF B(1,5) K(3)] sel by simp
    ultimately show ?thesis using ok B(2,4) g sel view by (intro disjI2 exI [of _ r] exI [of _ T] exI [of _ ?m]) simp
  qed
qed


text \<open>A memory map of 32 frames, a boot loader that maps the image with one large page, and its linker symbols.\<close>

definition paging_map :: "u64 \<Rightarrow> mem_region" where
  "paging_map a = \<lparr>mr_base = 0x7000, mr_pages = 32, mr_kind = USABLE, mr_pad = 0\<rparr>"

definition paging_info :: warden_boot_info where
  "paging_info = demo_boot_info\<lparr>memmap := \<lparr>mm_regions = 0x2000, mm_count = 1\<rparr>, hhdm_offset := 0xffff800000000000\<rparr>"

definition paging_mem :: boot_memory where
  "paging_mem = \<lparr>bm_frames = \<lparr>fa_buddy = \<lparr>desc = (replicate 32 RESERVED)[1 := RESERVED\<lparr>fd_free := True\<rparr>, 2 := RESERVED\<lparr>fd_order := 1, fd_free := True\<rparr>,
       4 := RESERVED\<lparr>fd_order := 2, fd_free := True\<rparr>, 8 := RESERVED\<lparr>fd_order := 3, fd_free := True\<rparr>, 16 := RESERVED\<lparr>fd_order := 4, fd_free := True\<rparr>],
       heads = [1, 2, 4, 8, 16] @ replicate 14 NIL_FRAME, nframes = 32, bfree = 31\<rparr>, base_pfn = 7\<rparr>,
     bm_span = 32, bm_desc_start = 7, bm_desc_frames = 1, bm_total_pages = 32, bm_zeroed = [(0x7000, 384)]\<rparr>"

lemma paging_mem_init: "mem_init paging_map paging_info = Ok paging_mem"
proof -
  have d: "desc_frames 32 = 1" and z: "zero_range 0xffff800000000000 (pfn_to_phys 7) (desc_bytes 32) = Some (0x7000, 384)" by code_simp+
  have r: "release_ranges 7 7 1 (buddy_new (replicate 32 ZERO_DESC)) [(7, 39)] = Some (fa_buddy (bm_frames paging_mem))" by code_simp
  have "build_frames 0xffff800000000000 [(7, 39)] = Ok paging_mem"
    by (simp add: build_frames_def idx_def sub_w_def d z r paging_mem_def del: release_ranges.simps One_nat_def)
  moreover have "region_slice paging_map paging_info = Some [paging_map 0xffff800000002000]" by code_simp
  moreover have "collect_usable [] [paging_map 0xffff800000002000] = Inr [(7, 39)]" by code_simp
  ultimately show ?thesis by (simp add: mem_init_def paging_info_def demo_boot_info_def)
qed

definition loader_tables :: tables where
  "loader_tables t i = (if t = 0x1000 \<and> i = 511 then 0x2003 else if t = 0x2000 \<and> i = 510 then 0x3003 else if t = 0x3000 \<and> i = 0 then 0x200083 else 0)"

definition paging_symbols :: linker_symbols where
  "paging_symbols = \<lparr>kernel_start = 0xffffffff80000000, kernel_end = 0xffffffff80006800, text_range = (0xffffffff80000000, 0xffffffff80003000),
     rodata_range = (0xffffffff80003000, 0xffffffff80004000), data_range = (0xffffffff80004000, 0xffffffff80006800)\<rparr>"

abbreviation paging_layout :: kernel_map where
  "paging_layout \<equiv> layout_of paging_symbols 0xffff800000000000 0x200000 0xffffffff80007000"

lemma paging_demo:
  "translate (boot_vm paging_info paging_mem loader_tables 0x1000) (kernel_start paging_symbols) = Some (Some 0x200000)"
  "next_multiple_of (kernel_end paging_symbols) PAGE_SIZE = Some 0xffffffff80007000"
  "layout_ok paging_layout 7" "sections_ok paging_layout" "hhdm_offset paging_info = 0xffff800000000000"
  by code_simp+


end
