(* ===== verification/Arch_Reach.thy ===== *)
theory Arch_Reach
  imports Arch_Boot
begin

text \<open>
  The paging machine of a running kernel: every sequence of the operations of \<^verbatim>\<open>paging.rs\<close> from a
  successful \<open>setup_kernel_paging\<close>, and the simple page map per process that the tables implement.
\<close>

section \<open>The abstract page maps\<close>

text \<open>
  Of each address space the pages mapped for user mode (a page is named by its table indices), and
  the memory blocks the kernel holds for other uses than page tables.
\<close>

record spaces =
  roots :: "u64 set"
  pages :: "u64 \<Rightarrow> nat list \<Rightarrow> (u64 \<times> prot) option"
  held_data :: "(u64 \<times> nat) set"

datatype vop = NewSpace | Activate u64 | MapUser u64 u64 prot u64 | MapKernel u64 u64 prot | Guard u64 | AllocData nat | FreeData u64

text \<open>A frame of a block held for data.\<close>

definition in_data :: "u64 \<Rightarrow> (u64 \<times> nat) set \<Rightarrow> bool" where
  "in_data pa D \<longleftrightarrow> (\<exists>b\<in>D. unat (phys_to_pfn (nxt pa)) \<in> pframes b)"

text \<open>
  A step is one call with the caller's side of its contract: user pages only in the window of an
  active process space and only of frames held for data; kernel pages inside the window only while
  the kernel's own tables are active; a block freed only when held and mapped nowhere.
\<close>

inductive vstep :: "vm \<times> spaces \<Rightarrow> vop \<Rightarrow> vm \<times> spaces \<Rightarrow> bool" where
  new: "new_process_space m = Some (sp, m') \<Longrightarrow>
    vstep (m, S) NewSpace (m', S\<lparr>roots := insert (primary sp) (roots S), pages := (pages S)(primary sp := \<lambda>_. None)\<rparr>)"
| switch: "r \<in> roots S \<Longrightarrow> vstep (m, S) (Activate r) (activate_address_space \<lparr>primary = r, secondary = 0\<rparr> m, S)"
| user: "cr3 m \<noteq> KERNEL_PML4 m \<Longrightarrow> window (path va) \<Longrightarrow> in_data pa (held_data S) \<Longrightarrow> map_user_page va pa prot d m = Some m' \<Longrightarrow>
    vstep (m, S) (MapUser va pa prot d) (m', S\<lparr>pages := (pages S)(cr3 m := (pages S (cr3 m))(path va \<mapsto> (pa, prot)))\<rparr>)"
| kernel: "cr3 m = KERNEL_PML4 m \<or> \<not> window (path va) \<Longrightarrow> map_page va pa prot m = Some m' \<Longrightarrow> vstep (m, S) (MapKernel va pa prot) (m', S)"
| guard: "cr3 m = KERNEL_PML4 m \<or> \<not> window (path va) \<Longrightarrow> install_guard_page va m = Some m' \<Longrightarrow> vstep (m, S) (Guard va) (m', S)"
| alloc: "alloc_frames (vframes m) k = Some (Some pa, g) \<Longrightarrow>
    vstep (m, S) (AllocData k) (m\<lparr>vframes := g\<rparr>, S\<lparr>held_data := insert (pa, k) (held_data S)\<rparr>)"
| free: "(pa, k) \<in> held_data S \<Longrightarrow> (\<And>r q pg prot. r \<in> roots S \<Longrightarrow> pages S r q = Some (pg, prot) \<Longrightarrow> unat (phys_to_pfn (nxt pg)) \<notin> pframes (pa, k)) \<Longrightarrow>
    mem_free_frames (vframes m) pa = Some g \<Longrightarrow> vstep (m, S) (FreeData pa) (m\<lparr>vframes := g\<rparr>, S\<lparr>held_data := held_data S - {(pa, k)}\<rparr>)"

text \<open>The kernels that a boot and any sequence of steps reach.\<close>

inductive vreach :: "vm \<Rightarrow> vm \<times> spaces \<Rightarrow> bool" for m0 where
  start: "vreach m0 (m0, \<lparr>roots = {KERNEL_PML4 m0}, pages = \<lambda>_ _. None, held_data = {}\<rparr>)"
| step: "vreach m0 s \<Longrightarrow> vstep s a s' \<Longrightarrow> vreach m0 s'"

inductive_cases vstep_cases: "vstep (m, S) a s'"

section \<open>The invariant\<close>

definition wx_ok :: "tables \<Rightarrow> u64 set \<Rightarrow> bool" where
  "wx_ok E Rs \<longleftrightarrow> (\<forall>r\<in>Rs. \<forall>va pa w x u. mapping E r va = Some (pa, w, x, u) \<longrightarrow> \<not> (w \<and> x))"

text \<open>The user part of a space is its page map.\<close>

definition user_at :: "(u64 \<times> prot) option \<Rightarrow> u64 \<Rightarrow> (u64 \<times> bool \<times> bool \<times> bool) option \<Rightarrow> bool" where
  "user_at p va v \<longleftrightarrow> (case p of
       Some (pa, prot) \<Rightarrow> v = page_view pa prot True va
     | None \<Rightarrow> (\<forall>pa w x. v \<noteq> Some (pa, w, x, True)))"

definition user_view :: "tables \<Rightarrow> u64 \<Rightarrow> (nat list \<Rightarrow> (u64 \<times> prot) option) \<Rightarrow> bool" where
  "user_view E r P \<longleftrightarrow> (\<forall>va. user_at (P (path va)) va (mapping E r va))"

definition pages_ok :: "u64 \<Rightarrow> spaces \<Rightarrow> bool" where
  "pages_ok K S \<longleftrightarrow> pages S K = (\<lambda>_. None)
     \<and> (\<forall>r\<in>roots S. \<forall>q pa prot. pages S r q = Some (pa, prot) \<longrightarrow> window q \<and> in_data pa (held_data S))"

definition vinv :: "nat set \<Rightarrow> vm \<times> spaces \<Rightarrow> bool" where
  "vinv U = (\<lambda>(m, S). (\<exists>T H. vm_ok U (roots S) T H m \<and> held_data S \<subseteq> H \<and> held_data S \<inter> T \<times> {0} = {})
     \<and> wx_ok (ptab m) (roots S) \<and> (\<forall>r\<in>roots S. user_view (ptab m) r (pages S r)) \<and> pages_ok (KERNEL_PML4 m) S)"

lemma prot_wx_safe: "fst (prot_wx p) \<Longrightarrow> \<not> snd (prot_wx p)"
  by (cases p) simp_all

lemma vinvI:
  assumes "vm_ok U (roots S) T H m" "held_data S \<subseteq> H" "held_data S \<inter> T \<times> {0} = {}" "wx_ok (ptab m) (roots S)"
    "\<And>r. r \<in> roots S \<Longrightarrow> user_view (ptab m) r (pages S r)" "pages_ok (KERNEL_PML4 m) S"
  shows "vinv U (m, S)"
  using assms by (auto simp: vinv_def)

lemma vinvE:
  assumes "vinv U (m, S)"
  obtains T H where "vm_ok U (roots S) T H m" "held_data S \<subseteq> H" "held_data S \<inter> T \<times> {0} = {}" "wx_ok (ptab m) (roots S)"
    "\<And>r. r \<in> roots S \<Longrightarrow> user_view (ptab m) r (pages S r)" "pages_ok (KERNEL_PML4 m) S"
  using assms by (auto simp: vinv_def)

lemma grown_data:
  assumes "grown T H T' H'" "D \<subseteq> H" "D \<inter> T \<times> {0} = {}"
  shows "D \<subseteq> H'" "D \<inter> T' \<times> {0} = {}"
  using assms by (auto simp: grown_def)

text \<open>A page edit of the active space by a kernel page, a guard or a user page.\<close>

lemma sets_page_inv:
  assumes v: "vinv U (m, S)" and s: "\<And>T H. vm_ok U (roots S) T H m \<Longrightarrow> sets_page U (roots S) T H va f m m'"
    and f: "\<And>w. path w = path va \<Longrightarrow> f w = None \<or> (\<exists>pa prot. f w = page_view pa prot usr w)"
    and P: "roots S' = roots S" "held_data S' = held_data S" "pages_ok (KERNEL_PML4 m) S'"
    and other: "\<And>r. r \<noteq> cr3 m \<Longrightarrow> pages S' r = pages S r" and self: "\<And>q. q \<noteq> path va \<Longrightarrow> pages S' (cr3 m) q = pages S (cr3 m) q"
    and here: "\<And>w. path w = path va \<Longrightarrow> case pages S' (cr3 m) (path va) of Some (pa, prot) \<Rightarrow> f w = page_view pa prot True w | None \<Rightarrow> \<not> usr"
    and out: "\<And>r. r \<in> roots S \<Longrightarrow> r \<noteq> cr3 m \<Longrightarrow> \<not> window (path va) \<Longrightarrow> \<not> usr \<and> pages S r (path va) = None"
  shows "vinv U (m', S')"
proof -
  obtain T H where V: "vm_ok U (roots S) T H m" "held_data S \<subseteq> H" "held_data S \<inter> T \<times> {0} = {}" "wx_ok (ptab m) (roots S)"
    "\<And>r. r \<in> roots S \<Longrightarrow> user_view (ptab m) r (pages S r)" "pages_ok (KERNEL_PML4 m) S" using v by (rule vinvE) blast
  obtain T' H' where O: "vm_ok U (roots S) T' H' m'" "grown T H T' H'" and pg: "page_set (roots S) (cr3 m) va f m m'" and K: "KERNEL_PML4 m' = KERNEL_PML4 m"
    using s [OF V(1)] by (auto simp: sets_page_def flushed_def)
  have view: "mapping (ptab m') r w = mapping (ptab m) r w \<and> (r = cr3 m \<longrightarrow> path w \<noteq> path va)
      \<or> path w = path va \<and> mapping (ptab m') r w = f w \<and> (r \<noteq> cr3 m \<longrightarrow> \<not> window (path va))" if "r \<in> roots S" for r w
    using pg that unfolding page_set_def by (cases "r = cr3 m") (auto split: if_splits)
  have wx: "\<not> (wr \<and> x)" if "f w = Some (pa, wr, x, u)" "path w = path va" for w pa wr x u
    using f [OF that(2)] that(1) prot_wx_safe by (auto simp: page_view_def)
  have "wx_ok (ptab m') (roots S)"
    unfolding wx_ok_def
  proof (intro ballI allI impI)
    fix r w pa wr x u assume r: "r \<in> roots S" and mp: "mapping (ptab m') r w = Some (pa, wr, x, u)"
    show "\<not> (wr \<and> x)" using view [OF r, of w] V(4) r mp wx [of w pa wr x u] unfolding wx_ok_def by fastforce
  qed
  moreover have "user_view (ptab m') r (pages S' r)" if r: "r \<in> roots S" for r
    unfolding user_view_def
  proof (intro allI)
    fix w
    have old: "user_at (pages S r (path w)) w (mapping (ptab m) r w)" using V(5) [OF r] unfolding user_view_def by blast
    show "user_at (pages S' r (path w)) w (mapping (ptab m') r w)"
      using view [OF r, of w]
    proof (elim disjE conjE)
      assume "mapping (ptab m') r w = mapping (ptab m) r w" "r = cr3 m \<longrightarrow> path w \<noteq> path va"
      then show ?thesis using old other [of r] self [of "path w"] by (cases "r = cr3 m") auto
    next
      assume e: "path w = path va" "mapping (ptab m') r w = f w" and c: "r \<noteq> cr3 m \<longrightarrow> \<not> window (path va)"
      have nu: "f w \<noteq> Some (pa, w', x, True)" if "\<not> usr" for pa w' x using f [OF e(1)] that by (auto simp: page_view_def)
      show ?thesis
      proof (cases "r = cr3 m")
        case True
        then show ?thesis using here [OF e(1)] nu e by (cases "pages S' (cr3 m) (path va)") (auto simp: user_at_def)
      next
        case False
        then show ?thesis using out [OF r False] c other [OF False] nu e by (auto simp: user_at_def)
      qed
    qed
  qed
  ultimately show ?thesis using O V(2,3) P grown_data [OF O(2) V(2,3)] K by (intro vinvI [of U S' T' H']) simp_all
qed

lemma free_frame_addr:
  assumes "frames_ok U g H" "(t, 0) \<in> H" "b \<in> H" "b \<noteq> (t, 0)"
  shows "unat (phys_to_pfn t) \<notin> pframes b"
  using frames_ok_blocks(1) [OF assms(1,2,3)] assms(4) by (auto simp: pframes_def)

lemma vm_ok_frames:
  assumes ok: "vm_ok U Rs T H m" and f: "frames_ok U g H'" and T: "\<And>t. t \<in> T \<Longrightarrow> (t, 0) \<in> H'"
  shows "vm_ok U Rs T H' (m\<lparr>vframes := g\<rparr>)"
  using ok f T by (simp add: vm_ok_def del: tab_at.simps)

lemma vstep_inv:
  assumes st: "vstep s a s'" and v: "vinv U s"
  shows "vinv U s'"
  using st v
proof (induction rule: vstep.induct)
  case (new m sp m' S)
  obtain T H where V: "vm_ok U (roots S) T H m" "held_data S \<subseteq> H" "held_data S \<inter> T \<times> {0} = {}" "wx_ok (ptab m) (roots S)"
    "\<And>r. r \<in> roots S \<Longrightarrow> user_view (ptab m) r (pages S r)" "pages_ok (KERNEL_PML4 m) S" using new.prems by (rule vinvE) blast
  let ?r = "primary sp" let ?K = "KERNEL_PML4 m"
  let ?S = "S\<lparr>roots := insert ?r (roots S), pages := (pages S)(?r := \<lambda>_. None)\<rparr>"
  have sa: "space_added U (roots S) T H m ?r m'" using new_process_space_ok [OF V(1)] new.hyps by simp
  then obtain T' H' where O: "vm_ok U (insert ?r (roots S)) T' H' m'" "grown T H T' H'" and r: "?r \<notin> roots S" and K: "KERNEL_PML4 m' = ?K"
    and same: "\<And>r' va. r' \<in> roots S \<Longrightarrow> mapping (ptab m') r' va = mapping (ptab m) r' va" and cl: "\<And>va. mapping (ptab m') ?r va = mapping (ptab m) ?K va"
    by (auto simp: space_added_def same_regs_def)
  have KR: "?K \<in> roots S" using vm_okD(7) [OF V(1)] .
  have kv: "user_view (ptab m) ?K (\<lambda>_. None)" using V(5) [OF KR] V(6) by (simp add: pages_ok_def)
  have "user_view (ptab m') r' (pages ?S r')" if "r' \<in> roots ?S" for r'
    using that V(5) [of r'] kv same cl r by (cases "r' = ?r") (auto simp: user_view_def user_at_def [of None])
  moreover have "wx_ok (ptab m') (roots ?S)" using V(4) KR same cl unfolding wx_ok_def by auto blast+
  moreover have "pages_ok (KERNEL_PML4 m') ?S" using V(6) r KR K by (auto simp: pages_ok_def)
  ultimately show ?case using O grown_data [OF O(2) V(2,3)] by (intro vinvI [of U ?S T' H']) simp_all
next
  case (switch r S m)
  obtain T H where V: "vm_ok U (roots S) T H m" "held_data S \<subseteq> H" "held_data S \<inter> T \<times> {0} = {}" "wx_ok (ptab m) (roots S)"
    "\<And>r. r \<in> roots S \<Longrightarrow> user_view (ptab m) r (pages S r)" "pages_ok (KERNEL_PML4 m) S" using switch.prems by (rule vinvE) blast
  have "vm_ok U (roots S) T H (m\<lparr>cr3 := r\<rparr>)" using V(1) switch.hyps by (simp add: vm_ok_def del: tab_at.simps)
  then show ?case using V(2-) by (intro vinvI [of U S T H]) (simp_all add: activate_address_space_def)
next
  case (user m va pa S prot d m')
  have s: "sets_page U (roots S) T H va (page_view pa prot True) m m'" if "vm_ok U (roots S) T H m" for T H
    using map_user_page_ok [OF that user.hyps(2,1), of pa prot d] user.hyps(4) by simp
  have "pages_ok (KERNEL_PML4 m) S" using user.prems by (auto simp: vinv_def)
  then have "pages_ok (KERNEL_PML4 m) (S\<lparr>pages := (pages S)(cr3 m := (pages S (cr3 m))(path va \<mapsto> (pa, prot)))\<rparr>)"
    using user.hyps(1-3) by (auto simp: pages_ok_def)
  then show ?case using user.hyps by (intro sets_page_inv [OF user.prems s, where usr = True]) auto
next
  case (kernel m va pa prot m' S)
  have s: "sets_page U (roots S) T H va (page_view pa prot False) m m'" if "vm_ok U (roots S) T H m" for T H
    using map_page_ok [OF that, of va pa prot] kernel.hyps(2) by simp
  have P: "pages_ok (KERNEL_PML4 m) S" and R: "cr3 m \<in> roots S" using kernel.prems vm_okD(8) by (auto simp: vinv_def)
  have "pages S (cr3 m) (path va) = None" using P R kernel.hyps(1) by (cases "pages S (cr3 m) (path va)") (auto simp: pages_ok_def)
  moreover have "pages S r (path va) = None" if "r \<in> roots S" "\<not> window (path va)" for r using P that by (cases "pages S r (path va)") (auto simp: pages_ok_def)
  ultimately show ?case using P by (intro sets_page_inv [OF kernel.prems s, where usr = False]) auto
next
  case (guard m va m' S)
  have s: "sets_page U (roots S) T H va (\<lambda>_. None) m m'" if "vm_ok U (roots S) T H m" for T H
    using install_guard_page_ok [OF that, of va] guard.hyps(2) by simp
  have P: "pages_ok (KERNEL_PML4 m) S" and R: "cr3 m \<in> roots S" using guard.prems vm_okD(8) by (auto simp: vinv_def)
  have "pages S (cr3 m) (path va) = None" using P R guard.hyps(1) by (cases "pages S (cr3 m) (path va)") (auto simp: pages_ok_def)
  moreover have "pages S r (path va) = None" if "r \<in> roots S" "\<not> window (path va)" for r using P that by (cases "pages S r (path va)") (auto simp: pages_ok_def)
  ultimately show ?case using P by (intro sets_page_inv [OF guard.prems s, where usr = False]) auto
next
  case (alloc m k pa g S)
  obtain T H where V: "vm_ok U (roots S) T H m" "held_data S \<subseteq> H" "held_data S \<inter> T \<times> {0} = {}" "wx_ok (ptab m) (roots S)"
    "\<And>r. r \<in> roots S \<Longrightarrow> user_view (ptab m) r (pages S r)" "pages_ok (KERNEL_PML4 m) S" using alloc.prems by (rule vinvE) blast
  have T: "(t, 0) \<in> H" if "t \<in> T" for t using V(1) that by (auto simp: vm_ok_def)
  have f: "(pa, k) \<notin> H" "frames_ok U g (insert (pa, k) H)" using frames_ok_alloc [of U "vframes m" H k] V(1) alloc.hyps by (auto simp: vm_ok_def)
  have "vm_ok U (roots S) T (insert (pa, k) H) (m\<lparr>vframes := g\<rparr>)" using vm_ok_frames [OF V(1) f(2)] T by simp
  moreover have "pages_ok (KERNEL_PML4 m) (S\<lparr>held_data := insert (pa, k) (held_data S)\<rparr>)" using V(6) by (auto simp: pages_ok_def in_data_def)
  ultimately show ?case using V f(1) T by (intro vinvI [of U _ T "insert (pa, k) H"]) auto
next
  case (free pa k S m g)
  obtain T H where V: "vm_ok U (roots S) T H m" "held_data S \<subseteq> H" "held_data S \<inter> T \<times> {0} = {}" "wx_ok (ptab m) (roots S)"
    "\<And>r. r \<in> roots S \<Longrightarrow> user_view (ptab m) r (pages S r)" "pages_ok (KERNEL_PML4 m) S" using free.prems by (rule vinvE) blast
  have F: "frames_ok U (vframes m) H" and T: "\<And>t. t \<in> T \<Longrightarrow> (t, 0) \<in> H" using V(1) by (auto simp: vm_ok_def)
  have h: "(pa, k) \<in> H" using V(2) free.hyps(1) by blast
  have f: "frames_ok U g (H - {(pa, k)})" using frames_ok_free [OF F h] free.hyps(3) by auto
  have "vm_ok U (roots S) T (H - {(pa, k)}) (m\<lparr>vframes := g\<rparr>)" using vm_ok_frames [OF V(1) f] T V(3) free.hyps(1) by blast
  moreover have "pages_ok (KERNEL_PML4 m) (S\<lparr>held_data := held_data S - {(pa, k)}\<rparr>)"
    using V(6) free.hyps(2) by (fastforce simp: pages_ok_def in_data_def)
  ultimately show ?case using V by (intro vinvI [of U _ T "H - {(pa, k)}"]) auto
qed

section \<open>From the boot\<close>

definition paging_booted :: "(u64 \<Rightarrow> mem_region) \<Rightarrow> warden_boot_info \<Rightarrow> tables \<Rightarrow> u64 \<Rightarrow> linker_symbols \<Rightarrow> vm \<Rightarrow> bool" where
  "paging_booted region_at bi E0 r0 L m \<longleftrightarrow> (\<exists>bm km n. mem_init region_at bi = Ok bm
     \<and> setup_kernel_paging L (hhdm_offset bi) (boot_vm bi bm E0 r0) = Ok (km, m) \<and> layout_ok km n \<and> sections_ok km)"

lemma setup_Ok:
  assumes "setup_kernel_paging L hhdm m = Ok (km, m')"
  obtains kphys vend where "translate m (kernel_start L) = Some (Some kphys)" "next_multiple_of (kernel_end L) PAGE_SIZE = Some vend"
    "km = layout_of L hhdm kphys vend"
  using assms by (auto simp: setup_kernel_paging_def layout_of_def Let_def obind_Ok split: option.splits if_splits)

lemma booted_start:
  assumes "paging_booted region_at bi E0 r0 L m"
  obtains U T where "vm_ok U {KERNEL_PML4 m} T (T \<times> {0}) m" "used (T \<times> {0}) = 14" "plain (ptab m) (KERNEL_PML4 m)" "split_at (ptab m) (KERNEL_PML4 m) = {}"
    "cr3 m = KERNEL_PML4 m" "\<exists>bm. mem_init region_at bi = Ok bm \<and> card U + bm_desc_frames bm = bm_total_pages bm"
    "\<exists>km n. layout_ok km n \<and> space_view km m"
proof -
  obtain bm km n where B: "mem_init region_at bi = Ok bm" "setup_kernel_paging L (hhdm_offset bi) (boot_vm bi bm E0 r0) = Ok (km, m)" "layout_ok km n" "sections_ok km"
    using assms by (auto simp: paging_booted_def)
  obtain kphys vend where T: "translate (boot_vm bi bm E0 r0) (kernel_start L) = Some (Some kphys)" "next_multiple_of (kernel_end L) PAGE_SIZE = Some vend"
    and km: "km = layout_of L (hhdm_offset bi) kphys vend" using B(2) by (rule setup_Ok)
  have h: "unat (hhdm_offset bi) mod 2 ^ 39 = 0" using B(3) by (simp add: km layout_ok_def layout_of_def)
  obtain U where U: "frames_in U {} (boot_vm bi bm E0 r0)" "card U + bm_desc_frames bm = bm_total_pages bm" using boot_frames_in [OF B(1) h] by blast
  from setup_kernel_paging_cases [OF U(1) T B(3,4) [unfolded km]] show ?thesis
  proof (elim disjE exE conjE)
    fix r T m' assume "setup_kernel_paging L (hhdm_offset bi) (boot_vm bi bm E0 r0) = Ok (layout_of L (hhdm_offset bi) kphys vend, m')"
      "vm_ok U {r} T ({} \<union> T \<times> {0}) m'" "used ({} \<union> T \<times> {0}) = used {} + 14" "plain (ptab m') r" "split_at (ptab m') r = {}" "KERNEL_PML4 m' = r" "cr3 m' = r"
      "space_view (layout_of L (hhdm_offset bi) kphys vend) m'"
    then show ?thesis using B(1-3) U(2) km by (intro that [of U T]) (auto simp: used_def)
  qed (use B(2) in simp)
qed

lemma booted_vinv:
  assumes "vm_ok U {KERNEL_PML4 m} T (T \<times> {0}) m" "plain (ptab m) (KERNEL_PML4 m)"
  shows "vinv U (m, \<lparr>roots = {KERNEL_PML4 m}, pages = \<lambda>_ _. None, held_data = {}\<rparr>)"
proof -
  have hw: "plain_leaf l \<and> has PRESENT l \<and> \<not> u" if "hw (ptab m) (KERNEL_PML4 m) (path va) = Some (l, n, u)" for va l n u
    using plain_hw [OF assms(2) path_ok(2,1) that] by simp
  have "\<not> (w \<and> x) \<and> \<not> u" if "mapping (ptab m) (KERNEL_PML4 m) va = Some (pa, w, x, u)" for va pa w x u
    using that hw by (fastforce simp: mapping_def plain_leaf_def)
  then show ?thesis using assms(1) by (intro vinvI) (fastforce simp: wx_ok_def user_view_def user_at_def pages_ok_def)+
qed

lemma vreach_inv:
  assumes "vreach m0 s" "paging_booted region_at bi E0 r0 L m0"
  shows "\<exists>U. vinv U s"
proof -
  obtain U T where "vm_ok U {KERNEL_PML4 m0} T (T \<times> {0}) m0" "plain (ptab m0) (KERNEL_PML4 m0)" using assms(2) by (rule booted_start) (rule that; assumption)
  then have st: "vinv U (m0, \<lparr>roots = {KERNEL_PML4 m0}, pages = \<lambda>_ _. None, held_data = {}\<rparr>)" by (rule booted_vinv)
  from assms(1) have "vinv U s"
  proof (induction rule: vreach.induct)
    case (step s a s')
    show ?case by (rule vstep_inv [OF step.hyps(2) step.IH])
  qed (rule st)
  then show ?thesis by blast
qed

lemma user_page_apart:
  assumes V: "vm_ok U (roots S) T H m" "held_data S \<subseteq> H" "held_data S \<inter> T \<times> {0} = {}" and P: "pages_ok (KERNEL_PML4 m) S"
    and r: "r \<in> roots S" and p: "pages S r q0 = Some (pa, prot)"
  shows "window q0 \<and> r \<noteq> KERNEL_PML4 m \<and> (\<forall>r'\<in>roots S. \<forall>q t. indices q \<longrightarrow> tab_at (ptab m) 3 r' q = Some t \<longrightarrow> t \<noteq> nxt pa)"
proof (intro conjI ballI allI impI)
  have d: "in_data pa (held_data S)" using P r p by (auto simp: pages_ok_def)
  show "window q0" "r \<noteq> KERNEL_PML4 m" using P r p by (auto simp: pages_ok_def)
  show "t \<noteq> nxt pa" if q: "r' \<in> roots S" "indices q" "tab_at (ptab m) 3 r' q = Some t" for r' q t
  proof
    assume e: "t = nxt pa"
    obtain b where b: "b \<in> held_data S" "unat (phys_to_pfn t) \<in> pframes b" using d e by (auto simp: in_data_def)
    have t: "t \<in> T" using trees_ok_table [OF vm_okD(5) [OF V(1)] q] .
    then have "(t, 0) \<in> H" using vm_okD(4) [OF V(1)] by blast
    moreover have "b \<in> H" "b \<noteq> (t, 0)" using b(1) V(2,3) t by auto
    ultimately show False using free_frame_addr [OF vm_okD(1) [OF V(1)]] b(2) by blast
  qed
qed

text \<open>
  (C5) Process isolation through the page tables.  After a boot and any sequence of space creations,
  switches, user and kernel mappings, guard pages and frame allocations, in every address space: an
  address can be reached from user mode exactly when this space's own map has its page, and then with
  the frame and the protection it was mapped with; user pages lie in the process window and never in
  the kernel's own space; no page of any space is both writable and executable; no user page maps a
  frame that holds a page table of any space; and the walk of the active tables computes just this
  translation.
\<close>

theorem process_isolation:
  assumes boot: "paging_booted region_at bi E0 r0 L m0" and reach: "vreach m0 (m, S)" and r: "r \<in> roots S"
  shows "((\<exists>pa w x. mapping (ptab m) r va = Some (pa, w, x, True)) \<longleftrightarrow> pages S r (path va) \<noteq> None)
    \<and> (\<forall>pa prot. pages S r (path va) = Some (pa, prot) \<longrightarrow>
        mapping (ptab m) r va = Some (nxt pa + (va AND mask 12), fst (prot_wx prot), snd (prot_wx prot), True)
        \<and> window (path va) \<and> r \<noteq> KERNEL_PML4 m
        \<and> (\<forall>r'\<in>roots S. \<forall>q t. indices q \<longrightarrow> tab_at (ptab m) 3 r' q = Some t \<longrightarrow> t \<noteq> nxt pa))
    \<and> (\<forall>pa w x u. mapping (ptab m) r va = Some (pa, w, x, u) \<longrightarrow> \<not> (w \<and> x))
    \<and> cr3 m \<in> roots S \<and> translate m va = Some (map_option fst (mapping (ptab m) (cr3 m) va))
    \<and> page_prot m va = Some (map_option (\<lambda>(_, w, x, _). (w, x)) (mapping (ptab m) (cr3 m) va))"
proof -
  obtain U where v: "vinv U (m, S)" using vreach_inv [OF reach boot] by blast
  obtain T H where V: "vm_ok U (roots S) T H m" "held_data S \<subseteq> H" "held_data S \<inter> T \<times> {0} = {}" "wx_ok (ptab m) (roots S)"
    "\<And>r. r \<in> roots S \<Longrightarrow> user_view (ptab m) r (pages S r)" "pages_ok (KERNEL_PML4 m) S" using v by (rule vinvE) blast
  have u: "user_at (pages S r (path va)) va (mapping (ptab m) r va)" using V(5) [OF r] by (simp add: user_view_def)
  have "(\<exists>pa w x. mapping (ptab m) r va = Some (pa, w, x, True)) \<longleftrightarrow> pages S r (path va) \<noteq> None"
    using u by (cases "pages S r (path va)") (auto simp: user_at_def page_view_def)
  moreover have "mapping (ptab m) r va = Some (nxt pa + (va AND mask 12), fst (prot_wx prot), snd (prot_wx prot), True)
      \<and> window (path va) \<and> r \<noteq> KERNEL_PML4 m \<and> (\<forall>r'\<in>roots S. \<forall>q t. indices q \<longrightarrow> tab_at (ptab m) 3 r' q = Some t \<longrightarrow> t \<noteq> nxt pa)"
    if p: "pages S r (path va) = Some (pa, prot)" for pa prot
    using u p user_page_apart [OF V(1-3,6) r p] by (auto simp: user_at_def page_view_def)
  moreover have "\<not> (w \<and> x)" if "mapping (ptab m) r va = Some (pa, w, x, u)" for pa w x u using V(4) r that unfolding wx_ok_def by blast
  ultimately show ?thesis using vm_okD(8) [OF V(1)] translate_mapping [OF V(1)] page_prot_mapping [OF V(1)] by blast
qed

section \<open>A boot that creates a process and maps a page\<close>

lemma hw_covered:
  assumes "mapping E r v \<noteq> None" "tab_at E 3 r [pt_idx v 3, pt_idx v 2] = Some pd"
  shows "covered E r v"
  using assms by (auto simp: mapping_def path_def covered_def Let_def numeral_2_eq_2 numeral_3_eq_3 split: if_splits)

lemma demo_paging_booted: "\<exists>m0. paging_booted paging_map paging_info loader_tables 0x1000 paging_symbols m0"
proof -
  have h: "unat (hhdm_offset paging_info) mod 2 ^ 39 = 0" by code_simp
  obtain U where U: "frames_in U {} (boot_vm paging_info paging_mem loader_tables 0x1000)" "card U + bm_desc_frames paging_mem = bm_total_pages paging_mem"
    using boot_frames_in [OF paging_mem_init h] by blast
  have c: "card U = 31" using U(2) by (simp add: paging_mem_def)
  note d = paging_demo
  from setup_kernel_paging_cases [OF U(1) d(1,2), of "0xffff800000000000" 7, OF d(3,4)] c
  obtain m0 where "setup_kernel_paging paging_symbols 0xffff800000000000 (boot_vm paging_info paging_mem loader_tables 0x1000) = Ok (paging_layout, m0)"
    by (auto simp: used_def)
  then show ?thesis unfolding paging_booted_def using paging_mem_init d(3,4,5) by auto
qed

lemma demo_user_page:
  assumes boot: "paging_booted paging_map paging_info loader_tables 0x1000 paging_symbols m0"
  obtains r pa m S where "vreach m0 (m, S)" "r \<in> roots S" "r \<noteq> KERNEL_PML4 m" "KERNEL_PML4 m \<in> roots S" "cr3 m = r"
    "in_data pa (held_data S)" "nxt pa = pa" "\<forall>prot. map_user_page 0x40000000 pa prot 0 m \<noteq> None"
proof (rule booted_start [OF boot])
  fix U T assume ok: "vm_ok U {KERNEL_PML4 m0} T (T \<times> {0}) m0" and u: "used (T \<times> {0}) = 14" and sp: "split_at (ptab m0) (KERNEL_PML4 m0) = {}"
    and c3: "cr3 m0 = KERNEL_PML4 m0" and bm: "\<exists>bm. mem_init paging_map paging_info = Ok bm \<and> card U + bm_desc_frames bm = bm_total_pages bm"
    and view: "\<exists>km n. layout_ok km n \<and> space_view km m0"
  let ?K = "KERNEL_PML4 m0" let ?v = "0x40000000 :: u64"
  have U: "card U = 31" using bm paging_mem_init by (auto simp: paging_mem_def)
  have K: "mapping (ptab m0) ?K ?v \<noteq> None"
  proof -
    obtain km n where km: "layout_ok km n" "space_view km m0" using view by blast
    have "canonical ?v" by code_simp
    moreover have "boot_map km ?v \<noteq> None" using km(1) by (auto simp: boot_map_def layout_ok_def km_ok_def Let_def)
    ultimately show ?thesis using km(2) translate_mapping [OF ok, of ?v] c3 by (cases "mapping (ptab m0) ?K ?v") (auto simp: space_view_def)
  qed
  let ?S0 = "\<lparr>roots = {?K}, pages = \<lambda>_ _. None, held_data = {}\<rparr>"
  obtain s m1 where n: "new_process_space m0 = Some (s, m1)" and sa: "space_added U {?K} T (T \<times> {0}) m0 (primary s) m1"
    using new_process_space_ok [OF ok] U u sp by (auto split: option.splits)
  let ?r = "primary s"
  obtain T1 H1 where ok1: "vm_ok U {?r, ?K} T1 H1 m1" and u1: "used H1 \<le> 17" and r: "?r \<noteq> ?K" and K1: "KERNEL_PML4 m1 = ?K"
    and map1: "mapping (ptab m1) ?r ?v \<noteq> None" using sa u sp K by (auto simp: space_added_def same_regs_def)
  have f1: "frames_ok U (vframes m1) H1" "U \<subseteq> {..<2 ^ 20}" using ok1 by (auto simp: vm_ok_def)
  have fin: "finite H1" using frames_ok_count(1) [OF f1(1)] .
  have "alloc_frames (vframes m1) 0 \<noteq> Some (None, vframes m1)" using alloc_fails_full [OF f1(1)] U u1 by auto
  then obtain pa g where a: "alloc_frames (vframes m1) 0 = Some (Some pa, g)" "(pa, 0) \<notin> H1" "frames_ok U g (insert (pa, 0) H1)"
    using frames_ok_alloc [OF f1(1), of 0] by auto
  let ?m2 = "m1\<lparr>vframes := g\<rparr>" let ?H2 = "insert (pa, 0) H1"
  have ok2: "vm_ok U {?r, ?K} T1 ?H2 ?m2" by (rule vm_ok_frames [OF ok1 a(3)]) (use ok1 in \<open>auto simp: vm_ok_def\<close>)
  have u2: "used ?H2 \<le> 18" using used_insert [OF fin a(2)] u1 by simp
  let ?m3 = "activate_address_space \<lparr>primary = ?r, secondary = 0\<rparr> ?m2"
  have ok3: "vm_ok U {?r, ?K} T1 ?H2 ?m3" using ok2 by (simp add: vm_ok_def activate_address_space_def del: tab_at.simps)
  have sel: "cr3 ?m3 = ?r" "KERNEL_PML4 ?m3 = ?K" "ptab ?m3 = ptab m1" using K1 by (simp_all add: activate_address_space_def)
  define S where "S = \<lparr>roots = {?r, ?K}, pages = (\<lambda>_ _. None), held_data = {(pa, 0)}\<rparr>"
  have "vreach m0 (m1, ?S0\<lparr>roots := insert ?r (roots ?S0), pages := (pages ?S0)(?r := \<lambda>_. None)\<rparr>)" by (rule vreach.step [OF vreach.start vstep.new [OF n]])
  from vreach.step [OF this vstep.alloc [OF a(1)]] have "vreach m0 (?m2, S)" by (simp add: S_def fun_upd_idem)
  then have reach: "vreach m0 (?m3, S)" by (rule vreach.step [OF _ vstep.switch]) (simp add: S_def)
  have fa: "frame_addr pa" using frame_addr_held [OF a(3) f1(2), of pa 0] by simp
  have d: "in_data pa (held_data S)" using frame_addr_bits(1) [OF fa] by (simp add: in_data_def S_def pframes_def)
  have w: "window (path ?v)" by code_simp
  have "tab_at (ptab ?m3) 3 ?r [pt_idx ?v 3, pt_idx ?v 2] \<noteq> None"
  proof -
    have "[pt_idx ?v 3, pt_idx ?v 2] = [0, 1]" by code_simp
    then show ?thesis using vm_okD(9) [OF ok3, of ?r] by (simp del: tab_at.simps)
  qed
  then have "covered (ptab ?m3) (cr3 ?m3) ?v" using hw_covered map1 sel by fastforce
  moreover have "alloc_table ?m3 \<noteq> None"
  proof
    assume "alloc_table ?m3 = None"
    then have "card U = used ?H2" using ok3 by (intro alloc_table_full) (auto simp: frames_in_def vm_ok_def)
    then show False using u2 U by simp
  qed
  ultimately have "map_user_page ?v pa prot 0 ?m3 \<noteq> None" for prot using map_user_page_ok [OF ok3 w, of pa prot 0] sel r by (auto split: option.splits)
  then show thesis using that [OF reach, of ?r pa] sel r d frame_addr_bits(1) [OF fa] by (simp add: S_def)
qed

theorem process_isolation_witness:
  "\<exists>m0 m S r pa. paging_booted paging_map paging_info loader_tables 0x1000 paging_symbols m0 \<and> vreach m0 (m, S) \<and> r \<in> roots S \<and> KERNEL_PML4 m \<in> roots S
     \<and> mapping (ptab m) r 0x40000123 = Some (pa + 0x123, True, False, True)
     \<and> (\<forall>pa w x. mapping (ptab m) (KERNEL_PML4 m) 0x40000123 \<noteq> Some (pa, w, x, True))"
proof -
  obtain m0 where boot: "paging_booted paging_map paging_info loader_tables 0x1000 paging_symbols m0" using demo_paging_booted by blast
  obtain r pa m S where D: "vreach m0 (m, S)" "r \<in> roots S" "r \<noteq> KERNEL_PML4 m" "KERNEL_PML4 m \<in> roots S" "cr3 m = r"
    "in_data pa (held_data S)" "nxt pa = pa" "\<forall>prot. map_user_page 0x40000000 pa prot 0 m \<noteq> None" using demo_user_page [OF boot] .
  obtain m' where m': "map_user_page 0x40000000 pa Rw 0 m = Some m'" using D(8) by blast
  have w: "window (path 0x40000000)" and p: "path 0x40000123 = path 0x40000000" and o: "(0x40000123 :: u64) AND mask 12 = 0x123" by code_simp+
  let ?S = "S\<lparr>pages := (pages S)(cr3 m := (pages S (cr3 m))(path 0x40000000 \<mapsto> (pa, Rw)))\<rparr>"
  have reach: "vreach m0 (m', ?S)" by (rule vreach.step [OF D(1) vstep.user [OF _ w D(6) m']]) (use D(3,5) in simp)
  have K: "KERNEL_PML4 m' = KERNEL_PML4 m"
  proof -
    obtain U where "vinv U (m, S)" using vreach_inv [OF D(1) boot] by blast
    then obtain T H where "vm_ok U (roots S) T H m" by (rule vinvE)
    from map_user_page_ok [OF this w, of pa Rw 0] show ?thesis using m' D(3,5) by (auto simp: sets_page_def flushed_def)
  qed
  have "mapping (ptab m') r 0x40000123 = Some (pa + 0x123, True, False, True)"
    using process_isolation [OF boot reach, of r "0x40000123"] D(2,5,7) p o by simp
  moreover have "pages ?S (KERNEL_PML4 m') (path 0x40000123) = None"
  proof (rule ccontr)
    assume "pages ?S (KERNEL_PML4 m') (path 0x40000123) \<noteq> None"
    then obtain a b where "pages ?S (KERNEL_PML4 m') (path 0x40000123) = Some (a, b)" by (metis not_Some_eq surj_pair)
    then show False using process_isolation [OF boot reach, of "KERNEL_PML4 m'" "0x40000123"] D(4) K by auto
  qed
  ultimately show ?thesis using process_isolation [OF boot reach, of "KERNEL_PML4 m'" "0x40000123"] boot reach D(2,4) K
    by (intro exI [of _ m0] exI [of _ m'] exI [of _ ?S] exI [of _ r] exI [of _ pa]) auto
qed

section \<open>Lookups after edits\<close>

definition looks_up :: "vm \<Rightarrow> u64 \<Rightarrow> (u64 \<Rightarrow> (u64 \<times> bool \<times> bool) option) \<Rightarrow> vm \<Rightarrow> bool" where
  "looks_up m va f m' \<longleftrightarrow> invlpgs m' = invlpgs m @ [page_of va] \<and> (\<forall>w. translate m' w = (if path w = path va then Some (map_option fst (f w)) else translate m w)
     \<and> page_prot m' w = (if path w = path va then Some (map_option snd (f w)) else page_prot m w))"

lemma sets_page_lookup:
  assumes ok: "vm_ok U Rs T H m" and s: "sets_page U Rs T H va f m m'"
  shows "looks_up m va (\<lambda>w. map_option (\<lambda>(pa, w, x, _). (pa, w, x)) (f w)) m'"
proof -
  obtain T' H' where ok': "vm_ok U Rs T' H' m'" and p: "page_set Rs (cr3 m) va f m m'" and f: "flushed va m m'" using s by (auto simp: sets_page_def)
  have c: "cr3 m' = cr3 m" using f by (simp add: flushed_def)
  have "mapping (ptab m') (cr3 m') w = (if path w = path va then f w else mapping (ptab m) (cr3 m) w)" for w using p c by (simp add: page_set_def)
  moreover have "map_option fst (map_option (\<lambda>(pa, w, x, _). (pa, w, x)) v) = map_option fst v"
    "map_option snd (map_option (\<lambda>(pa, w, x, _). (pa, w, x)) v) = map_option (\<lambda>(_, w, x, _). (w, x)) v" for v :: "(u64 \<times> bool \<times> bool \<times> bool) option"
    by (cases v; auto)+
  ultimately show ?thesis using f unfolding looks_up_def translate_mapping [OF ok] translate_mapping [OF ok'] page_prot_mapping [OF ok] page_prot_mapping [OF ok']
    by (simp add: flushed_def)
qed

lemma no_table_no_frame:
  assumes ok: "vm_ok U Rs T H m" and a: "alloc_table m = None"
  shows "free_frame_count (vframes m) = 0"
proof -
  have f: "frames_in U H m" and F: "frames_ok U (vframes m) H" using ok by (auto simp: frames_in_def vm_ok_def)
  then show ?thesis using alloc_table_full [OF f a] frames_ok_count(2) [OF F] by (simp add: used_def word_unat_eq_iff)
qed

lemma new_space_view:
  assumes ok: "vm_ok U (roots S) T H m"
  shows "case new_process_space m of
        None \<Rightarrow> unat (free_frame_count (vframes m)) < 3 + card (split_at (ptab m) (KERNEL_PML4 m))
      | Some (sp, m') \<Rightarrow> primary sp \<notin> roots S \<and> (\<forall>r\<in>roots S. mapping (ptab m') r = mapping (ptab m) r)
          \<and> (\<forall>w. translate (activate_address_space sp m') w = translate (activate_address_space (kernel_space m) m) w)"
proof (cases "new_process_space m")
  case None
  have "unat (free_frame_count (vframes m)) + used H = card U" using frames_ok_count(2) [OF vm_okD(1) [OF ok]] by (simp add: used_def)
  then show ?thesis using new_process_space_ok [OF ok] None by simp
next
  case (Some x)
  obtain sp m' where x: "x = (sp, m')" by (cases x)
  have sa: "space_added U (roots S) T H m (primary sp) m'" using new_process_space_ok [OF ok] Some x by simp
  then obtain T' H' where ok': "vm_ok U (insert (primary sp) (roots S)) T' H' m'" by (auto simp: space_added_def)
  have a: "vm_ok U (insert (primary sp) (roots S)) T' H' (activate_address_space sp m')" "vm_ok U (roots S) T H (activate_address_space (kernel_space m) m)"
    using ok ok' vm_okD(7) [OF ok] by (simp_all add: vm_ok_def activate_address_space_def kernel_space_def del: tab_at.simps)
  have "translate (activate_address_space sp m') w = translate (activate_address_space (kernel_space m) m) w" for w
    unfolding translate_mapping [OF a(1)] translate_mapping [OF a(2)] using sa by (simp add: space_added_def activate_address_space_def kernel_space_def)
  then show ?thesis using sa Some x by (auto simp: space_added_def fun_eq_iff)
qed

text \<open>
  (C37) Lookup after insert for the page tables.  In every reachable kernel \<open>map_page\<close> fails only for
  an address whose 2 MiB region has no table entry or when no frame is free; when it succeeds, the
  walk of the active tables finds the requested frame and protection for every address of the page
  and answers as before for every other address, and exactly this page is flushed.  The same holds of
  \<open>install_guard_page\<close>, after which the page is unmapped, and of \<open>map_user_page\<close> in the window of a
  process, which moreover leaves every other address space as it was.  \<open>new_process_space\<close> fails only
  without the frames it needs, and the new space starts as the kernel's own.
\<close>

theorem page_edits:
  assumes boot: "paging_booted region_at bi E0 r0 L m0" and reach: "vreach m0 (m, S)"
  shows "(case map_page va pa prot m of
        None \<Rightarrow> \<not> covered (ptab m) (cr3 m) va \<or> free_frame_count (vframes m) = 0
      | Some m' \<Rightarrow> looks_up m va (\<lambda>w. Some (nxt pa + (w AND mask 12), prot_wx prot)) m')
    \<and> (case install_guard_page va m of
        None \<Rightarrow> \<not> covered (ptab m) (cr3 m) va \<or> free_frame_count (vframes m) = 0
      | Some m' \<Rightarrow> looks_up m va (\<lambda>w. None) m')
    \<and> (window (path va) \<and> cr3 m \<noteq> KERNEL_PML4 m \<longrightarrow>
       (case map_user_page va pa prot d m of
        None \<Rightarrow> \<not> covered (ptab m) (cr3 m) va \<or> free_frame_count (vframes m) = 0
      | Some m' \<Rightarrow> looks_up m va (\<lambda>w. Some (nxt pa + (w AND mask 12), prot_wx prot)) m'
          \<and> (\<forall>r\<in>roots S. r \<noteq> cr3 m \<longrightarrow> mapping (ptab m') r = mapping (ptab m) r)))
    \<and> (case new_process_space m of
        None \<Rightarrow> unat (free_frame_count (vframes m)) < 3 + card (split_at (ptab m) (KERNEL_PML4 m))
      | Some (sp, m') \<Rightarrow> primary sp \<notin> roots S \<and> (\<forall>r\<in>roots S. mapping (ptab m') r = mapping (ptab m) r)
          \<and> (\<forall>w. translate (activate_address_space sp m') w = translate (activate_address_space (kernel_space m) m) w))"
proof -
  obtain U where v: "vinv U (m, S)" using vreach_inv [OF reach boot] by blast
  then obtain T H where ok: "vm_ok U (roots S) T H m" by (rule vinvE)
  have V: "(\<lambda>w. map_option (\<lambda>(pa, w, x, _). (pa, w, x)) (page_view pa prot usr w)) = (\<lambda>w. Some (nxt pa + (w AND mask 12), prot_wx prot))" for usr
    by (simp add: fun_eq_iff page_view_def)
  note L = sets_page_lookup [OF ok] and N = no_table_no_frame [OF ok]
  have "case map_page va pa prot m of
        None \<Rightarrow> \<not> covered (ptab m) (cr3 m) va \<or> free_frame_count (vframes m) = 0
      | Some m' \<Rightarrow> looks_up m va (\<lambda>w. Some (nxt pa + (w AND mask 12), prot_wx prot)) m'"
    using map_page_ok [OF ok, of va pa prot] L [of va "page_view pa prot False", unfolded V] N by (auto split: option.splits)
  moreover have "case install_guard_page va m of
        None \<Rightarrow> \<not> covered (ptab m) (cr3 m) va \<or> free_frame_count (vframes m) = 0
      | Some m' \<Rightarrow> looks_up m va (\<lambda>w. None) m'"
    using install_guard_page_ok [OF ok, of va] L [of va "\<lambda>_. None"] N by (auto split: option.splits)
  moreover have "case map_user_page va pa prot d m of
        None \<Rightarrow> \<not> covered (ptab m) (cr3 m) va \<or> free_frame_count (vframes m) = 0
      | Some m' \<Rightarrow> looks_up m va (\<lambda>w. Some (nxt pa + (w AND mask 12), prot_wx prot)) m'
          \<and> (\<forall>r\<in>roots S. r \<noteq> cr3 m \<longrightarrow> mapping (ptab m') r = mapping (ptab m) r)" if w: "window (path va)" "cr3 m \<noteq> KERNEL_PML4 m"
  proof -
    have o: "mapping (ptab m') r = mapping (ptab m) r" if "sets_page U (roots S) T H va f m m'" "r \<in> roots S" "r \<noteq> cr3 m" for f m' r
      using that w(1) unfolding sets_page_def page_set_def by (auto simp: fun_eq_iff)
    show ?thesis using map_user_page_ok [OF ok w, of pa prot d] L [of va "page_view pa prot True", unfolded V] N o by (auto split: option.splits)
  qed
  ultimately show ?thesis using new_space_view [OF ok] by blast
qed

theorem page_edits_witness:
  "\<exists>m0 m S pa m'. paging_booted paging_map paging_info loader_tables 0x1000 paging_symbols m0 \<and> vreach m0 (m, S)
     \<and> map_user_page 0x40000000 pa Rw 0 m = Some m' \<and> translate m' 0x40000123 = Some (Some (pa + 0x123)) \<and> page_prot m' 0x40000123 = Some (Some (True, False))
     \<and> translate m' 0x40001000 = translate m 0x40001000"
proof -
  obtain m0 where boot: "paging_booted paging_map paging_info loader_tables 0x1000 paging_symbols m0" using demo_paging_booted by blast
  obtain r pa m S where D: "vreach m0 (m, S)" "r \<in> roots S" "r \<noteq> KERNEL_PML4 m" "KERNEL_PML4 m \<in> roots S" "cr3 m = r"
    "in_data pa (held_data S)" "nxt pa = pa" "\<forall>prot. map_user_page 0x40000000 pa prot 0 m \<noteq> None" using demo_user_page [OF boot] .
  obtain m' where m': "map_user_page 0x40000000 pa Rw 0 m = Some m'" using D(8) by blast
  have w: "window (path 0x40000000)" and p: "path 0x40000123 = path 0x40000000" "path 0x40001000 \<noteq> path 0x40000000" and o: "(0x40000123 :: u64) AND mask 12 = 0x123" by code_simp+
  have "looks_up m 0x40000000 (\<lambda>w. Some (nxt pa + (w AND mask 12), prot_wx Rw)) m'"
    using page_edits [OF boot D(1), of "0x40000000" pa Rw 0] m' w D(3,5) by simp
  then show ?thesis using boot D(1,7) m' p o unfolding looks_up_def
    by (intro exI [of _ m0] exI [of _ m] exI [of _ S] exI [of _ pa] exI [of _ m']) simp
qed

end
