(* ===== verification/Kernel_Loader.thy ===== *)
theory Kernel_Loader
  imports Arch_Reach Abi_Pex CSpace_Grant
begin

text \<open>
  The loader of \<^verbatim>\<open>src/kernel/src/loader/mod.rs\<close>: a hostile image is parsed, its segments are copied into
  frames retyped from the loader's untyped memory and mapped, and the capabilities its manifest
  declares are derived from the loader's own authority into the new process's space.
\<close>

section \<open>State and errors\<close>

definition LOADER_SLOTS :: usize where "LOADER_SLOTS = 32"
definition PROCESS_SLOTS :: usize where "PROCESS_SLOTS = 16"
definition L_UNTYPED :: cptr where "L_UNTYPED = 0"
definition L_SCHED :: cptr where "L_SCHED = 1"
definition L_ENDPOINT :: cptr where "L_ENDPOINT = 2"
definition L_SCRATCH :: cptr where "L_SCRATCH = 8"
definition PROC_VA_BASE :: u64 where "PROC_VA_BASE = 0x40000000"
definition PROC_VA_END :: u64 where "PROC_VA_END = 0x80000000"
definition PEX_ARCH :: u16 where "PEX_ARCH = ARCH_X86_64"

datatype load_error =
    PexE pex_error | UnknownManifestType u8 | BadRights | BadSegmentRef | SegmentVaddrOutOfRange | DestSlotOutOfRange | CapE cap_error

record loaded =
  ld_entry :: u64
  ld_budget :: u32
  ld_domain :: u64

text \<open>
  What \<open>load\<close> reads and writes: the two capability spaces, the slot cursor, the paging machine, the
  copies into frames (virtual address and bytes) and the ranges made coherent for execution.
\<close>

record lstate =
  l_loader :: cspace
  l_proc :: cspace
  l_scratch :: cptr
  l_vm :: vm
  l_copied :: "(u64 \<times> bytes) list"
  l_synced :: "(u64 \<times> usize) list"

type_synonym 'a load_step = "lstate \<Rightarrow> (load_error, 'a) outcome \<times> lstate"

text \<open>Sequencing with \<open>?\<close>: an early return or a trap keeps the state reached so far.\<close>

definition sbind :: "'a load_step \<Rightarrow> ('a \<Rightarrow> 'b load_step) \<Rightarrow> 'b load_step" where
  "sbind f g st = (case f st of (Ok a, st') \<Rightarrow> g a st' | (Err e, st') \<Rightarrow> (Err e, st') | (Panic, st') \<Rightarrow> (Panic, st'))"

definition sret :: "(load_error, 'a) outcome \<Rightarrow> 'a load_step" where
  "sret r st = (r, st)"

fun map_err :: "('e \<Rightarrow> 'f) \<Rightarrow> ('e, 'a) outcome \<Rightarrow> ('f, 'a) outcome" where
  "map_err h (Ok a) = Ok a"
| "map_err h (Err e) = Err (h e)"
| "map_err h Panic = Panic"

fun cap_result :: "cap_error + 'a \<Rightarrow> (load_error, 'a) outcome" where
  "cap_result (Inl e) = Err (CapE e)"
| "cap_result (Inr a) = Ok a"

section \<open>Segments\<close>

definition perm_to_prot :: "u8 \<Rightarrow> prot" where
  "perm_to_prot p = (if p AND PERM_X \<noteq> 0 then Rx else if p AND PERM_W \<noteq> 0 then Rw else Ro)"

definition try_u32 :: "u64 \<Rightarrow> u32 option" where
  "try_u32 w = (if unat w < 2 ^ 32 then Some (ucast w) else None)"

definition take_scratch :: "cptr load_step" where
  "take_scratch st = (case checked_add_usize (l_scratch st) 1 of
     None \<Rightarrow> (Panic, st)
   | Some n \<Rightarrow> (Ok (l_scratch st), st\<lparr>l_scratch := n\<rparr>))"

definition on_loader :: "(cspace \<Rightarrow> (cap_error, unit) outcome \<times> cspace) \<Rightarrow> unit load_step" where
  "on_loader f st = (case f (l_loader st) of (r, cs) \<Rightarrow> (map_err CapE r, st\<lparr>l_loader := cs\<rparr>))"

definition map_segment_page :: "bool \<Rightarrow> u64 \<Rightarrow> segment \<Rightarrow> u32 \<Rightarrow> nat \<Rightarrow> vm \<Rightarrow> vm option" where
  "map_segment_page user_accessible domain_id s frame0 k m = do {
     off \<leftarrow> checked_mul (of_nat k) 0x1000;
     va \<leftarrow> checked_add (vaddr s) off;
     p \<leftarrow> checked_add frame0 (of_nat k);
     (if user_accessible then map_user_page va (pfn_to_phys p) (perm_to_prot (perm s)) domain_id m
      else map_page va (pfn_to_phys p) (perm_to_prot (perm s)) m)
   }"

definition place_segment :: "pex \<Rightarrow> u64 \<Rightarrow> bool \<Rightarrow> usize \<Rightarrow> segment \<Rightarrow> u32 \<Rightarrow> cptr \<Rightarrow> unit load_step" where
  "place_segment p domain_id user_accessible i s npages frame_slot =
     sbind (on_loader (\<lambda>cs. retype cs L_UNTYPED Frame npages 1 frame_slot)) (\<lambda>_.
     sbind (\<lambda>st. (cap_result (resolve (l_loader st) frame_slot), st)) (\<lambda>c.
     let frame0 = ucast (objref c) :: u32 in
     sbind (\<lambda>st. (or_trap (phys_to_virt (vhhdm (l_vm st)) (pfn_to_phys frame0)), st)) (\<lambda>hhdm.
     sbind (sret (or_trap (segment_data p i))) (\<lambda>data.
     sbind (\<lambda>st. (Ok (), st\<lparr>l_copied := l_copied st @ [(hhdm, data)],
         l_synced := l_synced st @ (if perm s AND PERM_X \<noteq> 0 then [(hhdm, unat npages * 4096)] else [])\<rparr>)) (\<lambda>_.
     (\<lambda>st. case for_each (map_segment_page user_accessible domain_id s frame0) [0..<unat npages] (l_vm st) of
        None \<Rightarrow> (Panic, st)
      | Some m \<Rightarrow> (Ok (), st\<lparr>l_vm := m\<rparr>)))))))"

definition load_segment :: "pex \<Rightarrow> u64 \<Rightarrow> bool \<Rightarrow> usize \<Rightarrow> cptr option list \<Rightarrow> cptr option list load_step" where
  "load_segment p domain_id user_accessible i seg_frames =
     sbind (sret (or_trap (segment_at p i))) (\<lambda>s.
     sbind (sret (or_err SegmentVaddrOutOfRange (checked_add (vaddr s) (mem_size s)))) (\<lambda>seg_end.
     if vaddr s < PROC_VA_BASE \<or> seg_end > PROC_VA_END then sret (Err SegmentVaddrOutOfRange)
     else sbind (sret (or_err (PexE SegmentTooLarge) (try_u32 (drop_bit 12 (mem_size s))))) (\<lambda>npages.
     sbind take_scratch (\<lambda>frame_slot.
     sbind (place_segment p domain_id user_accessible i s npages frame_slot) (\<lambda>_.
     sret (or_trap (upd seg_frames i (Some frame_slot))))))))"

fun load_segments :: "pex \<Rightarrow> u64 \<Rightarrow> bool \<Rightarrow> usize list \<Rightarrow> cptr option list \<Rightarrow> cptr option list load_step" where
  "load_segments p domain_id user_accessible [] seg_frames = sret (Ok seg_frames)"
| "load_segments p domain_id user_accessible (i # is) seg_frames =
     sbind (load_segment p domain_id user_accessible i seg_frames) (\<lambda>f. load_segments p domain_id user_accessible is f)"

section \<open>The manifest\<close>

definition grant_step :: "cptr \<Rightarrow> cptr \<Rightarrow> rights \<Rightarrow> u64 \<Rightarrow> grant_mode \<Rightarrow> unit load_step" where
  "grant_step src dest r b mode st =
     (case grant (l_loader st) src (l_proc st) dest r b mode of (res, cs, pr) \<Rightarrow> (cap_result res, st\<lparr>l_loader := cs, l_proc := pr\<rparr>))"

definition load_entry :: "cptr option list \<Rightarrow> manifest_entry \<Rightarrow> u32 \<Rightarrow> u32 load_step" where
  "load_entry seg_frames e budget =
     (let dest = unat (me_dest_slot e) in
      if PROCESS_SLOTS \<le> dest then sret (Err DestSlotOutOfRange)
      else sbind (sret (or_err BadRights (from_bits (me_rights e)))) (\<lambda>r.
        if me_cap_type e = MANIFEST_SCHED
        then sbind take_scratch (\<lambda>child.
          sbind (on_loader (\<lambda>cs. split_sched cs L_SCHED child (ucast (me_param0 e)))) (\<lambda>_.
          sbind (grant_step child dest r 0 Move) (\<lambda>_. sret (Ok (ucast (me_param0 e))))))
        else if me_cap_type e = MANIFEST_ENDPOINT
        then sbind (grant_step L_ENDPOINT dest r (me_param0 e) Mint) (\<lambda>_. sret (Ok budget))
        else if me_cap_type e = MANIFEST_FRAME
        then sbind (sret (or_err BadSegmentRef (Option.bind (idx seg_frames (unat (me_param0 e))) (\<lambda>f. f)))) (\<lambda>src.
          sbind (grant_step src dest r 0 Mint) (\<lambda>_. sret (Ok budget)))
        else sret (Err (UnknownManifestType (me_cap_type e)))))"

fun load_manifest :: "pex \<Rightarrow> cptr option list \<Rightarrow> usize list \<Rightarrow> u32 \<Rightarrow> u32 load_step" where
  "load_manifest p seg_frames [] budget = sret (Ok budget)"
| "load_manifest p seg_frames (i # is) budget =
     sbind (sret (or_trap (manifest_at p i))) (\<lambda>e.
     sbind (load_entry seg_frames e budget) (\<lambda>b. load_manifest p seg_frames is b))"

definition load :: "bytes \<Rightarrow> u64 \<Rightarrow> bool \<Rightarrow> loaded load_step" where
  "load img domain_id user_accessible =
     sbind (sret (map_err PexE (pex_parse img PEX_ARCH))) (\<lambda>p.
     sbind (load_segments p domain_id user_accessible [0..<segment_count p] (replicate MAX_SEGMENTS None)) (\<lambda>seg_frames.
     sbind (load_manifest p seg_frames [0..<manifest_count p] 0) (\<lambda>budget.
     sret (Ok \<lparr>ld_entry = pex_entry p, ld_budget = budget, ld_domain = domain_id\<rparr>))))"

definition occupied_slots :: "cspace \<Rightarrow> nat" where
  "occupied_slots cs = length (filter (\<lambda>s. case resolve cs s of Inr _ \<Rightarrow> True | Inl _ \<Rightarrow> False) [0..<PROCESS_SLOTS])"

section \<open>The loader's authority\<close>

datatype loader_fatal = NoFramesForLoader | NoLoaderEndpoint cap_error

definition authority :: "frames_state \<Rightarrow> (loader_fatal, cspace \<times> frames_state) outcome" where
  "authority g = obind (or_trap (alloc_frames g 6)) (\<lambda>(r, g').
     obind (or_err NoFramesForLoader r) (\<lambda>phys.
       let base = ucast (phys_to_pfn phys) :: u64 in
       (case set_root_untyped (cspace_new LOADER_SLOTS) base 64 of (r1, cs1) \<Rightarrow>
        obind (map_err NoLoaderEndpoint r1) (\<lambda>_.
       (case set_root_sched cs1 L_SCHED 1000 1000 of (r2, cs2) \<Rightarrow>
        obind (map_err NoLoaderEndpoint r2) (\<lambda>_.
       (case retype cs2 L_UNTYPED Endpoint 1 1 L_ENDPOINT of (r3, cs3) \<Rightarrow>
        obind (map_err NoLoaderEndpoint r3) (\<lambda>_. Ok (cs3, g')))))))))"

section \<open>Sequencing\<close>

lemma sbind_Ok: "sbind f g st = (Ok b, st2) \<longleftrightarrow> (\<exists>a st1. f st = (Ok a, st1) \<and> g a st1 = (Ok b, st2))"
  by (auto simp: sbind_def split: prod.splits outcome.splits)

lemma sret_Ok: "sret r st = (x, st1) \<longleftrightarrow> r = x \<and> st1 = st"
  by (auto simp: sret_def)

lemma or_trap_Ok [simp]: "or_trap x = Ok a \<longleftrightarrow> x = Some a"
  by (cases x) simp_all

lemma map_err_Ok [simp]: "map_err h r = Ok a \<longleftrightarrow> r = Ok a"
  by (cases r) simp_all

lemma cap_result_Ok [simp]: "cap_result r = Ok a \<longleftrightarrow> r = Inr a"
  by (cases r) simp_all

lemma take_scratch_Ok: "take_scratch st = (Ok k, st1) \<longleftrightarrow> l_scratch st < usize_max \<and> k = l_scratch st \<and> st1 = st\<lparr>l_scratch := l_scratch st + 1\<rparr>"
  by (auto simp: take_scratch_def checked_add_usize_def split: option.splits if_splits)

lemma on_loader_Ok: "on_loader f st = (Ok u, st1) \<longleftrightarrow> (\<exists>cs. f (l_loader st) = (Ok u, cs) \<and> st1 = st\<lparr>l_loader := cs\<rparr>)"
  by (auto simp: on_loader_def split: prod.splits)

lemma grant_step_Ok: "grant_step src dest r b mode st = (Ok u, st1) \<longleftrightarrow>
    (\<exists>cs pr. grant (l_loader st) src (l_proc st) dest r b mode = (Inr u, cs, pr) \<and> st1 = st\<lparr>l_loader := cs, l_proc := pr\<rparr>)"
  by (auto simp: grant_step_def split: prod.splits)

lemmas load_steps = sbind_Ok sret_Ok take_scratch_Ok on_loader_Ok

text \<open>A property of the state that every part of a sequence keeps.\<close>

definition keeps_inv :: "(lstate \<Rightarrow> bool) \<Rightarrow> 'a load_step \<Rightarrow> bool" where
  "keeps_inv I f \<longleftrightarrow> (\<forall>st. I st \<longrightarrow> I (snd (f st)))"

lemma keeps_sret: "keeps_inv I (sret r)"
  by (simp add: keeps_inv_def sret_def)

lemma keeps_read: "keeps_inv I (\<lambda>st. (h st, st))"
  by (simp add: keeps_inv_def)

lemma keeps_if: "keeps_inv I f \<Longrightarrow> keeps_inv I g \<Longrightarrow> keeps_inv I (if c then f else g)"
  by simp

lemma keeps_sbind: "keeps_inv I f \<Longrightarrow> (\<And>a. keeps_inv I (g a)) \<Longrightarrow> keeps_inv I (sbind f g)"
proof (unfold keeps_inv_def, intro allI impI)
  fix st assume f: "\<forall>st. I st \<longrightarrow> I (snd (f st))" and g: "\<And>a. \<forall>st. I st \<longrightarrow> I (snd (g a st))" and st: "I st"
  obtain r st1 where r: "f st = (r, st1)" by (cases "f st")
  have "I st1" using f st r by force
  then show "I (snd (sbind f g st))" using r g by (cases r) (simp_all add: sbind_def)
qed

lemmas keeps_rules = keeps_if keeps_sbind keeps_sret

section \<open>The capability spaces\<close>

definition spaces_wf :: "lstate \<Rightarrow> bool" where
  "spaces_wf st \<longleftrightarrow> wf_cspace (l_loader st) \<and> wf_cspace (l_proc st)"

lemma keeps_scratch: "(\<And>st n. I st \<Longrightarrow> I (st\<lparr>l_scratch := n\<rparr>)) \<Longrightarrow> keeps_inv I take_scratch"
  by (simp add: keeps_inv_def take_scratch_def split: option.splits)

lemma grant_wf:
  assumes "wf_cspace src" "wf_cspace dst" "grant src s dst d r b mode = (res, src', dst')"
  shows "wf_cspace src' \<and> wf_cspace dst'"
proof (cases res)
  case (Inl e)
  then show ?thesis using assms by (auto simp: grant_def split: sum.splits if_splits)
next
  case (Inr u)
  then show ?thesis using grant_Inr(1,2) [of src dst s d r b mode u src' dst'] assms by simp
qed

lemma keeps_wf_grant: "keeps_inv spaces_wf (grant_step src dest r b mode)"
  unfolding keeps_inv_def spaces_wf_def
proof (intro allI impI, elim conjE)
  fix st :: lstate assume w: "wf_cspace (l_loader st)" "wf_cspace (l_proc st)"
  obtain res cs pr where g: "grant (l_loader st) src (l_proc st) dest r b mode = (res, cs, pr)" by (metis prod_cases3)
  show "wf_cspace (l_loader (snd (grant_step src dest r b mode st))) \<and> wf_cspace (l_proc (snd (grant_step src dest r b mode st)))"
    using grant_wf [OF w g] by (simp add: grant_step_def g)
qed

lemma keeps_wf_loader: "(\<And>cs. wf_cspace cs \<Longrightarrow> wf_cspace (snd (f cs))) \<Longrightarrow> keeps_inv spaces_wf (on_loader f)"
  unfolding keeps_inv_def spaces_wf_def on_loader_def by (auto simp: case_prod_beta)

lemma keeps_wf_entry: "keeps_inv spaces_wf (load_entry f e b)"
  unfolding load_entry_def Let_def
  by (intro keeps_rules keeps_scratch keeps_wf_grant keeps_wf_loader split_sched_wf) (simp_all add: spaces_wf_def)

lemma keeps_wf_manifest: "keeps_inv spaces_wf (load_manifest p f is b)"
  by (induction "is" arbitrary: b) (simp_all add: keeps_rules keeps_wf_entry)

lemma keeps_wf_segment: "keeps_inv spaces_wf (load_segment p d ua i f)"
proof -
  have "keeps_inv spaces_wf (place_segment p d ua i s n k)" for s n k
    unfolding place_segment_def Let_def
    by (intro keeps_rules keeps_wf_loader retype_wf) (auto simp: keeps_inv_def spaces_wf_def split: option.splits)
  then show ?thesis unfolding load_segment_def
    by (intro keeps_rules keeps_scratch) (simp_all add: spaces_wf_def)
qed

lemma keeps_wf_segments: "keeps_inv spaces_wf (load_segments p d ua is f)"
  by (induction "is" arbitrary: f) (simp_all add: keeps_rules keeps_wf_segment)

lemma load_wf: "spaces_wf st \<Longrightarrow> spaces_wf (snd (load img d ua st))"
proof -
  have "keeps_inv spaces_wf (load img d ua)" unfolding load_def by (intro keeps_rules keeps_wf_segments keeps_wf_manifest)
  then show "spaces_wf st \<Longrightarrow> spaces_wf (snd (load img d ua st))" by (simp add: keeps_inv_def)
qed

section \<open>One segment\<close>

definition seg_count_pages :: "segment \<Rightarrow> nat" where "seg_count_pages s = unat (mem_size s) div 4096"

definition in_window :: "segment \<Rightarrow> bool" where
  "in_window s \<longleftrightarrow> 2 ^ 30 \<le> unat (vaddr s) \<and> unat (vaddr s) + unat (mem_size s) \<le> 2 ^ 31"

lemma try_u32_pages: "try_u32 (drop_bit 12 w) = Some n \<Longrightarrow> unat n = unat w div 4096"
proof -
  assume a: "try_u32 (drop_bit 12 w) = Some n"
  have d: "unat (drop_bit 12 w) = unat w div 4096"
    using unat_bound [of w] by (simp only: unsigned_drop_bit_eq) (simp add: drop_bit_eq_div take_bit_nat_eq_self)
  have b: "unat (drop_bit 12 w) < 2 ^ 32" and n: "n = ucast (drop_bit 12 w)" using a by (auto simp: try_u32_def split: if_splits)
  have "unat n = unat (drop_bit 12 w) mod 2 ^ 32" unfolding n by (simp add: unsigned_ucast_eq take_bit_eq_mod)
  then show "unat n = unat w div 4096" using b d by simp
qed

definition frame_cap :: "u64 \<Rightarrow> u32 \<Rightarrow> raw_cap" where
  "frame_cap b n = \<lparr>cap_type = Frame, rights = default_rights Frame, objref = b, csize = n, watermark = 0, aux = 0, badge = 0\<rparr>"

lemma retype_frame:
  assumes wf: "wf_cspace cs" and r: "retype cs L_UNTYPED Frame n 1 k = (Ok (), cs')"
  shows "type_at cs 0 = Untyped" "0 < nslots cs" "k < nslots cs" "is_null (cap_at cs k)" "0 < unat n"
    "unat (retype_base cs 0) = unat (objref (cap_at cs 0)) + unat (watermark (cap_at cs 0))"
    "unat (watermark (cap_at cs 0)) + unat n \<le> unat (csize (cap_at cs 0))"
    "slots cs' = (slots cs)[0 := (slots cs ! 0)\<lparr>cap := (cap_at cs 0)\<lparr>watermark := watermark (cap_at cs 0) + n\<rparr>\<rparr>,
       k := \<lparr>cap = frame_cap (retype_base cs 0) n, parent = 0\<rparr>]"
proof -
  have ok: "retype_ok cs 0 Frame n 1 k" using retype_Err [OF wf] r by (fastforce simp: L_UNTYPED_def)
  then have dn: "cs' = retype_done cs 0 Frame n 1 k" using retype_Ok [OF wf] r by (simp add: L_UNTYPED_def)
  show O: "type_at cs 0 = Untyped" "0 < nslots cs" "k < nslots cs" "is_null (cap_at cs k)" "0 < unat n"
    "unat (watermark (cap_at cs 0)) + unat n \<le> unat (csize (cap_at cs 0))" using ok by (auto simp: retype_ok_def)
  show "unat (retype_base cs 0) = unat (objref (cap_at cs 0)) + unat (watermark (cap_at cs 0))"
    using retype_base_unat(2) [OF wf O(2,1)] O(5,6) by simp
  show "slots cs' = (slots cs)[0 := (slots cs ! 0)\<lparr>cap := (cap_at cs 0)\<lparr>watermark := watermark (cap_at cs 0) + n\<rparr>\<rparr>,
       k := \<lparr>cap = frame_cap (retype_base cs 0) n, parent = 0\<rparr>]"
    unfolding dn by (simp add: retype_done_def Let_def retype_cte_def frame_cap_def)
qed

lemma load_segment_Ok:
  assumes run: "load_segment p d ua i f st = (Ok f', st')" and wf: "wf_cspace (l_loader st)"
  obtains s n h data where "segment_at p i = Some s" "in_window s" "unat n = seg_count_pages s" "i < length f" "f' = f[i := Some (l_scratch st)]"
    "retype (l_loader st) L_UNTYPED Frame n 1 (l_scratch st) = (Ok (), l_loader st')" "l_proc st' = l_proc st" "l_scratch st' = l_scratch st + 1"
    "for_each (map_segment_page ua d s (ucast (retype_base (l_loader st) 0))) [0..<unat n] (l_vm st) = Some (l_vm st')"
    "segment_data p i = Some data" "phys_to_virt (vhhdm (l_vm st)) (pfn_to_phys (ucast (retype_base (l_loader st) 0))) = Some h"
    "l_copied st' = l_copied st @ [(h, data)]"
proof -
  from run obtain s e n where s: "segment_at p i = Some s" "checked_add (vaddr s) (mem_size s) = Some e" "\<not> (vaddr s < PROC_VA_BASE \<or> e > PROC_VA_END)"
    "try_u32 (drop_bit 12 (mem_size s)) = Some n"
    and pl: "place_segment p d ua i s n (l_scratch st) (st\<lparr>l_scratch := l_scratch st + 1\<rparr>) = (Ok (), st')" and u: "upd f i (Some (l_scratch st)) = Some f'"
    by (auto simp: load_segment_def load_steps split: if_splits)
  let ?k = "l_scratch st"
  from pl obtain cs c h data m where r: "retype (l_loader st) L_UNTYPED Frame n 1 ?k = (Ok (), cs)" and c: "resolve cs ?k = Inr c"
    and h: "phys_to_virt (vhhdm (l_vm st)) (pfn_to_phys (ucast (objref c))) = Some h" and dt: "segment_data p i = Some data"
    and m: "for_each (map_segment_page ua d s (ucast (objref c))) [0..<unat n] (l_vm st) = Some m"
    and st': "l_loader st' = cs" "l_proc st' = l_proc st" "l_scratch st' = ?k + 1" "l_vm st' = m" "l_copied st' = l_copied st @ [(h, data)]"
    by (auto simp: place_segment_def load_steps Let_def split: option.splits)
  have "objref c = retype_base (l_loader st) 0"
    using retype_frame(3,8) [OF wf r] c by (auto simp: resolve_def frame_cap_def)
  moreover have "in_window s" using s(2,3) by (auto simp: in_window_def checked_add_Some PROC_VA_BASE_def PROC_VA_END_def word_less_nat_alt)
  ultimately show thesis
    using that [OF s(1) _ try_u32_pages [OF s(4), folded seg_count_pages_def]] u r h dt m st' by (simp add: upd_def split: if_splits)
qed

text \<open>A failing call leaves the property as it was.\<close>

definition fails_keep :: "(lstate \<Rightarrow> bool) \<Rightarrow> 'a load_step \<Rightarrow> bool" where
  "fails_keep I f \<longleftrightarrow> (\<forall>st. I st \<longrightarrow> (\<forall>a. fst (f st) \<noteq> Ok a) \<longrightarrow> I (snd (f st)))"

lemma keeps_fails: "keeps_inv I f \<Longrightarrow> fails_keep I f"
  by (simp add: keeps_inv_def fails_keep_def)

lemma fails_sbind: "keeps_inv I f \<Longrightarrow> (\<And>a. fails_keep I (g a)) \<Longrightarrow> fails_keep I (sbind f g)"
  unfolding fails_keep_def
proof (intro allI impI)
  fix st :: lstate assume f: "keeps_inv I f" and g: "\<And>a. \<forall>st. I st \<longrightarrow> (\<forall>b. fst (g a st) \<noteq> Ok b) \<longrightarrow> I (snd (g a st))"
    and st: "I st" and no: "\<forall>b. fst (sbind f g st) \<noteq> Ok b"
  obtain r st1 where r: "f st = (r, st1)" by (cases "f st")
  have "I st1" using f st r by (force simp: keeps_inv_def)
  then show "I (snd (sbind f g st))" using r g no by (cases r) (simp_all add: sbind_def)
qed

lemma fails_if: "fails_keep I f \<Longrightarrow> fails_keep I g \<Longrightarrow> fails_keep I (if c then f else g)"
  by simp

lemmas fails_sret = keeps_fails [OF keeps_sret]

lemma fails_then: "fails_keep I f \<Longrightarrow> fails_keep I (sbind f (\<lambda>a. sret (Ok (h a))))"
  unfolding fails_keep_def by (auto simp: sbind_def sret_def split: prod.splits outcome.splits)

lemma load_segment_vm:
  assumes i: "i < length f"
  shows "fails_keep (\<lambda>st. l_vm st = m) (load_segment p d ua i f)"
proof -
  have pl: "fails_keep (\<lambda>st. l_vm st = m) (place_segment p d ua i s n k)" for s n k
    unfolding place_segment_def Let_def
    by (intro fails_sbind keeps_sret keeps_read) (auto simp: keeps_inv_def fails_keep_def on_loader_def split: option.splits prod.splits)
  have u: "or_trap (upd f i x) = Ok (f[i := x])" for x using i by (simp add: upd_def)
  show ?thesis unfolding load_segment_def u
    by (intro fails_if fails_sret fails_then [OF pl] fails_sbind keeps_sret keeps_scratch) simp_all
qed


section \<open>All segments\<close>

text \<open>The loader's authority: the fixed slots hold an untyped region, a budget and an endpoint.\<close>

definition loader_ready :: "cspace \<Rightarrow> bool" where
  "loader_ready cs \<longleftrightarrow> wf_cspace cs \<and> 2 < nslots cs \<and> type_at cs L_UNTYPED = Untyped \<and> type_at cs L_SCHED = Sched \<and> type_at cs L_ENDPOINT = Endpoint"

lemmas loader_slots = L_UNTYPED_def L_SCHED_def L_ENDPOINT_def

text \<open>Slot \<open>k\<close> holds the frames of a segment, taken from the region of the untyped capability \<open>u\<close>.\<close>

definition seg_frame :: "raw_cap \<Rightarrow> cspace \<Rightarrow> cptr \<Rightarrow> segment \<Rightarrow> bool" where
  "seg_frame u cs k s \<longleftrightarrow> k < nslots cs \<and> (\<exists>b n. cap_at cs k = frame_cap b n \<and> unat n = seg_count_pages s
     \<and> unat (objref u) \<le> unat b \<and> unat b + unat n \<le> unat (objref u) + unat (csize u))"

definition seg_base :: "cspace \<Rightarrow> cptr \<Rightarrow> u32" where "seg_base cs k = ucast (objref (cap_at cs k))"

definition segs_done :: "pex \<Rightarrow> lstate \<Rightarrow> nat \<Rightarrow> cptr option list \<Rightarrow> lstate \<Rightarrow> bool" where
  "segs_done p st0 j f st \<longleftrightarrow> loader_ready (l_loader st) \<and> l_proc st = l_proc st0 \<and> l_scratch st = l_scratch st0 + j
     \<and> nslots (l_loader st) = nslots (l_loader st0) \<and> length f = MAX_SEGMENTS
     \<and> (\<forall>i<MAX_SEGMENTS. f ! i = (if i < j then Some (l_scratch st0 + i) else None))
     \<and> (\<forall>i<j. \<exists>s. segment_at p i = Some s \<and> in_window s \<and> seg_frame (cap_at (l_loader st0) L_UNTYPED) (l_loader st) (l_scratch st0 + i) s)
     \<and> (\<forall>k<nslots (l_loader st0). k \<noteq> L_UNTYPED \<longrightarrow> \<not> is_null (cap_at (l_loader st0) k) \<longrightarrow> cap_at (l_loader st) k = cap_at (l_loader st0) k)
     \<and> objref (cap_at (l_loader st) L_UNTYPED) = objref (cap_at (l_loader st0) L_UNTYPED)
     \<and> csize (cap_at (l_loader st) L_UNTYPED) = csize (cap_at (l_loader st0) L_UNTYPED)"

lemma segs_done_step:
  assumes D: "segs_done p st0 j f st" and run: "load_segment p d ua j f st = (Ok f', st')"
  shows "segs_done p st0 (Suc j) f' st'"
proof -
  have L: "loader_ready (l_loader st)" "l_proc st = l_proc st0" "l_scratch st = l_scratch st0 + j" "nslots (l_loader st) = nslots (l_loader st0)" "length f = MAX_SEGMENTS"
    and F: "\<And>i. i < MAX_SEGMENTS \<Longrightarrow> f ! i = (if i < j then Some (l_scratch st0 + i) else None)"
    and G: "\<And>i. i < j \<Longrightarrow> \<exists>s. segment_at p i = Some s \<and> in_window s \<and> seg_frame (cap_at (l_loader st0) L_UNTYPED) (l_loader st) (l_scratch st0 + i) s"
    and P: "\<And>k. k < nslots (l_loader st0) \<Longrightarrow> k \<noteq> L_UNTYPED \<Longrightarrow> \<not> is_null (cap_at (l_loader st0) k) \<Longrightarrow> cap_at (l_loader st) k = cap_at (l_loader st0) k"
    and U: "objref (cap_at (l_loader st) L_UNTYPED) = objref (cap_at (l_loader st0) L_UNTYPED)" "csize (cap_at (l_loader st) L_UNTYPED) = csize (cap_at (l_loader st0) L_UNTYPED)"
    using D unfolding segs_done_def by blast+
  have wf: "wf_cspace (l_loader st)" using L(1) by (simp add: loader_ready_def)
  show ?thesis
  proof (rule load_segment_Ok [OF run wf])
    fix s n assume s: "segment_at p j = Some s" "in_window s" "unat n = seg_count_pages s" and f': "j < length f" "f' = f[j := Some (l_scratch st)]"
      and r: "retype (l_loader st) L_UNTYPED Frame n 1 (l_scratch st) = (Ok (), l_loader st')" and st': "l_proc st' = l_proc st" "l_scratch st' = l_scratch st + 1"
    note R = retype_frame [OF wf r]
    let ?k = "l_scratch st"
    have len: "nslots (l_loader st') = nslots (l_loader st)" using R(8) by simp
    have k0: "?k \<noteq> 0" using R(1,4) by (cases "?k = 0") (auto simp: is_null_def)
    have same: "cap_at (l_loader st') i = cap_at (l_loader st) i" if "i \<noteq> ?k" "i \<noteq> 0" for i using that R(8) by simp
    have zero: "cap_at (l_loader st') 0 = (cap_at (l_loader st) 0)\<lparr>watermark := watermark (cap_at (l_loader st) 0) + n\<rparr>" using R(2,8) k0 by simp
    have new: "cap_at (l_loader st') ?k = frame_cap (retype_base (l_loader st) 0) n" using R(3,8) k0 by simp
    have live: "?k \<noteq> i" if "\<not> is_null (cap_at (l_loader st) i)" for i using that R(4) by auto
    have ready: "loader_ready (l_loader st')"
      using L(1) len zero same [of 1] same [of 2] live [of 1] live [of 2] keeps_wf_segment [of p d ua j f] retype_wf [OF wf, of L_UNTYPED Frame n 1 ?k] r
      by (auto simp: loader_ready_def loader_slots is_null_def)
    have nl: "i \<noteq> ?k \<and> i \<noteq> 0" if "seg_frame u (l_loader st) i s" for i u s
      using that live [of i] R(1) by (cases "i = 0") (auto simp: seg_frame_def frame_cap_def is_null_def)
    have "\<exists>s. segment_at p i = Some s \<and> in_window s \<and> seg_frame (cap_at (l_loader st0) L_UNTYPED) (l_loader st') (l_scratch st0 + i) s" if "i < Suc j" for i
    proof (cases "i < j")
      case True
      then obtain s where s: "segment_at p i = Some s" "in_window s" "seg_frame (cap_at (l_loader st0) L_UNTYPED) (l_loader st) (l_scratch st0 + i) s" using G by blast
      have "cap_at (l_loader st') (l_scratch st0 + i) = cap_at (l_loader st) (l_scratch st0 + i)" using nl [OF s(3)] same by blast
      then show ?thesis using s len by (simp add: seg_frame_def)
    next
      case False
      then have "i = j" using that by simp
      have "seg_frame (cap_at (l_loader st0) L_UNTYPED) (l_loader st') ?k s"
        unfolding seg_frame_def using s(3) R(3,6,7) new len U
        by (intro conjI exI [of _ "retype_base (l_loader st) 0"] exI [of _ n]) (simp_all add: loader_slots)
      then show ?thesis using s(1,2) L(3) \<open>i = j\<close> by simp
    qed
    moreover have "f' ! i = (if i < Suc j then Some (l_scratch st0 + i) else None)" if "i < MAX_SEGMENTS" for i
      using F [OF that] f' L(3) by (auto simp: nth_list_update less_Suc_eq)
    moreover have "cap_at (l_loader st') k = cap_at (l_loader st0) k" if "k < nslots (l_loader st0)" "k \<noteq> L_UNTYPED" "\<not> is_null (cap_at (l_loader st0) k)" for k
      using P [OF that] same [of k] live [of k] that by (auto simp: loader_slots)
    ultimately show ?thesis using ready st' L len f' U zero unfolding segs_done_def by (simp add: loader_slots)
  qed
qed


section \<open>The manifest\<close>

text \<open>Nothing but the loader's budget differs, and slots empty before and after.\<close>

definition but_sched :: "cspace \<Rightarrow> cspace \<Rightarrow> bool" where
  "but_sched cs cs' \<longleftrightarrow> nslots cs' = nslots cs \<and> rights (cap_at cs' L_SCHED) = rights (cap_at cs L_SCHED) \<and> cap_type (cap_at cs' L_SCHED) = cap_type (cap_at cs L_SCHED)
     \<and> aux (cap_at cs' L_SCHED) = aux (cap_at cs L_SCHED)
     \<and> (\<forall>k<nslots cs. k \<noteq> L_SCHED \<longrightarrow> cap_at cs' k = cap_at cs k \<or> is_null (cap_at cs k) \<and> is_null (cap_at cs' k))"

lemma but_sched_refl [simp]: "but_sched cs cs"
  by (simp add: but_sched_def)

lemma but_sched_trans: "but_sched a b \<Longrightarrow> but_sched b c \<Longrightarrow> but_sched a c"
  unfolding but_sched_def by (metis (no_types, opaque_lifting))

lemma but_sched_live: "but_sched cs cs' \<Longrightarrow> k < nslots cs \<Longrightarrow> k \<noteq> L_SCHED \<Longrightarrow> \<not> is_null (cap_at cs' k) \<Longrightarrow> cap_at cs' k = cap_at cs k"
  by (auto simp: but_sched_def)

lemma but_sched_ready: "but_sched cs cs' \<Longrightarrow> wf_cspace cs' \<Longrightarrow> loader_ready cs \<Longrightarrow> loader_ready cs'"
proof -
  assume b: "but_sched cs cs'" and w: "wf_cspace cs'" and r: "loader_ready cs"
  have "cap_at cs' k = cap_at cs k" if "k < nslots cs" "k \<noteq> L_SCHED" "\<not> is_null (cap_at cs k)" for k using b that unfolding but_sched_def by blast
  note k = this [of L_UNTYPED] this [of L_ENDPOINT]
  have "slots cs \<noteq> []" using r by (auto simp: loader_ready_def)
  then show "loader_ready cs'"
    using b w r k unfolding but_sched_def loader_ready_def by (auto simp: is_null_def loader_slots)
qed

definition sched_share :: "manifest_entry \<Rightarrow> nat" where
  "sched_share e = (if me_cap_type e = MANIFEST_SCHED then unat (ucast (me_param0 e) :: u32) else 0)"

definition bind_budget :: "manifest_entry \<Rightarrow> u32 \<Rightarrow> u32" where
  "bind_budget e b = (if me_cap_type e = MANIFEST_SCHED then ucast (me_param0 e) else b)"

text \<open>The capability of the loader that an entry asks for, and what the process gets of it.\<close>

definition manifest_cap :: "cspace \<Rightarrow> cptr option list \<Rightarrow> manifest_entry \<Rightarrow> raw_cap \<Rightarrow> bool" where
  "manifest_cap cs f e c \<longleftrightarrow>
     (if me_cap_type e = MANIFEST_SCHED
      then cap_type c = Sched \<and> rights c = rights (cap_at cs L_SCHED) \<and> csize c = ucast (me_param0 e) \<and> watermark c = 0 \<and> aux c = aux (cap_at cs L_SCHED)
      else if me_cap_type e = MANIFEST_ENDPOINT then c = cap_at cs L_ENDPOINT
      else me_cap_type e = MANIFEST_FRAME \<and> (\<exists>k. unat (me_param0 e) < length f \<and> f ! unat (me_param0 e) = Some k \<and> k < nslots cs \<and> c = cap_at cs k))"

definition granted_cap :: "manifest_entry \<Rightarrow> raw_cap \<Rightarrow> raw_cap" where
  "granted_cap e c = c\<lparr>rights := me_rights e, badge := if me_cap_type e = MANIFEST_ENDPOINT then me_param0 e else 0\<rparr>"

definition entry_granted :: "cptr option list \<Rightarrow> manifest_entry \<Rightarrow> cspace \<Rightarrow> raw_cap \<Rightarrow> bool" where
  "entry_granted f e cs c \<longleftrightarrow> manifest_cap cs f e c \<and> \<not> is_null c \<and> (me_cap_type e = MANIFEST_SCHED \<or> cap_type c \<noteq> Sched) \<and> contains (rights c) GRANT \<and> subset_of (me_rights e) (rights c)"

definition entry_done :: "cptr option list \<Rightarrow> manifest_entry \<Rightarrow> lstate \<Rightarrow> lstate \<Rightarrow> bool" where
  "entry_done f e st st' \<longleftrightarrow> (\<exists>c. entry_granted f e (l_loader st) c \<and> unat (me_dest_slot e) < PROCESS_SLOTS \<and> unat (me_dest_slot e) < nslots (l_proc st)
     \<and> is_null (cap_at (l_proc st) (unat (me_dest_slot e)))
     \<and> l_proc st' = set_slot (l_proc st) (unat (me_dest_slot e)) \<lparr>cap = granted_cap e c, parent = NIL\<rparr>)
   \<and> but_sched (l_loader st) (l_loader st')
   \<and> unat (csize (cap_at (l_loader st) L_SCHED)) = unat (csize (cap_at (l_loader st') L_SCHED)) + sched_share e"

lemma manifest_tags: "MANIFEST_ENDPOINT \<noteq> MANIFEST_SCHED" "MANIFEST_FRAME \<noteq> MANIFEST_SCHED" "MANIFEST_FRAME \<noteq> MANIFEST_ENDPOINT"
  by (simp_all add: MANIFEST_SCHED_def MANIFEST_ENDPOINT_def MANIFEST_FRAME_def)

lemma mint_entry:
  assumes wf: "spaces_wf st" and g: "grant_step k (unat (me_dest_slot e)) (me_rights e) (if me_cap_type e = MANIFEST_ENDPOINT then me_param0 e else 0) Mint st = (Ok u, st')"
    and d: "unat (me_dest_slot e) < PROCESS_SLOTS" and t: "me_cap_type e \<noteq> MANIFEST_SCHED" and c: "k < nslots (l_loader st) \<Longrightarrow> manifest_cap (l_loader st) f e (cap_at (l_loader st) k)"
  shows "entry_done f e st st'"
proof -
  have w: "wf_cspace (l_loader st)" "wf_cspace (l_proc st)" using wf by (simp_all add: spaces_wf_def)
  have gr: "grant (l_loader st) k (l_proc st) (unat (me_dest_slot e)) (me_rights e) (if me_cap_type e = MANIFEST_ENDPOINT then me_param0 e else 0) Mint
    = (Inr u, l_loader st', l_proc st')" using g by (auto simp: grant_step_Ok)
  note G = grant_Inr [OF w gr]
  show ?thesis unfolding entry_done_def
    using G(3-6,10-13) G(9) [OF refl] d t c by (auto simp: entry_granted_def granted_cap_def sched_share_def intro!: exI [of _ "cap_at (l_loader st) k"])
qed

lemma from_bits_Some [simp]: "from_bits b = Some r \<longleftrightarrow> b AND NOT rights_ALL = 0 \<and> r = b"
  by (auto simp: from_bits_def)

lemma sched_entry:
  assumes wf: "spaces_wf st" and t: "me_cap_type e = MANIFEST_SCHED" and d: "unat (me_dest_slot e) < PROCESS_SLOTS"
    and sp: "split_sched (l_loader st) L_SCHED k (ucast (me_param0 e)) = (Ok (), cs)"
    and g: "grant cs k (l_proc st) (unat (me_dest_slot e)) (me_rights e) 0 Move = (Inr u, l_loader st', l_proc st')"
  shows "entry_done f e st st'"
proof -
  let ?l = "l_loader st" let ?a = "ucast (me_param0 e) :: u32"
  have w: "wf_cspace ?l" "wf_cspace (l_proc st)" using wf by (simp_all add: spaces_wf_def)
  have wc: "wf_cspace cs" using split_sched_wf [OF w(1), of L_SCHED k ?a] sp by simp
  note G = grant_Inr [OF wc w(2) g]
  show ?thesis
  proof (rule split_sched_cases [of ?l L_SCHED k ?a])
    fix par child assume S: "L_SCHED < nslots ?l" "type_at ?l L_SCHED = Sched" "k < nslots ?l" "is_null (cap_at ?l k)"
      "budget_split (from_cap (cap_at ?l L_SCHED)) ?a = Some (par, child)"
      and sl: "slots (snd (split_sched ?l L_SCHED k ?a)) = (slots ?l)[k := \<lparr>cap = split_child ?l L_SCHED child, parent = L_SCHED\<rparr>,
                    L_SCHED := (slots ?l ! L_SCHED)\<lparr>cap := write_into par (cap_at ?l L_SCHED)\<rparr>]"
    note B = budget_split_Some [OF S(5)]
    have k1: "k \<noteq> L_SCHED" using S(2,4) by (auto simp: is_null_def)
    have sl': "slots cs = (slots ?l)[k := \<lparr>cap = split_child ?l L_SCHED child, parent = L_SCHED\<rparr>,
        L_SCHED := (slots ?l ! L_SCHED)\<lparr>cap := write_into par (cap_at ?l L_SCHED)\<rparr>]" using sl sp by simp
    have c: "cap_at cs k = split_child ?l L_SCHED child" using sl' S(1,3) k1 by simp
    have l': "slots (l_loader st') = (slots cs)[k := EMPTY]" using G(13) by simp
    have sch: "cap_at (l_loader st') L_SCHED = write_into par (cap_at ?l L_SCHED)" using l' sl' S(1) k1 by simp
    have "but_sched ?l (l_loader st')" unfolding but_sched_def using l' sl' S(1,3,4) sch B(7) k1 by (auto simp: nth_list_update)
    moreover have "unat (csize (cap_at ?l L_SCHED)) = unat (csize (cap_at (l_loader st') L_SCHED)) + sched_share e"
      using B(1,3) sch t by (simp add: sched_share_def)
    moreover have "entry_granted f e ?l (cap_at cs k)"
      unfolding entry_granted_def manifest_cap_def using G(4-6) c B(3-5) t by (simp add: split_child_def)
    ultimately show ?thesis unfolding entry_done_def
      using G(10-12) d t manifest_tags by (auto simp: granted_cap_def intro!: exI [of _ "cap_at cs k"])
  qed (use sp in auto)
qed

lemma load_entry_Ok:
  assumes wf: "spaces_wf st" and run: "load_entry f e b st = (Ok b', st')"
  shows "entry_done f e st st'" "b' = bind_budget e b"
proof -
  have d: "unat (me_dest_slot e) < PROCESS_SLOTS" using run by (auto simp: load_entry_def Let_def sret_def split: if_splits)
  consider "me_cap_type e = MANIFEST_SCHED" | "me_cap_type e = MANIFEST_ENDPOINT" | "me_cap_type e = MANIFEST_FRAME"
    using run by (auto simp: load_entry_def Let_def load_steps split: if_splits)
  then have "entry_done f e st st' \<and> b' = bind_budget e b"
  proof cases
    case 1
    with run d obtain k cs u where "split_sched (l_loader st) L_SCHED k (ucast (me_param0 e)) = (Ok (), cs)"
      "grant cs k (l_proc st) (unat (me_dest_slot e)) (me_rights e) 0 Move = (Inr u, l_loader st', l_proc st')" "b' = ucast (me_param0 e)"
      by (auto simp: load_entry_def Let_def load_steps grant_step_Ok)
    then show ?thesis using sched_entry [OF wf 1 d] 1 by (auto simp: bind_budget_def)
  next
    case 2
    with run d have "grant_step L_ENDPOINT (unat (me_dest_slot e)) (me_rights e) (if me_cap_type e = MANIFEST_ENDPOINT then me_param0 e else 0) Mint st = (Ok (), st')" "b' = b"
      by (auto simp: load_entry_def Let_def load_steps manifest_tags)
    then show ?thesis using mint_entry [OF wf _ d] 2 manifest_tags by (auto simp: manifest_cap_def bind_budget_def)
  next
    case 3
    with run d obtain k where k: "idx f (unat (me_param0 e)) = Some (Some k)"
      and g: "grant_step k (unat (me_dest_slot e)) (me_rights e) (if me_cap_type e = MANIFEST_ENDPOINT then me_param0 e else 0) Mint st = (Ok (), st')" "b' = b"
      by (auto simp: load_entry_def Let_def load_steps manifest_tags bind_eq_Some_conv)
    then show ?thesis using mint_entry [OF wf g(1) d, of f] 3 manifest_tags by (auto simp: manifest_cap_def bind_budget_def idx_def split: if_splits)
  qed
  then show "entry_done f e st st'" "b' = bind_budget e b" by simp_all
qed


section \<open>The whole load\<close>

abbreviation entry_of :: "pex \<Rightarrow> nat \<Rightarrow> manifest_entry" where "entry_of p i \<equiv> the (manifest_at p i)"
abbreviation entry_slot :: "pex \<Rightarrow> nat \<Rightarrow> cptr" where "entry_slot p i \<equiv> unat (me_dest_slot (entry_of p i))"

definition man_done :: "pex \<Rightarrow> cptr option list \<Rightarrow> lstate \<Rightarrow> nat \<Rightarrow> u32 \<Rightarrow> lstate \<Rightarrow> bool" where
  "man_done p f st0 j b st \<longleftrightarrow> spaces_wf st \<and> but_sched (l_loader st0) (l_loader st) \<and> nslots (l_proc st) = nslots (l_proc st0)
     \<and> (\<forall>i<j. manifest_at p i \<noteq> None \<and> entry_slot p i < PROCESS_SLOTS \<and> entry_slot p i < nslots (l_proc st0)
          \<and> (\<exists>c. entry_granted f (entry_of p i) (l_loader st0) c \<and> cap_at (l_proc st) (entry_slot p i) = granted_cap (entry_of p i) c))
     \<and> inj_on (entry_slot p) {..<j} \<and> (\<forall>k. k \<notin> entry_slot p ` {..<j} \<longrightarrow> cap_at (l_proc st) k = cap_at (l_proc st0) k)
     \<and> unat (csize (cap_at (l_loader st0) L_SCHED)) = unat (csize (cap_at (l_loader st) L_SCHED)) + (\<Sum>i<j. sched_share (entry_of p i))
     \<and> b = fold bind_budget (map (entry_of p) [0..<j]) 0"

lemma granted_cap_null [simp]: "is_null (granted_cap e c) = is_null c"
  by (simp add: granted_cap_def is_null_def)

lemma entry_granted_back:
  assumes g: "entry_granted f e cs' c" and b: "but_sched cs cs'" and r: "loader_ready cs"
  shows "entry_granted f e cs c"
proof -
  have s: "cap_type (cap_at cs' L_SCHED) = Sched" "rights (cap_at cs' L_SCHED) = rights (cap_at cs L_SCHED)" "aux (cap_at cs' L_SCHED) = aux (cap_at cs L_SCHED)"
    and n: "nslots cs' = nslots cs" "L_ENDPOINT < nslots cs" using b r by (auto simp: but_sched_def loader_ready_def loader_slots)
  have same: "cap_at cs' k = cap_at cs k" if "k < nslots cs" "c = cap_at cs' k" "me_cap_type e \<noteq> MANIFEST_SCHED" for k
    using but_sched_live [OF b that(1)] g that s(1) by (auto simp: entry_granted_def)
  show ?thesis using g s(2,3) n same unfolding entry_granted_def manifest_cap_def by (auto split: if_splits)
qed

lemma man_done_step:
  assumes D: "man_done p f st0 j b st" and r: "loader_ready (l_loader st0)" and m: "manifest_at p j = Some e" and run: "load_entry f e b st = (Ok b', st')"
  shows "man_done p f st0 (Suc j) b' st'"
proof -
  have wf: "spaces_wf st" and B: "but_sched (l_loader st0) (l_loader st)" and N: "nslots (l_proc st) = nslots (l_proc st0)"
    and E: "\<And>i. i < j \<Longrightarrow> manifest_at p i \<noteq> None \<and> entry_slot p i < PROCESS_SLOTS \<and> entry_slot p i < nslots (l_proc st0)
          \<and> (\<exists>c. entry_granted f (entry_of p i) (l_loader st0) c \<and> cap_at (l_proc st) (entry_slot p i) = granted_cap (entry_of p i) c)"
    and I: "inj_on (entry_slot p) {..<j}" and O: "\<And>k. k \<notin> entry_slot p ` {..<j} \<Longrightarrow> cap_at (l_proc st) k = cap_at (l_proc st0) k"
    and S: "unat (csize (cap_at (l_loader st0) L_SCHED)) = unat (csize (cap_at (l_loader st) L_SCHED)) + (\<Sum>i<j. sched_share (entry_of p i))"
    and b: "b = fold bind_budget (map (entry_of p) [0..<j]) 0" using D unfolding man_done_def by blast+
  let ?k = "unat (me_dest_slot e)"
  have e: "entry_of p j = e" using m by simp
  obtain c where c: "entry_granted f e (l_loader st) c" "?k < PROCESS_SLOTS" "?k < nslots (l_proc st)" "is_null (cap_at (l_proc st) ?k)"
    "l_proc st' = set_slot (l_proc st) ?k \<lparr>cap = granted_cap e c, parent = NIL\<rparr>"
    and B': "but_sched (l_loader st) (l_loader st')" and S': "unat (csize (cap_at (l_loader st) L_SCHED)) = unat (csize (cap_at (l_loader st') L_SCHED)) + sched_share e"
    using load_entry_Ok(1) [OF wf run] unfolding entry_done_def by blast
  have new: "?k \<noteq> entry_slot p i" if i: "i < j" for i
  proof
    assume eq: "?k = entry_slot p i"
    obtain c' where "entry_granted f (entry_of p i) (l_loader st0) c'" "cap_at (l_proc st) ?k = granted_cap (entry_of p i) c'" using E [OF i] eq by auto
    then show False using c(4) by (simp add: entry_granted_def)
  qed
  have w': "spaces_wf st'" using keeps_wf_entry [of f e b] wf run by (metis keeps_inv_def snd_conv)
  have "manifest_at p i \<noteq> None \<and> entry_slot p i < PROCESS_SLOTS \<and> entry_slot p i < nslots (l_proc st0)
      \<and> (\<exists>c. entry_granted f (entry_of p i) (l_loader st0) c \<and> cap_at (l_proc st') (entry_slot p i) = granted_cap (entry_of p i) c)" if "i < Suc j" for i
  proof (cases "i = j")
    case True
    then show ?thesis using m c N entry_granted_back [OF c(1) B r] by auto
  next
    case False
    then have "i < j" using that by simp
    then show ?thesis using E [of i] new [of i] c(5) by simp
  qed
  moreover have "inj_on (entry_slot p) {..<Suc j}" using I new e by (auto simp: lessThan_Suc)
  moreover have "cap_at (l_proc st') k = cap_at (l_proc st0) k" if "k \<notin> entry_slot p ` {..<Suc j}" for k
    using that O [of k] e c(5) by (auto simp: lessThan_Suc)
  moreover have "b' = fold bind_budget (map (entry_of p) [0..<Suc j]) 0" using load_entry_Ok(2) [OF wf run] b e by simp
  ultimately show ?thesis unfolding man_done_def using w' but_sched_trans [OF B B'] N c(5) S S' e by (simp add: lessThan_Suc)
qed

lemma load_manifest_done:
  "man_done p f st0 j b st \<Longrightarrow> loader_ready (l_loader st0) \<Longrightarrow> j \<le> n \<Longrightarrow> load_manifest p f [j..<n] b st = (Ok b', st') \<Longrightarrow> man_done p f st0 n b' st'"
proof (induction "n - j" arbitrary: j b st)
  case 0
  then show ?case by (simp add: sret_Ok)
next
  case (Suc x)
  then have j: "[j..<n] = j # [Suc j..<n]" "Suc j \<le> n" "x = n - Suc j" by (simp_all add: upt_conv_Cons)
  obtain e b1 st1 where s: "manifest_at p j = Some e" "load_entry f e b st = (Ok b1, st1)" "load_manifest p f [Suc j..<n] b1 st1 = (Ok b', st')"
    using Suc.prems(4) unfolding j(1) by (auto simp: load_steps)
  show ?case by (rule Suc.hyps(1) [OF j(3) man_done_step [OF Suc.prems(1,2) s(1,2)] Suc.prems(2) j(2) s(3)])
qed

lemma load_segments_done:
  "segs_done p st0 j f st \<Longrightarrow> j \<le> n \<Longrightarrow> load_segments p d ua [j..<n] f st = (Ok f', st') \<Longrightarrow> segs_done p st0 n f' st'"
proof (induction "n - j" arbitrary: j f st)
  case 0
  then show ?case by (simp add: sret_Ok)
next
  case (Suc x)
  then have j: "[j..<n] = j # [Suc j..<n]" "Suc j \<le> n" "x = n - Suc j" by (simp_all add: upt_conv_Cons)
  obtain f1 st1 where s: "load_segment p d ua j f st = (Ok f1, st1)" "load_segments p d ua [Suc j..<n] f1 st1 = (Ok f', st')"
    using Suc.prems(3) unfolding j(1) by (auto simp: load_steps)
  show ?case by (rule Suc.hyps(1) [OF j(3) segs_done_step [OF Suc.prems(1) s(1)] j(2) s(2)])
qed

lemma segs_done_start: "loader_ready (l_loader st) \<Longrightarrow> segs_done p st 0 (replicate MAX_SEGMENTS None) st"
  by (simp add: segs_done_def)

lemma load_Ok:
  assumes r: "loader_ready (l_loader st)" and w: "wf_cspace (l_proc st)" and run: "load img d ua st = (Ok ld, st')"
  obtains p f st1 where "pex_parse img PEX_ARCH = Ok p" "segs_done p st (segment_count p) f st1"
    "load_segments p d ua [0..<segment_count p] (replicate MAX_SEGMENTS None) st = (Ok f, st1)"
    "load_manifest p f [0..<manifest_count p] 0 st1 = (Ok (ld_budget ld), st')"
    "man_done p f st1 (manifest_count p) (ld_budget ld) st'" "ld_entry ld = pex_entry p" "ld_domain ld = d"
proof -
  obtain p f st1 b where L: "pex_parse img PEX_ARCH = Ok p" "load_segments p d ua [0..<segment_count p] (replicate MAX_SEGMENTS None) st = (Ok f, st1)"
    "load_manifest p f [0..<manifest_count p] 0 st1 = (Ok b, st')" "ld = \<lparr>ld_entry = pex_entry p, ld_budget = b, ld_domain = d\<rparr>"
    using run by (auto simp: load_def load_steps)
  have D: "segs_done p st (segment_count p) f st1" by (rule load_segments_done [OF segs_done_start [OF r] _ L(2)]) simp
  have R: "loader_ready (l_loader st1)" "l_proc st1 = l_proc st" using D by (auto simp: segs_done_def)
  have "man_done p f st1 0 0 st1" using R w by (simp add: man_done_def spaces_wf_def loader_ready_def)
  then have "man_done p f st1 (manifest_count p) b st'" by (rule load_manifest_done [OF _ R(1) _ L(3)]) simp
  then show thesis using that L D by simp
qed

definition entry_source :: "pex \<Rightarrow> lstate \<Rightarrow> lstate \<Rightarrow> manifest_entry \<Rightarrow> raw_cap \<Rightarrow> bool" where
  "entry_source p st st' e c \<longleftrightarrow>
     (if me_cap_type e = MANIFEST_SCHED
      then cap_type c = Sched \<and> rights c = rights (cap_at (l_loader st) L_SCHED) \<and> csize c = ucast (me_param0 e) \<and> watermark c = 0
        \<and> aux c = aux (cap_at (l_loader st) L_SCHED)
      else if me_cap_type e = MANIFEST_ENDPOINT then c = cap_at (l_loader st) L_ENDPOINT
      else me_cap_type e = MANIFEST_FRAME \<and> unat (me_param0 e) < segment_count p \<and> c = cap_at (l_loader st') (l_scratch st + unat (me_param0 e))
        \<and> seg_frame (cap_at (l_loader st) L_UNTYPED) (l_loader st') (l_scratch st + unat (me_param0 e)) (the (segment_at p (unat (me_param0 e)))))"

lemma seg_frame_kept:
  assumes b: "but_sched cs cs'" and r: "loader_ready cs" and s: "seg_frame u cs k s"
  shows "cap_at cs' k = cap_at cs k" "seg_frame u cs' k s"
proof -
  have k: "k < nslots cs" "\<not> is_null (cap_at cs k)" "cap_type (cap_at cs k) = Frame" using s by (auto simp: seg_frame_def frame_cap_def is_null_def)
  then have "k \<noteq> L_SCHED" using r by (auto simp: loader_ready_def)
  then show "cap_at cs' k = cap_at cs k" using b k unfolding but_sched_def by blast
  then show "seg_frame u cs' k s" using s b by (simp add: seg_frame_def but_sched_def)
qed

lemma entry_source_granted:
  assumes D: "segs_done p st n f st1" and n: "n = segment_count p" and b: "but_sched (l_loader st1) (l_loader st')" and r: "loader_ready (l_loader st)"
    and g: "entry_granted f e (l_loader st1) c"
  shows "entry_source p st st' e c"
proof -
  have R: "loader_ready (l_loader st1)" and F: "length f = MAX_SEGMENTS" "\<And>i. i < MAX_SEGMENTS \<Longrightarrow> f ! i = (if i < n then Some (l_scratch st + i) else None)"
    and G: "\<And>i. i < n \<Longrightarrow> \<exists>s. segment_at p i = Some s \<and> seg_frame (cap_at (l_loader st) L_UNTYPED) (l_loader st1) (l_scratch st + i) s"
    and P: "\<And>k. k < nslots (l_loader st) \<Longrightarrow> k \<noteq> L_UNTYPED \<Longrightarrow> \<not> is_null (cap_at (l_loader st) k) \<Longrightarrow> cap_at (l_loader st1) k = cap_at (l_loader st) k"
    using D unfolding segs_done_def by blast+
  have fixed: "cap_at (l_loader st1) L_SCHED = cap_at (l_loader st) L_SCHED" "cap_at (l_loader st1) L_ENDPOINT = cap_at (l_loader st) L_ENDPOINT"
    using P [of L_SCHED] P [of L_ENDPOINT] r by (auto simp: loader_ready_def loader_slots is_null_def)
  have m: "manifest_cap (l_loader st1) f e c" using g by (simp add: entry_granted_def)
  show ?thesis
  proof (cases "me_cap_type e = MANIFEST_SCHED \<or> me_cap_type e = MANIFEST_ENDPOINT")
    case True
    then show ?thesis using m fixed by (auto simp: entry_source_def manifest_cap_def split: if_splits)
  next
    case False
    let ?i = "unat (me_param0 e)"
    obtain k where k: "me_cap_type e = MANIFEST_FRAME" "?i < length f" "f ! ?i = Some k" "c = cap_at (l_loader st1) k" using m False by (auto simp: manifest_cap_def)
    then have i: "?i < n" "k = l_scratch st + ?i" using F(2) [of ?i] F(1) by (auto split: if_splits)
    obtain s where s: "segment_at p ?i = Some s" "seg_frame (cap_at (l_loader st) L_UNTYPED) (l_loader st1) k s" using G [OF i(1)] i(2) by auto
    show ?thesis using False k i s seg_frame_kept [OF b R s(2)] n by (auto simp: entry_source_def)
  qed
qed

lemma occupied_slots_card:
  assumes "nslots cs = PROCESS_SLOTS" "inj_on g {..<n}" "\<And>i. i < n \<Longrightarrow> g i < PROCESS_SLOTS" "\<And>k. k < PROCESS_SLOTS \<Longrightarrow> \<not> is_null (cap_at cs k) \<longleftrightarrow> k \<in> g ` {..<n}"
  shows "occupied_slots cs = n"
proof -
  have live: "(case resolve cs k of Inr _ \<Rightarrow> True | Inl _ \<Rightarrow> False) \<longleftrightarrow> k \<in> g ` {..<n}" if "k < PROCESS_SLOTS" for k
    using assms(1) assms(4) [OF that] that by (auto simp: resolve_def live_def)
  have "occupied_slots cs = card {k. k < PROCESS_SLOTS \<and> (case resolve cs k of Inr _ \<Rightarrow> True | Inl _ \<Rightarrow> False)}"
    unfolding occupied_slots_def length_filter_conv_card by (rule arg_cong [of _ _ card]) auto
  also have "{k. k < PROCESS_SLOTS \<and> (case resolve cs k of Inr _ \<Rightarrow> True | Inl _ \<Rightarrow> False)} = g ` {..<n}" using live assms(3) by auto
  finally show ?thesis using card_image [OF assms(2)] by simp
qed

lemma man_done_occupied:
  assumes M: "man_done p f st0 n b st" and N: "nslots (l_proc st0) = PROCESS_SLOTS" and empty: "\<And>k. k < PROCESS_SLOTS \<Longrightarrow> is_null (cap_at (l_proc st0) k)"
  shows "occupied_slots (l_proc st) = n"
proof (rule occupied_slots_card [of _ "entry_slot p"])
  have E: "\<And>i. i < n \<Longrightarrow> \<exists>c. entry_granted f (entry_of p i) (l_loader st0) c \<and> cap_at (l_proc st) (entry_slot p i) = granted_cap (entry_of p i) c"
    and O: "\<And>k. k \<notin> entry_slot p ` {..<n} \<Longrightarrow> cap_at (l_proc st) k = cap_at (l_proc st0) k" using M unfolding man_done_def by blast+
  show "\<not> is_null (cap_at (l_proc st) k) \<longleftrightarrow> k \<in> entry_slot p ` {..<n}" if k: "k < PROCESS_SLOTS" for k
  proof (cases "k \<in> entry_slot p ` {..<n}")
    case True
    then obtain i where i: "i < n" "k = entry_slot p i" by auto
    obtain c where "entry_granted f (entry_of p i) (l_loader st0) c" "cap_at (l_proc st) k = granted_cap (entry_of p i) c" using E [OF i(1)] i(2) by auto
    then show ?thesis using True by (simp add: entry_granted_def)
  next
    case False
    then show ?thesis using O [OF False] empty [OF k] by simp
  qed
qed (use M N in \<open>auto simp: man_done_def\<close>)

text \<open>
  (C39) The loader gives a process exactly what its manifest declares.  Starting from a loader that
  holds its authority and an empty process space, whatever the image, both spaces stay well-formed.
  When the load succeeds the image was valid, the process holds one capability per manifest entry and
  nothing else, each in its declared slot with exactly the declared rights, which the loader's own
  grantable capability had: a budget split off the loader's, the loader's endpoint with the declared
  badge, or the frames of a segment taken from the loader's untyped memory.  The budgets given away
  are debited from the loader's, the budget bound is that of the last budget entry, and the loader
  keeps its authority for the next load.
\<close>

theorem loader_capabilities:
  assumes r: "loader_ready (l_loader st)" and w: "wf_cspace (l_proc st)" "nslots (l_proc st) = PROCESS_SLOTS"
    and empty: "\<forall>k<PROCESS_SLOTS. is_null (cap_at (l_proc st) k)" and run: "load img d ua st = (res, st')"
  shows "wf_cspace (l_loader st') \<and> wf_cspace (l_proc st') \<and>
    (case res of Err e \<Rightarrow> True | Panic \<Rightarrow> True | Ok ld \<Rightarrow>
      (\<exists>p. pex_parse img PEX_ARCH = Ok p \<and> ld_entry ld = pex_entry p \<and> ld_domain ld = d \<and> loader_ready (l_loader st')
        \<and> occupied_slots (l_proc st') = manifest_count p \<and> inj_on (entry_slot p) {..<manifest_count p}
        \<and> (\<forall>i<manifest_count p. \<exists>e c. manifest_at p i = Some e \<and> unat (me_dest_slot e) < PROCESS_SLOTS
             \<and> cap_at (l_proc st') (unat (me_dest_slot e)) = granted_cap e c
             \<and> contains (rights c) GRANT \<and> subset_of (me_rights e) (rights c) \<and> entry_source p st st' e c)
        \<and> unat (csize (cap_at (l_loader st) L_SCHED)) = unat (csize (cap_at (l_loader st') L_SCHED)) + (\<Sum>i<manifest_count p. sched_share (entry_of p i))
        \<and> ld_budget ld = fold bind_budget (map (entry_of p) [0..<manifest_count p]) 0))"
proof -
  have wf: "spaces_wf st'" using load_wf [of st img d ua] r w run by (simp add: spaces_wf_def loader_ready_def)
  show ?thesis
  proof (cases res)
    case (Ok ld)
    show ?thesis
    proof (rule load_Ok [OF r w(1) run [unfolded Ok]])
      fix p f st1 assume p: "pex_parse img PEX_ARCH = outcome.Ok p" and D: "segs_done p st (segment_count p) f st1"
        and M: "man_done p f st1 (manifest_count p) (ld_budget ld) st'" and ld: "ld_entry ld = pex_entry p" "ld_domain ld = d"
      let ?n = "manifest_count p"
      have B: "but_sched (l_loader st1) (l_loader st')" and I: "inj_on (entry_slot p) {..<?n}"
        and E: "\<And>i. i < ?n \<Longrightarrow> manifest_at p i \<noteq> None \<and> entry_slot p i < PROCESS_SLOTS
          \<and> (\<exists>c. entry_granted f (entry_of p i) (l_loader st1) c \<and> cap_at (l_proc st') (entry_slot p i) = granted_cap (entry_of p i) c)"
        and S: "unat (csize (cap_at (l_loader st1) L_SCHED)) = unat (csize (cap_at (l_loader st') L_SCHED)) + (\<Sum>i<?n. sched_share (entry_of p i))"
        and b: "ld_budget ld = fold bind_budget (map (entry_of p) [0..<?n]) 0" using M unfolding man_done_def by blast+
      have s1: "loader_ready (l_loader st1)" "l_proc st1 = l_proc st" "cap_at (l_loader st1) L_SCHED = cap_at (l_loader st) L_SCHED"
        using D r by (auto simp: segs_done_def loader_ready_def loader_slots is_null_def)
      have ready: "loader_ready (l_loader st')" using but_sched_ready [OF B _ s1(1)] wf by (simp add: spaces_wf_def)
      have occ: "occupied_slots (l_proc st') = ?n" by (rule man_done_occupied [OF M]) (use s1(2) w(2) empty in auto)
      have "\<exists>e c. manifest_at p i = Some e \<and> unat (me_dest_slot e) < PROCESS_SLOTS \<and> cap_at (l_proc st') (unat (me_dest_slot e)) = granted_cap e c
          \<and> contains (rights c) GRANT \<and> subset_of (me_rights e) (rights c) \<and> entry_source p st st' e c" if i: "i < ?n" for i
      proof -
        obtain c where c: "entry_granted f (entry_of p i) (l_loader st1) c" "cap_at (l_proc st') (entry_slot p i) = granted_cap (entry_of p i) c" using E [OF i] by blast
        show ?thesis using E [OF i] c entry_source_granted [OF D refl B r c(1)]
          by (intro exI [of _ "entry_of p i"] exI [of _ c]) (auto simp: entry_granted_def)
      qed
      then show ?thesis using Ok p ld ready occ I S b wf s1(3) by (auto simp: spaces_wf_def)
    qed
  qed (use wf in \<open>auto simp: spaces_wf_def\<close>)
qed


section \<open>The pages of the process\<close>

definition seg_list :: "segment \<Rightarrow> u32 \<Rightarrow> nat \<Rightarrow> (nat list \<times> u64 \<times> prot) list" where
  "seg_list s b n = map (\<lambda>k. (path (vaddr s + of_nat (4096 * k)), (pfn_to_phys (b + of_nat k), perm_to_prot (perm s)))) [0..<n]"

text \<open>The pages of the first \<open>n\<close> segments in loading order; slot \<open>sc + i\<close> holds the frames of segment \<open>i\<close>.\<close>

definition image_pages :: "pex \<Rightarrow> cspace \<Rightarrow> cptr \<Rightarrow> nat \<Rightarrow> (nat list \<times> u64 \<times> prot) list" where
  "image_pages p cs sc n = concat (map (\<lambda>i. seg_list (the (segment_at p i)) (seg_base cs (sc + i)) (seg_count_pages (the (segment_at p i)))) [0..<n])"

definition with_pages :: "spaces \<Rightarrow> u64 \<Rightarrow> (nat list \<times> u64 \<times> prot) list \<Rightarrow> spaces" where
  "with_pages S r xs = S\<lparr>pages := (pages S)(r := pages S r ++ map_of (rev xs))\<rparr>"

lemma with_pages_Nil [simp]: "with_pages S r [] = S"
  by (simp add: with_pages_def)

lemma with_pages_append: "with_pages (with_pages S r xs) r ys = with_pages S r (xs @ ys)"
  by (simp add: with_pages_def map_of_append map_add_assoc)

lemma with_pages_sel [simp]: "held_data (with_pages S r xs) = held_data S" "roots (with_pages S r xs) = roots S"
  "pages (with_pages S r xs) r = pages S r ++ map_of (rev xs)" "r' \<noteq> r \<Longrightarrow> pages (with_pages S r xs) r' = pages S r'"
  by (simp_all add: with_pages_def)

lemma window_va: "2 ^ 30 \<le> unat va \<Longrightarrow> unat va < 2 ^ 31 \<Longrightarrow> window (path va)"
proof -
  assume v: "2 ^ 30 \<le> unat va" "unat va < 2 ^ 31"
  have "unat va div 2 ^ 30 = 1" using v by (intro div_nat_eqI) simp_all
  then have "pt_idx va 3 = 0" "pt_idx va 2 = 1" using v(2) by (simp_all add: pt_idx_div)
  then show "window (path va)" by (simp add: window_def path_def)
qed

lemma user_page_regs:
  assumes boot: "paging_booted region_at bi E0 r0 L m0" and reach: "vreach m0 (m, S)" and w: "window (path va)" "cr3 m \<noteq> KERNEL_PML4 m"
    and run: "map_user_page va pa prot d m = Some m'"
  shows "cr3 m' = cr3 m" "KERNEL_PML4 m' = KERNEL_PML4 m" "vhhdm m' = vhhdm m"
proof -
  obtain U where v: "vinv U (m, S)" using vreach_inv [OF reach boot] by blast
  then obtain T H where ok: "vm_ok U (roots S) T H m" by (rule vinvE)
  have "flushed va m m'" using map_user_page_ok [OF ok w, of pa prot d] run by (simp add: sets_page_def)
  then show "cr3 m' = cr3 m" "KERNEL_PML4 m' = KERNEL_PML4 m" "vhhdm m' = vhhdm m" by (simp_all add: flushed_def)
qed

lemma held_small:
  assumes boot: "paging_booted region_at bi E0 r0 L m0" and reach: "vreach m0 (m, S)" and b: "b \<in> held_data S" "q \<in> pframes b"
  shows "q < 2 ^ 20"
proof -
  obtain U where v: "vinv U (m, S)" using vreach_inv [OF reach boot] by blast
  then obtain T H where ok: "vm_ok U (roots S) T H m" and h: "held_data S \<subseteq> H" by (rule vinvE)
  have "frames_ok U (vframes m) H" "U \<subseteq> {..<2 ^ 20}" using ok by (auto simp: vm_ok_def)
  then show ?thesis using frames_ok_blocks(2) [of U "vframes m" H b] b h by auto
qed

lemma map_pages_reach:
  assumes boot: "paging_booted region_at bi E0 r0 L m0" and reach: "vreach m0 (m, S)" and r: "cr3 m = r" "r \<noteq> KERNEL_PML4 m"
    and w: "2 ^ 30 \<le> unat (vaddr s)" "unat (vaddr s) + 4096 * n \<le> 2 ^ 31"
    and b: "\<And>k. k < n \<Longrightarrow> in_data (pfn_to_phys (b + of_nat k)) (held_data S)"
    and run: "for_each (map_segment_page True d s b) [0..<n] m = Some m'"
  shows "vreach m0 (m', with_pages S r (seg_list s b n)) \<and> cr3 m' = r \<and> KERNEL_PML4 m' = KERNEL_PML4 m \<and> vhhdm m' = vhhdm m"
  using w(2) b run
proof (induction n arbitrary: m')
  case 0
  then show ?case using reach r by (simp add: seg_list_def)
next
  case (Suc n)
  obtain m1 where m1: "for_each (map_segment_page True d s b) [0..<n] m = Some m1" and st: "map_segment_page True d s b n m1 = Some m'"
    using Suc.prems(3) by (auto simp: bind_eq_Some_conv)
  have IH: "vreach m0 (m1, with_pages S r (seg_list s b n))" "cr3 m1 = r" "KERNEL_PML4 m1 = KERNEL_PML4 m" "vhhdm m1 = vhhdm m"
    using Suc.IH [OF _ _ m1] Suc.prems(1,2) by auto
  let ?va = "vaddr s + of_nat (4096 * n)" let ?pa = "pfn_to_phys (b + of_nat n)" let ?S = "with_pages S r (seg_list s b n)"
  have mp: "map_user_page ?va ?pa (perm_to_prot (perm s)) d m1 = Some m'"
    using st by (auto simp: map_segment_page_def bind_eq_Some_conv checked_mul_Some checked_add_Some mult.commute)
  have n: "4096 * n < 2 ^ 31" using Suc.prems(1) by simp
  have o: "unat (of_nat (4096 * n) :: u64) = 4096 * n" using n by (simp only: unat_of_nat) simp
  have "unat ?va = unat (vaddr s) + 4096 * n" using Suc.prems(1) o by (simp add: unat_word_ariths del: of_nat_mult)
  then have win: "window (path ?va)" using Suc.prems(1) w(1) by (intro window_va) simp_all
  have K: "cr3 m1 \<noteq> KERNEL_PML4 m1" using IH r by simp
  have d: "in_data ?pa (held_data ?S)" using Suc.prems(2) by simp
  have "vreach m0 (m', ?S\<lparr>pages := (pages ?S)(cr3 m1 := (pages ?S (cr3 m1))(path ?va \<mapsto> (?pa, perm_to_prot (perm s))))\<rparr>)"
    by (rule vreach.step [OF IH(1) vstep.user [OF K win d mp]])
  moreover have "?S\<lparr>pages := (pages ?S)(cr3 m1 := (pages ?S (cr3 m1))(path ?va \<mapsto> (?pa, perm_to_prot (perm s))))\<rparr> = with_pages S r (seg_list s b (Suc n))"
    using IH(2) by (simp add: with_pages_def seg_list_def del: of_nat_mult of_nat_Suc)
  ultimately show ?case using user_page_regs [OF boot IH(1) win K mp] IH by simp
qed

text \<open>The region of an untyped capability lies in memory held for data.\<close>

definition region_held :: "raw_cap \<Rightarrow> spaces \<Rightarrow> bool" where
  "region_held u S \<longleftrightarrow> (\<forall>q. unat (objref u) \<le> q \<longrightarrow> q < unat (objref u) + unat (csize u) \<longrightarrow> (\<exists>b\<in>held_data S. q \<in> pframes b))"

lemma seg_page_frame:
  assumes boot: "paging_booted region_at bi E0 r0 L m0" and reach: "vreach m0 (m, S)" and h: "region_held u S"
    and s: "seg_frame u cs k s" and j: "j < seg_count_pages s"
  shows "in_data (pfn_to_phys (seg_base cs k + of_nat j)) (held_data S)"
    "unat (objref u) \<le> unat (phys_to_pfn (pfn_to_phys (seg_base cs k + of_nat j)))"
    "unat (phys_to_pfn (pfn_to_phys (seg_base cs k + of_nat j))) < unat (objref u) + unat (csize u)"
proof -
  obtain b n where b: "cap_at cs k = frame_cap b n" "unat n = seg_count_pages s" "unat (objref u) \<le> unat b" "unat b + unat n \<le> unat (objref u) + unat (csize u)"
    using s by (auto simp: seg_frame_def)
  let ?q = "unat b + j"
  have r: "unat (objref u) \<le> ?q" "?q < unat (objref u) + unat (csize u)" using b j by simp_all
  then obtain x where x: "x \<in> held_data S" "?q \<in> pframes x" using h by (auto simp: region_held_def)
  have q: "?q < 2 ^ 20" by (rule held_small [OF boot reach x])
  have "unat (ucast b :: u32) = unat b" using q by (simp add: unsigned_ucast_eq take_bit_nat_eq_self)
  moreover have "unat (of_nat j :: u32) = j" using q by (simp add: unat_of_nat)
  ultimately have e: "unat (seg_base cs k + of_nat j) = ?q" using q b(1) by (simp add: seg_base_def frame_cap_def unat_word_ariths)
  show "in_data (pfn_to_phys (seg_base cs k + of_nat j)) (held_data S)"
    using x e by (auto simp: in_data_def nxt_pfn_to_phys phys_to_pfn_to_phys)
  show "unat (objref u) \<le> unat (phys_to_pfn (pfn_to_phys (seg_base cs k + of_nat j)))"
    "unat (phys_to_pfn (pfn_to_phys (seg_base cs k + of_nat j))) < unat (objref u) + unat (csize u)" using r e by (simp_all add: phys_to_pfn_to_phys)
qed

definition copies :: "pex \<Rightarrow> u64 \<Rightarrow> cspace \<Rightarrow> cptr \<Rightarrow> nat \<Rightarrow> (u64 \<times> bytes) list" where
  "copies p hhdm cs sc n = map (\<lambda>i. (the (phys_to_virt hhdm (pfn_to_phys (seg_base cs (sc + i)))), the (segment_data p i))) [0..<n]"

definition mem_done :: "pex \<Rightarrow> vm \<Rightarrow> spaces \<Rightarrow> lstate \<Rightarrow> nat \<Rightarrow> lstate \<Rightarrow> bool" where
  "mem_done p m0 S st0 j st \<longleftrightarrow> vreach m0 (l_vm st, with_pages S (cr3 (l_vm st0)) (image_pages p (l_loader st) (l_scratch st0) j))
     \<and> cr3 (l_vm st) = cr3 (l_vm st0) \<and> KERNEL_PML4 (l_vm st) = KERNEL_PML4 (l_vm st0) \<and> vhhdm (l_vm st) = vhhdm (l_vm st0)
     \<and> l_copied st = l_copied st0 @ copies p (vhhdm (l_vm st0)) (l_loader st) (l_scratch st0) j"

lemma pages_cong:
  assumes "\<And>i. i < n \<Longrightarrow> cap_at cs' (sc + i) = cap_at cs (sc + i)"
  shows "image_pages p cs' sc n = image_pages p cs sc n" "copies p h cs' sc n = copies p h cs sc n"
  unfolding image_pages_def copies_def seg_base_def
  by (rule arg_cong [where f = concat], rule map_cong [OF refl], simp add: assms) (rule map_cong [OF refl], simp add: assms)

lemma mem_done_step:
  assumes boot: "paging_booted region_at bi E0 r0 L m0" and D: "segs_done p st0 j f st" and M: "mem_done p m0 S st0 j st"
    and K: "cr3 (l_vm st0) \<noteq> KERNEL_PML4 (l_vm st0)" and h: "region_held (cap_at (l_loader st0) L_UNTYPED) S" and run: "load_segment p d True j f st = (Ok f', st')"
  shows "mem_done p m0 S st0 (Suc j) st'"
proof -
  let ?sc = "l_scratch st0" let ?u = "cap_at (l_loader st0) L_UNTYPED" let ?r = "cr3 (l_vm st0)"
  have wf: "wf_cspace (l_loader st)" and sc: "l_scratch st = ?sc + j" using D by (auto simp: segs_done_def loader_ready_def)
  have D': "segs_done p st0 (Suc j) f' st'" by (rule segs_done_step [OF D run])
  show ?thesis
  proof (rule load_segment_Ok [OF run wf])
    fix s n x data assume s: "segment_at p j = Some s" "in_window s" "unat n = seg_count_pages s"
      and r: "retype (l_loader st) L_UNTYPED Frame n 1 (l_scratch st) = (Ok (), l_loader st')"
      and fe: "for_each (map_segment_page True d s (ucast (retype_base (l_loader st) 0))) [0..<unat n] (l_vm st) = Some (l_vm st')"
      and cp: "segment_data p j = Some data" "phys_to_virt (vhhdm (l_vm st)) (pfn_to_phys (ucast (retype_base (l_loader st) 0))) = Some x" "l_copied st' = l_copied st @ [(x, data)]"
    note R = retype_frame [OF wf r]
    have new: "cap_at (l_loader st') (?sc + j) = frame_cap (retype_base (l_loader st) 0) n" using R(3,8) sc by simp
    then have base: "ucast (retype_base (l_loader st) 0) = seg_base (l_loader st') (?sc + j)" by (simp add: seg_base_def frame_cap_def)
    have old: "cap_at (l_loader st') (?sc + i) = cap_at (l_loader st) (?sc + i)" if i: "i < j" for i
    proof -
      have "\<not> is_null (cap_at (l_loader st) (?sc + i))" "cap_type (cap_at (l_loader st) (?sc + i)) = Frame"
        using D i by (auto simp: segs_done_def seg_frame_def frame_cap_def is_null_def)
      then have "?sc + i \<noteq> 0" using R(1) by (cases "?sc + i = 0") auto
      then show ?thesis using R(8) i sc by simp
    qed
    have sf: "seg_frame ?u (l_loader st') (?sc + j) s" using D' s(1) by (auto simp: segs_done_def)
    let ?S = "with_pages S ?r (image_pages p (l_loader st') ?sc j)"
    have V: "vreach m0 (l_vm st, ?S)" "cr3 (l_vm st) = ?r" "KERNEL_PML4 (l_vm st) = KERNEL_PML4 (l_vm st0)" "vhhdm (l_vm st) = vhhdm (l_vm st0)"
      "l_copied st = l_copied st0 @ copies p (vhhdm (l_vm st0)) (l_loader st') ?sc j" using M pages_cong [OF old] by (auto simp: mem_done_def)
    have hS: "region_held ?u ?S" using h by (simp add: region_held_def)
    have w: "2 ^ 30 \<le> unat (vaddr s)" "unat (vaddr s) + 4096 * unat n \<le> 2 ^ 31" using s(2,3) by (auto simp: in_window_def seg_count_pages_def)
    have in_d: "in_data (pfn_to_phys (seg_base (l_loader st') (?sc + j) + of_nat k)) (held_data ?S)" if "k < unat n" for k
      using seg_page_frame(1) [OF boot V(1) hS sf] that s(3) by simp
    have "vreach m0 (l_vm st', with_pages ?S ?r (seg_list s (seg_base (l_loader st') (?sc + j)) (unat n))) \<and> cr3 (l_vm st') = ?r
        \<and> KERNEL_PML4 (l_vm st') = KERNEL_PML4 (l_vm st) \<and> vhhdm (l_vm st') = vhhdm (l_vm st)"
      by (rule map_pages_reach [OF boot V(1,2) _ w in_d fe [unfolded base]]) (use K V(3) in simp_all)
    moreover have "image_pages p (l_loader st') ?sc (Suc j) = image_pages p (l_loader st') ?sc j @ seg_list s (seg_base (l_loader st') (?sc + j)) (unat n)"
      using s by (simp add: image_pages_def)
    moreover have "copies p (vhhdm (l_vm st0)) (l_loader st') ?sc (Suc j) = copies p (vhhdm (l_vm st0)) (l_loader st') ?sc j @ [(x, data)]"
      using cp V(4) base by (simp add: copies_def)
    ultimately show ?thesis using V cp(3) by (simp add: mem_done_def with_pages_append)
  qed
qed

lemma segments_reach:
  assumes boot: "paging_booted region_at bi E0 r0 L m0" and K: "cr3 (l_vm st0) \<noteq> KERNEL_PML4 (l_vm st0)" and h: "region_held (cap_at (l_loader st0) L_UNTYPED) S"
    and n: "n \<le> MAX_SEGMENTS"
  shows "segs_done p st0 j f st \<Longrightarrow> mem_done p m0 S st0 j st \<Longrightarrow> j \<le> n \<Longrightarrow> load_segments p d True [j..<n] f st = (res, st') \<Longrightarrow>
    \<exists>j' f1 st1. segs_done p st0 j' f1 st1 \<and> mem_done p m0 S st0 j' st1 \<and> l_vm st' = l_vm st1 \<and> (\<forall>f'. res = Ok f' \<longrightarrow> j' = n \<and> st1 = st' \<and> f1 = f')"
proof (induction "n - j" arbitrary: j f st)
  case 0
  then show ?case by (intro exI [of _ j] exI [of _ f] exI [of _ st]) (auto simp: sret_def)
next
  case (Suc x)
  then have j: "[j..<n] = j # [Suc j..<n]" "Suc j \<le> n" "x = n - Suc j" by (simp_all add: upt_conv_Cons)
  obtain r1 st1 where s: "load_segment p d True j f st = (r1, st1)" by (cases "load_segment p d True j f st")
  show ?case
  proof (cases "\<exists>f1. r1 = Ok f1")
    case True
    then obtain f1 where r1: "r1 = Ok f1" by blast
    have rest: "load_segments p d True [Suc j..<n] f1 st1 = (res, st')" using Suc.prems(4) s r1 unfolding j(1) by (simp add: sbind_def)
    show ?thesis
      by (rule Suc.hyps(1) [OF j(3) segs_done_step [OF Suc.prems(1) s [unfolded r1]] mem_done_step [OF boot Suc.prems(1,2) K h s [unfolded r1]] j(2) rest])
  next
    case False
    have i: "j < length f" using Suc.prems(1) j(2) n by (simp add: segs_done_def)
    have e: "st' = st1" "\<forall>f'. res \<noteq> Ok f'" using Suc.prems(4) s False unfolding j(1) by (cases r1; auto simp: sbind_def)+
    have "l_vm st1 = l_vm st" using load_segment_vm [OF i, of "l_vm st" p d True] s False unfolding fails_keep_def by (metis fst_conv snd_conv)
    then show ?thesis using Suc.prems(1,2) e by blast
  qed
qed

lemma keeps_vm_manifest: "keeps_inv (\<lambda>st. l_vm st = m \<and> l_copied st = c) (load_manifest p f is b)"
proof (induction "is" arbitrary: b)
  case (Cons i "is")
  have "keeps_inv (\<lambda>st. l_vm st = m \<and> l_copied st = c) (load_entry f e b)" for e b
    unfolding load_entry_def Let_def
    by (intro keeps_rules keeps_scratch) (auto simp: keeps_inv_def on_loader_def grant_step_def split: prod.splits)
  then show ?case using Cons by (auto intro!: keeps_rules)
qed (simp add: keeps_sret)


lemma parse_max_segments: "pex_parse img arch = Ok p \<Longrightarrow> segment_count p \<le> MAX_SEGMENTS"
  by (auto simp: pex_parse_def parse_header_def obind_Ok segment_count_def split: if_splits)

lemma image_pages_region:
  assumes boot: "paging_booted region_at bi E0 r0 L m0" and reach: "vreach m0 (m, S)" and h: "region_held (cap_at (l_loader st0) L_UNTYPED) S"
    and D: "segs_done p st0 n f st" and x: "map_of (rev (image_pages p (l_loader st) (l_scratch st0) n)) q = Some (pa, prot)"
  shows "unat (phys_to_pfn pa) \<in> {unat (objref (cap_at (l_loader st0) L_UNTYPED))..<unat (objref (cap_at (l_loader st0) L_UNTYPED)) + unat (csize (cap_at (l_loader st0) L_UNTYPED))}"
proof -
  have "(q, (pa, prot)) \<in> set (image_pages p (l_loader st) (l_scratch st0) n)" using map_of_SomeD [OF x] by simp
  then obtain i k where i: "i < n" "k < seg_count_pages (the (segment_at p i))" "pa = pfn_to_phys (seg_base (l_loader st) (l_scratch st0 + i) + of_nat k)"
    by (auto simp: image_pages_def seg_list_def)
  obtain s where s: "segment_at p i = Some s" "seg_frame (cap_at (l_loader st0) L_UNTYPED) (l_loader st) (l_scratch st0 + i) s"
    using D i(1) unfolding segs_done_def by blast
  show ?thesis using seg_page_frame(2,3) [OF boot reach h s(2), of k] i s(1) by simp
qed

text \<open>The segments' frames stay where they are while the manifest is processed.\<close>

lemma manifest_keeps_pages:
  assumes D: "segs_done p st0 n f st1" and M: "man_done p f st1 k b st'"
  shows "image_pages p (l_loader st') (l_scratch st0) n = image_pages p (l_loader st1) (l_scratch st0) n"
    "copies p h (l_loader st') (l_scratch st0) n = copies p h (l_loader st1) (l_scratch st0) n"
proof -
  have e: "cap_at (l_loader st') (l_scratch st0 + i) = cap_at (l_loader st1) (l_scratch st0 + i)" if i: "i < n" for i
  proof -
    obtain s where s: "seg_frame (cap_at (l_loader st0) L_UNTYPED) (l_loader st1) (l_scratch st0 + i) s" using D i unfolding segs_done_def by blast
    show ?thesis by (rule seg_frame_kept(1) [OF _ _ s]) (use D M in \<open>auto simp: segs_done_def man_done_def\<close>)
  qed
  show "image_pages p (l_loader st') (l_scratch st0) n = image_pages p (l_loader st1) (l_scratch st0) n"
    "copies p h (l_loader st') (l_scratch st0) n = copies p h (l_loader st1) (l_scratch st0) n" using pages_cong [OF e] by blast+
qed

text \<open>Every load, successful or not, ends with the pages of some of the segments mapped.\<close>

lemma load_memory:
  assumes boot: "paging_booted region_at bi E0 r0 L m0" and reach: "vreach m0 (l_vm st, S)" and K: "cr3 (l_vm st) \<noteq> KERNEL_PML4 (l_vm st)"
    and r: "loader_ready (l_loader st)" and h: "region_held (cap_at (l_loader st) L_UNTYPED) S" and run: "load img d True st = (res, st')"
  shows "l_vm st' = l_vm st \<or> (\<exists>p j f st1. segs_done p st j f st1 \<and> mem_done p m0 S st j st1 \<and> l_vm st' = l_vm st1)"
proof (cases "pex_parse img PEX_ARCH")
  case (Ok p)
  obtain r1 st1 where s: "load_segments p d True [0..<segment_count p] (replicate MAX_SEGMENTS None) st = (r1, st1)"
    by (cases "load_segments p d True [0..<segment_count p] (replicate MAX_SEGMENTS None) st")
  have M: "mem_done p m0 S st 0 st" using reach by (simp add: mem_done_def image_pages_def copies_def)
  have n: "segment_count p \<le> MAX_SEGMENTS" by (rule parse_max_segments [OF Ok])
  obtain j f st2 where d: "segs_done p st j f st2" "mem_done p m0 S st j st2" "l_vm st1 = l_vm st2"
    using segments_reach [OF boot K h n segs_done_start [OF r] M _ s] by blast
  have "l_vm st' = l_vm st1"
  proof (cases r1)
    case (Ok f1)
    obtain r2 st3 where m: "load_manifest p f1 [0..<manifest_count p] 0 st1 = (r2, st3)" by (cases "load_manifest p f1 [0..<manifest_count p] 0 st1")
    have "l_vm st3 = l_vm st1" using keeps_vm_manifest [of "l_vm st1" "l_copied st1" p f1 "[0..<manifest_count p]" 0] m by (auto simp: keeps_inv_def)
    moreover have "st' = st3" using run \<open>pex_parse img PEX_ARCH = outcome.Ok p\<close> s Ok m by (cases r2) (auto simp: load_def sbind_def sret_def)
    ultimately show ?thesis by simp
  qed (use run \<open>pex_parse img PEX_ARCH = outcome.Ok p\<close> s in \<open>auto simp: load_def sbind_def sret_def\<close>)
  then show ?thesis using d by metis
qed (use run in \<open>auto simp: load_def sbind_def sret_def\<close>)

text \<open>What every load keeps of the address spaces, \<open>S\<close> before and \<open>S'\<close> after.\<close>

definition load_effect :: "vm \<Rightarrow> spaces \<Rightarrow> raw_cap \<Rightarrow> vm \<Rightarrow> vm \<Rightarrow> spaces \<Rightarrow> bool" where
  "load_effect m0 S u m m' S' \<longleftrightarrow> vreach m0 (m', S') \<and> (\<forall>r\<in>roots S. user_view (ptab m') r (pages S' r))
    \<and> roots S' = roots S \<and> held_data S' = held_data S \<and> cr3 m' = cr3 m
    \<and> (\<forall>r. r \<noteq> cr3 m \<longrightarrow> pages S' r = pages S r)
    \<and> (\<forall>q. pages S' (cr3 m) q = pages S (cr3 m) q
         \<or> (\<exists>pa prot. pages S' (cr3 m) q = Some (pa, prot) \<and> unat (phys_to_pfn pa) \<in> {unat (objref u)..<unat (objref u) + unat (csize u)}))"

lemma segments_effect:
  assumes boot: "paging_booted region_at bi E0 r0 L m0" and reach: "vreach m0 (l_vm st, S)" and h: "region_held (cap_at (l_loader st) L_UNTYPED) S"
    and D: "segs_done p st j f st1" and M: "mem_done p m0 S st j st1"
  shows "load_effect m0 S (cap_at (l_loader st) L_UNTYPED) (l_vm st) (l_vm st1) (with_pages S (cr3 (l_vm st)) (image_pages p (l_loader st1) (l_scratch st) j))"
proof -
  let ?S' = "with_pages S (cr3 (l_vm st)) (image_pages p (l_loader st1) (l_scratch st) j)" let ?u = "cap_at (l_loader st) L_UNTYPED"
  have V: "vreach m0 (l_vm st1, ?S')" "cr3 (l_vm st1) = cr3 (l_vm st)" using M by (auto simp: mem_done_def)
  obtain U where v: "vinv U (l_vm st1, ?S')" using vreach_inv [OF V(1) boot] by blast
  have "\<forall>r\<in>roots S. user_view (ptab (l_vm st1)) r (pages ?S' r)" by (rule vinvE [OF v]) simp
  moreover have "pages ?S' (cr3 (l_vm st)) q = pages S (cr3 (l_vm st)) q
      \<or> (\<exists>pa prot. pages ?S' (cr3 (l_vm st)) q = Some (pa, prot) \<and> unat (phys_to_pfn pa) \<in> {unat (objref ?u)..<unat (objref ?u) + unat (csize ?u)})" for q
    using image_pages_region [OF boot reach h D, of q]
    by (cases "map_of (rev (image_pages p (l_loader st1) (l_scratch st) j)) q") (auto simp: map_add_def)
  ultimately show ?thesis using V unfolding load_effect_def by simp
qed

text \<open>
  (C40) What a load does to memory.  The loader runs with the process's address space active and its
  untyped region inside memory held for data.  Whatever the image and wherever the load stops, the
  kernel is again in a reachable state: every other space keeps its user pages, the process keeps its
  own or gains pages whose frames lie in the untyped region, the frames held for data are the same
  and in every space the hardware's user view is exactly its page map.  When the load succeeds the process has
  gained exactly the pages of its segments, page \<open>k\<close> of a segment mapped at its address plus \<open>k\<close>
  pages with the segment's permission and backed by frame \<open>k\<close> of the segment's frame capability,
  and the contents of each segment were copied to the start of its frames.
\<close>

theorem loader_pages:
  assumes boot: "paging_booted region_at bi E0 r0 L m0" and reach: "vreach m0 (l_vm st, S)" and K: "cr3 (l_vm st) \<noteq> KERNEL_PML4 (l_vm st)"
    and r: "loader_ready (l_loader st)" and w: "wf_cspace (l_proc st)" and u: "u = cap_at (l_loader st) L_UNTYPED" and h: "region_held u S"
    and run: "load img d True st = (res, st')"
  shows "\<exists>S'. vreach m0 (l_vm st', S') \<and> (\<forall>r\<in>roots S. user_view (ptab (l_vm st')) r (pages S' r))
    \<and> roots S' = roots S \<and> held_data S' = held_data S \<and> cr3 (l_vm st') = cr3 (l_vm st)
    \<and> (\<forall>r. r \<noteq> cr3 (l_vm st) \<longrightarrow> pages S' r = pages S r)
    \<and> (\<forall>q. pages S' (cr3 (l_vm st)) q = pages S (cr3 (l_vm st)) q
         \<or> (\<exists>pa prot. pages S' (cr3 (l_vm st)) q = Some (pa, prot) \<and> unat (phys_to_pfn pa) \<in> {unat (objref u)..<unat (objref u) + unat (csize u)}))
    \<and> (case res of Err e \<Rightarrow> True | Panic \<Rightarrow> True | Ok ld \<Rightarrow>
        (\<exists>p. pex_parse img PEX_ARCH = Ok p
          \<and> S' = with_pages S (cr3 (l_vm st)) (image_pages p (l_loader st') (l_scratch st) (segment_count p))
          \<and> l_copied st' = l_copied st @ copies p (vhhdm (l_vm st)) (l_loader st') (l_scratch st) (segment_count p)
          \<and> (\<forall>i < segment_count p. \<exists>s. segment_at p i = Some s \<and> in_window s \<and> seg_frame u (l_loader st') (l_scratch st + i) s)))"
proof -
  let ?Q = "\<lambda>S'. case res of Err e \<Rightarrow> True | Panic \<Rightarrow> True | Ok ld \<Rightarrow>
        (\<exists>p. pex_parse img PEX_ARCH = Ok p
          \<and> S' = with_pages S (cr3 (l_vm st)) (image_pages p (l_loader st') (l_scratch st) (segment_count p))
          \<and> l_copied st' = l_copied st @ copies p (vhhdm (l_vm st)) (l_loader st') (l_scratch st) (segment_count p)
          \<and> (\<forall>i < segment_count p. \<exists>s. segment_at p i = Some s \<and> in_window s \<and> seg_frame u (l_loader st') (l_scratch st + i) s))"
  note P = segments_effect [OF boot reach h [unfolded u], folded u]
  have M0: "mem_done p m0 S st 0 st" for p using reach by (simp add: mem_done_def image_pages_def copies_def)
  have start: "load_effect m0 S u (l_vm st) (l_vm st) S" using P [OF segs_done_start [OF r] M0] by (simp add: image_pages_def)
  have "\<exists>S'. load_effect m0 S u (l_vm st) (l_vm st') S' \<and> ?Q S'"
  proof (cases "\<exists>ld. res = Ok ld")
    case True
    then obtain ld where ld: "res = Ok ld" by blast
    show ?thesis
    proof (rule load_Ok [OF r w run [unfolded ld]])
      fix p f st1 assume p: "pex_parse img PEX_ARCH = Ok p" and D: "segs_done p st (segment_count p) f st1"
        and s: "load_segments p d True [0..<segment_count p] (replicate MAX_SEGMENTS None) st = (Ok f, st1)"
        and m: "load_manifest p f [0..<manifest_count p] 0 st1 = (Ok (ld_budget ld), st')" and N: "man_done p f st1 (manifest_count p) (ld_budget ld) st'"
      have M: "mem_done p m0 S st (segment_count p) st1"
        using segments_reach [OF boot K h [unfolded u] parse_max_segments [OF p] segs_done_start [OF r] M0 _ s] by auto
      have e: "l_vm st' = l_vm st1" "l_copied st' = l_copied st1"
        using keeps_vm_manifest [of "l_vm st1" "l_copied st1" p f "[0..<manifest_count p]" 0] m by (auto simp: keeps_inv_def)
      note q = manifest_keeps_pages [OF D N]
      have F: "\<exists>s. segment_at p i = Some s \<and> in_window s \<and> seg_frame u (l_loader st') (l_scratch st + i) s" if i: "i < segment_count p" for i
      proof -
        obtain s where s: "segment_at p i = Some s" "in_window s" "seg_frame u (l_loader st1) (l_scratch st + i) s" using D i unfolding segs_done_def u by blast
        have "seg_frame u (l_loader st') (l_scratch st + i) s" by (rule seg_frame_kept(2) [OF _ _ s(3)]) (use D N in \<open>auto simp: segs_done_def man_done_def\<close>)
        then show ?thesis using s by blast
      qed
      let ?S = "with_pages S (cr3 (l_vm st)) (image_pages p (l_loader st1) (l_scratch st) (segment_count p))"
      have "l_copied st' = l_copied st @ copies p (vhhdm (l_vm st)) (l_loader st') (l_scratch st) (segment_count p)" using M e(2) q(2) by (simp add: mem_done_def)
      then have "?Q ?S" using p F q(1) ld by simp
      then show ?thesis using P [OF D M] e(1) by auto
    qed
  next
    case False
    then have Q: "?Q S'" for S' by (cases res) auto
    from load_memory [OF boot reach K r h [unfolded u] run] show ?thesis
    proof (elim disjE exE conjE)
      assume "l_vm st' = l_vm st"
      then show ?thesis using start Q by auto
    next
      fix p j f st1 assume "segs_done p st j f st1" "mem_done p m0 S st j st1" "l_vm st' = l_vm st1"
      then show ?thesis using P [of p j f st1] Q by auto
    qed
  qed
  then show ?thesis unfolding load_effect_def by (simp only: conj_assoc)
qed


section \<open>A load on a booted machine\<close>

text \<open>An image with one executable page that starts with three bytes of code, and a manifest that asks for a
  budget of 100, the endpoint with badge 7 and its own code page read-only.\<close>

definition demo_segment :: segment where
  "demo_segment = \<lparr>file_off = 176, file_size = 3, vaddr = 0x40000000, mem_size = 0x1000, perm = 5\<rparr>"

definition demo_entries :: "manifest_entry list" where
  "demo_entries = [\<lparr>me_cap_type = MANIFEST_SCHED, me_dest_slot = 0, me_rights = 0x200, me_param0 = 100, me_param1 = 0\<rparr>,
     \<lparr>me_cap_type = MANIFEST_ENDPOINT, me_dest_slot = 3, me_rights = 0x40, me_param0 = 7, me_param1 = 0\<rparr>,
     \<lparr>me_cap_type = MANIFEST_FRAME, me_dest_slot = 5, me_rights = 0x1, me_param0 = 0, me_param1 = 0\<rparr>]"

definition entry_bytes :: "manifest_entry \<Rightarrow> bytes" where
  "entry_bytes e = [me_cap_type e, 0] @ word_enc 2 (me_dest_slot e) @ word_enc 4 (me_rights e) @ word_enc 8 (me_param0 e) @ word_enc 8 (me_param1 e) @ replicate 8 0"

definition demo_image :: bytes where
  "demo_image = word_enc 4 PEX_MAGIC @ word_enc 2 PEX_VERSION @ word_enc 2 ARCH_X86_64 @ word_enc 8 (0x40000000 :: u64)
     @ word_enc 4 (179 :: u32) @ word_enc 4 (48 :: u32) @ word_enc 2 (1 :: u16) @ word_enc 2 (3 :: u16)
     @ word_enc 4 (80 :: u32) @ word_enc 4 (0 :: u32) @ word_enc 4 (0 :: u32) @ word_enc 8 (0 :: u64)
     @ word_enc 4 (176 :: u32) @ word_enc 4 (3 :: u32) @ word_enc 8 (0x40000000 :: u64) @ word_enc 8 (0x1000 :: u64)
     @ [5, 0, 0, 0, 0, 0, 0, 0] @ concat (map entry_bytes demo_entries) @ [0x0f, 0x05, 0xc3]"

definition demo_pex :: pex where
  "demo_pex = \<lparr>pbytes = demo_image, pentry = 0x40000000, seg_off = 48, seg_count = 1, man_off = 80, man_count = 3\<rparr>"

lemma demo_header: "parse_header demo_image PEX_ARCH = Ok demo_pex"
proof -
  have h: "case parse_header demo_image PEX_ARCH of Ok p \<Rightarrow> pentry p = 0x40000000 \<and> seg_off p = 48 \<and> seg_count p = 1 \<and> man_off p = 80 \<and> man_count p = 3 | _ \<Rightarrow> False"
    by code_simp
  have "length demo_image \<le> usize_max" by code_simp
  then show ?thesis using h parse_header_Ok(2) [of demo_image PEX_ARCH] by (cases "parse_header demo_image PEX_ARCH") (auto simp: demo_pex_def)
qed

lemma demo_records: "segment_at demo_pex 0 = Some demo_segment" "segment_data demo_pex 0 = Some [0x0f, 0x05, 0xc3]"
  "manifest_at demo_pex 0 = Some (demo_entries ! 0)" "manifest_at demo_pex 1 = Some (demo_entries ! 1)" "manifest_at demo_pex 2 = Some (demo_entries ! 2)"
  by code_simp+

lemma demo_parse: "pex_parse demo_image PEX_ARCH = Ok demo_pex"
proof -
  have n: "seg_count demo_pex = 1" "man_count demo_pex = 3" by (simp_all add: demo_pex_def)
  have s: "check_segments demo_pex [0] False = Ok True" "check_manifest demo_pex [0, 1, 2] = Ok ()" by code_simp+
  have u: "[0..<1] = [0 :: nat]" "[0..<3] = [0, 1, 2 :: nat]" by code_simp+
  show ?thesis by (simp add: pex_parse_def demo_header n u s del: check_segments.simps check_manifest.simps One_nat_def)
qed

definition demo_caps :: "u64 \<Rightarrow> cte list" where
  "demo_caps b = [\<lparr>cap = \<lparr>cap_type = Untyped, rights = RETYPE, objref = b, csize = 1, watermark = 0, aux = 0, badge = 0\<rparr>, parent = NIL\<rparr>,
     \<lparr>cap = \<lparr>cap_type = Sched, rights = DERIVE OR GRANT, objref = 1, csize = 1000, watermark = 0, aux = 1000, badge = 0\<rparr>, parent = NIL\<rparr>,
     \<lparr>cap = \<lparr>cap_type = Endpoint, rights = default_rights Endpoint, objref = 2, csize = 1, watermark = 0, aux = 0, badge = 0\<rparr>, parent = NIL\<rparr>,
     EMPTY, EMPTY]"

definition demo_start :: "u64 \<Rightarrow> vm \<Rightarrow> lstate" where
  "demo_start b m = \<lparr>l_loader = \<lparr>slots = demo_caps b, next_obj = 3, zlog = []\<rparr>, l_proc = cspace_new PROCESS_SLOTS, l_scratch = 3, l_vm = m, l_copied = [], l_synced = []\<rparr>"

lemma demo_ready:
  assumes "unat b < 2 ^ 20"
  shows "loader_ready (l_loader (demo_start b m))"
proof -
  have len: "length (demo_caps b) = 5" by (simp add: demo_caps_def)
  have at: "demo_caps b ! k = (if k = 0 then demo_caps b ! 0 else if k = 1 then demo_caps b ! 1 else if k = 2 then demo_caps b ! 2 else EMPTY)" if "k < 5" for k
    using that by (simp add: demo_caps_def nth_Cons' NIL_def)
  have c: "demo_caps b ! 0 = \<lparr>cap = \<lparr>cap_type = Untyped, rights = RETYPE, objref = b, csize = 1, watermark = 0, aux = 0, badge = 0\<rparr>, parent = NIL\<rparr>"
    "cap_type (cap (demo_caps b ! 1)) = Sched" "parent (demo_caps b ! 1) = NIL" "cap_type (cap (demo_caps b ! 2)) = Endpoint" "parent (demo_caps b ! 2) = NIL"
    by (simp_all add: demo_caps_def)
  have p: "parent (demo_caps b ! k) = NIL" if "k < 5" for k using at [OF that] c by (auto split: if_splits)
  have n: "node_ok (cap (demo_caps b ! 0))" "node_ok (cap (demo_caps b ! 1))" "node_ok (cap (demo_caps b ! 2))" using assms c by (simp_all add: node_ok_def)
  have nn: "\<not> is_null (cap (demo_caps b ! 0))" "\<not> is_null (cap (demo_caps b ! 1))" "\<not> is_null (cap (demo_caps b ! 2))" using c by (simp_all add: is_null_def)
  have "slot_ok (demo_caps b) k" if k: "k < 5" for k
    using at [OF k] p [OF k] n nn unfolding slot_ok_def by (auto split: if_splits)
  then have w: "wf_cspace (l_loader (demo_start b m))"
    using p len by (simp add: wf_cspace_def demo_start_def wf_slots_def ranked_def siblings_ok_def usize_max_def)
  then show ?thesis using len c by (simp add: loader_ready_def demo_start_def loader_slots)
qed

end
