(* ===== verification/Spec2Isabelle.thy ===== *)
theory Spec2Isabelle
  imports CSpace_Grant Ipc_Endpoint Sched_Executor Mem_Retype Mem_Slab Mem_Buddy_Ops Abi_Encode Kernel_User Kernel_Sched Kernel_Loader
begin

text \<open>
  A verification development of the Praesidium capability microkernel (\<^verbatim>\<open>src/\<close>).

  \<^bold>\<open>The program.\<close>  A boot loader hands the kernel a description of the machine (\<^verbatim>\<open>boot/handoff.rs\<close>).
  \<^verbatim>\<open>memory/mod.rs\<close> turns its memory map into a buddy allocator of page frames and switches to page tables
  of its own (\<^verbatim>\<open>arch/x86_64/paging.rs\<close>).  All authority is held in capability spaces (\<^verbatim>\<open>cap-core\<close>): memory
  is retyped from untyped regions, capabilities are derived with fewer rights, granted between
  spaces and revoked, and CPU time is a budget carried by a capability.  The loader
  (\<^verbatim>\<open>loader/mod.rs\<close>) parses an executable (\<^verbatim>\<open>abi/pex.rs\<close>), maps its segments and gives the process what
  its manifest asks for.  Tasks are scheduled preemptively (\<^verbatim>\<open>sched/scheduler.rs\<close>); a process enters the
  kernel only through an invocation of a capability (\<^verbatim>\<open>syscall.rs\<close>, \<^verbatim>\<open>user/mod.rs\<close>).  The crates \<^verbatim>\<open>ipc\<close>,
  \<^verbatim>\<open>sched\<close> and \<^verbatim>\<open>mem\<close> hold the message and endpoint types, a cooperative executor, and the allocators.

  \<^bold>\<open>Conventions.\<close>  \<^verbatim>\<open>u8\<close> to \<^verbatim>\<open>u64\<close> are words of that width and \<^verbatim>\<open>usize\<close> is a natural number bounded by
  \<open>usize_max\<close> (64-bit).  The kernel is built with overflow checks: an overflow, an index out of range
  or an unwrap of nothing is a trap, \<open>Panic\<close> of \<open>outcome\<close> or \<open>None\<close> in helpers; an \<^verbatim>\<open>Err\<close> of the code is
  \<open>Err\<close>.  A halt with a message is an \<open>Err\<close> value naming the message.  Mutable arguments are passed
  and returned.  Code that is not part of the sources (task bodies, the boot loader's tables and
  memory contents, linker symbols) is an argument of the definitions that use it.

  \<^bold>\<open>Theories.\<close>
  \<^item> \<^verbatim>\<open>Prelude\<close>, \<^verbatim>\<open>Trap\<close>, \<^verbatim>\<open>Bytes\<close>: outcomes, checked arithmetic, trapping array access and loops,
    little-endian codecs; the locales \<open>guarded_machine\<close> (runs of guarded operations keep an invariant),
    \<open>fifo\<close> and \<open>field_codec\<close>.
  \<^item> \<^verbatim>\<open>Rights\<close>, \<^verbatim>\<open>Cap\<close>, \<^verbatim>\<open>Budget\<close>, \<^verbatim>\<open>CSpace\<close>: the definitions of \<^verbatim>\<open>cap-core/src/\<close>, a slot table with parent
    links and a log of the zeroing hook.  \<^verbatim>\<open>CSpace_Inv\<close>, \<^verbatim>\<open>CSpace_Ops\<close>, \<^verbatim>\<open>CSpace_Retype\<close>, \<^verbatim>\<open>CSpace_Revoke\<close>:
    the invariant (acyclic parents, legitimate derivation, untyped accounting, disjoint siblings) and
    that each operation keeps it.  \<^verbatim>\<open>CSpace_Machine\<close>, \<^verbatim>\<open>CSpace_Authority\<close>, \<^verbatim>\<open>CSpace_Totals\<close>,
    \<^verbatim>\<open>CSpace_Grant\<close>: the properties over all sequences of operations: no trap, confinement of authority,
    disjoint objects, complete revocation, conservation of budgets, linearity of replies, zeroing,
    and grants between spaces.
  \<^item> \<^verbatim>\<open>Ipc_Message\<close>, \<^verbatim>\<open>Ipc_Endpoint\<close>: the message descriptor codec, the endpoint and the notification of
    \<^verbatim>\<open>ipc/src/\<close>, with the order in which parties are paired.
  \<^item> \<^verbatim>\<open>Sched_Executor\<close>: the executor of \<^verbatim>\<open>sched/src/\<close>; it returns, polls within budget and serves every
    ready task, whatever the tasks do.
  \<^item> \<^verbatim>\<open>Mem_Retype\<close>, \<^verbatim>\<open>Mem_Slab\<close>, \<^verbatim>\<open>Mem_Buddy\<close>, \<^verbatim>\<open>Mem_Buddy_Inv\<close>, \<^verbatim>\<open>Mem_Buddy_Ops\<close>: the allocators of \<^verbatim>\<open>mem/src/\<close>,
    with the lists threaded through the managed memory; the locale \<open>object_pool\<close>.
  \<^item> \<^verbatim>\<open>Abi_Pex\<close>, \<^verbatim>\<open>Abi_Encode\<close>: the parser for hostile images, the encoder, and their round trip.
  \<^item> \<^verbatim>\<open>Boot_Handoff\<close>, \<^verbatim>\<open>Kernel_Memory\<close>: the layout and intake of the handoff and the construction of the
    frame allocator; the locale \<open>frame_source\<close>.
  \<^item> \<^verbatim>\<open>Arch_Seam\<close>, \<^verbatim>\<open>Arch_Paging\<close>: \<^verbatim>\<open>arch/mod.rs\<close> and \<^verbatim>\<open>arch/x86_64/paging.rs\<close>; page tables are a function
    from frame address and index to entries.  \<^verbatim>\<open>Arch_Tables\<close>, \<^verbatim>\<open>Arch_Edits\<close>: the walk of the hardware,
    positions in the table tree, and how one edit changes the translation.  \<^verbatim>\<open>Arch_Space\<close>, \<^verbatim>\<open>Arch_Map\<close>:
    the invariant of the paging machine and the mapping operations.  \<^verbatim>\<open>Arch_Process\<close>, \<^verbatim>\<open>Arch_Clone\<close>: new
    process spaces.  \<^verbatim>\<open>Arch_Build\<close>, \<^verbatim>\<open>Arch_Boot\<close>: the kernel's own space, \<open>setup_kernel_paging\<close> and
    \<open>verify_wx\<close>, and the translation they leave.  \<^verbatim>\<open>Arch_Reach\<close>: the step relation of all paging
    operations from a boot, refined to one page map per process.
  \<^item> \<^verbatim>\<open>Kernel_Loader\<close>: \<^verbatim>\<open>loader/mod.rs\<close> over the parser, the capability spaces and the paging machine.
  \<^item> \<^verbatim>\<open>Kernel_Syscall\<close>, \<^verbatim>\<open>Kernel_User\<close>: the dispatch of invocations and the system-call layer, whose
    blocking loops are modes of a process; all interleavings of processes are runs of \<open>urun\<close>.
  \<^item> \<^verbatim>\<open>Kernel_Sched\<close>: the task table with the processor state it programs; \<open>kreach\<close> is reachability from
    a boot.

  \<^bold>\<open>Bounds and fuel.\<close>  Loops are structural, or have a termination proof (revocation, coalescing,
  block release, the executor, the page loop of the kernel image).  The parent walk of
  \<open>is_descendant\<close> has the slot count as fuel, which the invariant proves sufficient.  Loops that wait
  for another process (\<open>ipc_call\<close>, \<open>ipc_recv\<close>, \<open>notify_wait\<close>) are one poll per step.

  \<^bold>\<open>Not modelled.\<close>  Assembly and device access (context switch, trap entry, timers, serial port) and
  the caches and the TLB beyond the log of flushes; the aarch64 backend, which stands behind the same
  seam; memory ordering and the spin lock, whose critical sections are single steps; the
  demonstrations and self-tests that the kernel runs at boot; user programs, which are arbitrary
  callers; the heap, which is a third-party crate; host tools.  The pages of a process
  that has ended are reclaimed by \<open>reap_process_space\<close>, and \<open>build_domain_excluding\<close> builds the view of a
  restricted domain: both are defined, and no theorem is claimed for them.
\<close>

end
